(* ===== verification/Prelude.thy ===== *)
theory Prelude
  imports Main "HOL-Library.Word"
begin

text \<open>
  Shared vocabulary of the development: C integer conversions, the error monad in which
  every fallible routine of the program is written, and the generic list and map lemmas
  that more than one component uses.  The theorem collection \<open>c_conv\<close> holds the
  conversion facts the component proofs pass to the simplifier.
\<close>

unbundle bit_operations_syntax

named_theorems c_conv \<open>evaluation of C integer conversions on values that fit\<close>

section \<open>C integers\<close>

text \<open>
  Arithmetic of the sources happens after the integer promotions, in \<^typ>\<open>int\<close>-sized or wider
  types, so it is written on \<^typ>\<open>int\<close>; what makes the width visible is the conversion at
  every store.  A store into an \<open>int8_t\<close>, \<open>int16_t\<close>, \<open>uint8_t\<close> or \<open>uint32_t\<close> object is one of
  the conversions below (two's complement wrap-around, as gcc defines it).
\<close>

definition to_int8 :: "int \<Rightarrow> int" where
  "to_int8 x = signed_take_bit 7 x"

definition to_int16 :: "int \<Rightarrow> int" where
  "to_int16 x = signed_take_bit 15 x"

definition to_uint8 :: "int \<Rightarrow> int" where
  "to_uint8 x = take_bit 8 x"

definition to_uint32 :: "int \<Rightarrow> int" where
  "to_uint32 x = take_bit 32 x"

abbreviation INT_MAX :: int where "INT_MAX \<equiv> 2147483647"
abbreviation INT_MIN :: int where "INT_MIN \<equiv> - 2147483648"

lemma to_int8_id [c_conv]: "-128 \<le> x \<Longrightarrow> x \<le> 127 \<Longrightarrow> to_int8 x = x"
  by (simp add: to_int8_def signed_take_bit_int_eq_self)

lemma to_int16_id [c_conv]: "-32768 \<le> x \<Longrightarrow> x \<le> 32767 \<Longrightarrow> to_int16 x = x"
  by (simp add: to_int16_def signed_take_bit_int_eq_self)

lemma to_uint8_id [c_conv]: "0 \<le> x \<Longrightarrow> x \<le> 255 \<Longrightarrow> to_uint8 x = x"
  by (simp add: to_uint8_def take_bit_int_eq_self)

lemma to_uint32_id [c_conv]: "0 \<le> x \<Longrightarrow> x < 4294967296 \<Longrightarrow> to_uint32 x = x"
  by (simp add: to_uint32_def take_bit_int_eq_self)

lemma to_int8_range: "-128 \<le> to_int8 x \<and> to_int8 x \<le> 127"
  using signed_take_bit_int_greater_eq_minus_exp [of 7 x] signed_take_bit_int_less_exp [of 7 x]
  by (simp add: to_int8_def)

lemma to_int16_range: "-32768 \<le> to_int16 x \<and> to_int16 x \<le> 32767"
  using signed_take_bit_int_greater_eq_minus_exp [of 15 x] signed_take_bit_int_less_exp [of 15 x]
  by (simp add: to_int16_def)

lemma to_int8_to_uint8 [simp]: "to_int8 (to_uint8 x) = to_int8 x"
  by (simp add: to_int8_def to_uint8_def signed_take_bit_take_bit)

lemma to_int8_idem [simp]: "to_int8 (to_int8 x) = to_int8 x"
  by (simp add: to_int8_def)

section \<open>Results and errors\<close>

text \<open>
  What can go wrong in the C program beyond its own return codes.  A routine that may reach
  one of these returns a sum, \<open>Inl\<close> the error.
  \<^item> \<open>NullDeref\<close>: a null pointer is dereferenced;
  \<^item> \<open>Dangling\<close>: a freed (or never allocated) heap object is accessed;
  \<^item> \<open>OutOfBounds\<close>: an array is accessed outside its bounds;
  \<^item> \<open>DivByZero\<close>: integer division by zero;
  \<^item> \<open>IntOverflow\<close>: a signed \<open>int\<close> computation leaves the range of \<open>int\<close>;
  \<^item> \<open>NoReturn\<close>: the fuel of a loop is used up; fuel is always chosen so that this means
    the C loop does not end.
\<close>

datatype c_error = NullDeref | Dangling | OutOfBounds | DivByZero | IntOverflow | NoReturn

type_synonym 'a res = "c_error + 'a"

definition bind_res :: "'a res \<Rightarrow> ('a \<Rightarrow> 'b res) \<Rightarrow> 'b res" where
  "bind_res r f = (case r of Inl e \<Rightarrow> Inl e | Inr x \<Rightarrow> f x)"

lemma bind_res_simps [simp]:
  "bind_res (Inl e) f = Inl e"
  "bind_res (Inr x) f = f x"
  by (simp_all add: bind_res_def)

lemma bind_res_Inr_iff: "bind_res r f = Inr y \<longleftrightarrow> (\<exists>x. r = Inr x \<and> f x = Inr y)"
  by (cases r) simp_all

lemma bind_res_assoc [simp]: "bind_res (bind_res r f) g = bind_res r (\<lambda>x. bind_res (f x) g)"
  by (cases r) simp_all

lemma bind_res_cong [fundef_cong]:
  "r = r' \<Longrightarrow> (\<And>x. r' = Inr x \<Longrightarrow> f x = f' x) \<Longrightarrow> bind_res r f = bind_res r' f'"
  by (cases r') simp_all

text \<open>A signed \<open>int\<close> result that must be representable.\<close>

definition c_int :: "int \<Rightarrow> int res" where
  "c_int x = (if INT_MIN \<le> x \<and> x \<le> INT_MAX then Inr x else Inl IntOverflow)"

lemma c_int_ok [simp]: "INT_MIN \<le> x \<Longrightarrow> x \<le> INT_MAX \<Longrightarrow> c_int x = Inr x"
  by (simp add: c_int_def)

section \<open>Lists and maps\<close>

lemma map_of_None_notin: "map_of xs k = None \<longleftrightarrow> k \<notin> fst ` set xs"
  by (simp add: map_of_eq_None_iff)

lemma map_of_filter_key:
  "map_of (filter (\<lambda>(k, v). P k) xs) k = (if P k then map_of xs k else None)"
  by (induction xs) auto

lemma nth_list_update_if: "i < length xs \<Longrightarrow> xs[i := x] ! j = (if i = j then x else xs ! j)"
  by simp

lemma sum_list_update_int:
  fixes xs :: "int list"
  shows "i < length xs \<Longrightarrow> sum_list (xs[i := x]) = sum_list xs - xs ! i + x"
  by (induction xs arbitrary: i) (auto split: nat.split)

lemma foldl_cong_set:
  "(\<And>s x. x \<in> set xs \<Longrightarrow> f s x = g s x) \<Longrightarrow> foldl f s xs = foldl g s xs"
  by (induction xs arbitrary: s) auto

lemma distinct_map_fst_filter:
  "distinct (map fst xs) \<Longrightarrow> distinct (map fst (filter P xs))"
  by (rule distinct_map_filter)

end
