(* ===== verification/CMem.thy ===== *)
theory CMem
  imports Prelude
begin

text \<open>
  Objects as bytes.  The program sends its C structs over the socket byte for byte and
  overlays several structs in one union, so the messages are modelled as the byte sequences
  they are on the target (x86-64, little endian).  This theory reads and writes integers of
  a given width at an offset, and shows the laws the message layer needs: what is written is
  read back, neighbouring fields are left alone, and a narrower read of a wider field gives
  its low bytes.
\<close>

type_synonym byte = "8 word"

section \<open>Little-endian integers\<close>

definition le_val :: "byte list \<Rightarrow> int" where
  "le_val bs = horner_sum uint 256 bs"

fun le_bytes :: "nat \<Rightarrow> int \<Rightarrow> byte list" where
  "le_bytes 0 x = []"
| "le_bytes (Suc n) x = word_of_int x # le_bytes n (x div 256)"

lemma length_le_bytes [simp]: "length (le_bytes n x) = n"
  by (induction n arbitrary: x) simp_all

lemma le_val_simps [simp]:
  "le_val [] = 0"
  "le_val (b # bs) = uint b + 256 * le_val bs"
  by (simp_all add: le_val_def)

lemma le_val_append: "le_val (xs @ ys) = le_val xs + 256 ^ length xs * le_val ys"
  by (simp add: le_val_def horner_sum_append)

lemma uint_byte_bounds: "0 \<le> uint (b :: byte)" "uint (b :: byte) < 256"
  using uint_bounded [of b] by simp_all

lemma le_val_bounds: "0 \<le> le_val bs \<and> le_val bs < 256 ^ length bs"
proof (induction bs)
  case Nil
  show ?case by simp
next
  case (Cons b bs)
  then show ?case using uint_byte_bounds [of b] by simp
qed

lemma le_val_le_bytes: "le_val (le_bytes n x) = x mod 256 ^ n"
proof (induction n arbitrary: x)
  case 0
  show ?case by simp
next
  case (Suc n)
  have "uint (word_of_int x :: byte) = x mod 256"
    by (simp add: uint_word_of_int)
  with Suc show ?case
    by (simp add: mod_mult2_eq' [symmetric] zmod_zmult2_eq add.commute)
qed

lemma le_bytes_le_val: "le_bytes (length bs) (le_val bs) = bs"
proof (induction bs)
  case Nil
  show ?case by simp
next
  case (Cons b bs)
  have z: "(256 :: byte) = 0" by simp
  have "(256 :: byte) * w = 0" for w by (subst z) simp
  then have "word_of_int (uint b + 256 * le_val bs) = (b :: byte)" by simp
  moreover have "(uint b + 256 * le_val bs) div 256 = le_val bs"
    using uint_byte_bounds [of b] by simp
  ultimately show ?case using Cons by simp
qed

lemma le_val_inject: "length xs = length ys \<Longrightarrow> le_val xs = le_val ys \<longleftrightarrow> xs = ys"
  by (metis le_bytes_le_val)

section \<open>Fields of an object\<close>

text \<open>A read of \<open>n\<close> bytes at offset \<open>off\<close>, unsigned and signed, and a write.\<close>

definition load_u :: "byte list \<Rightarrow> nat \<Rightarrow> nat \<Rightarrow> int" where
  "load_u bs off n = le_val (take n (drop off bs))"

definition load_s :: "byte list \<Rightarrow> nat \<Rightarrow> nat \<Rightarrow> int" where
  "load_s bs off n = signed_take_bit (8 * n - 1) (load_u bs off n)"

definition store :: "byte list \<Rightarrow> nat \<Rightarrow> byte list \<Rightarrow> byte list" where
  "store bs off xs = take off bs @ xs @ drop (off + length xs) bs"

definition store_int :: "byte list \<Rightarrow> nat \<Rightarrow> nat \<Rightarrow> int \<Rightarrow> byte list" where
  "store_int bs off n x = store bs off (le_bytes n x)"

lemma length_store [simp]: "off + length xs \<le> length bs \<Longrightarrow> length (store bs off xs) = length bs"
  by (simp add: store_def)

lemma length_store_int [simp]: "off + n \<le> length bs \<Longrightarrow> length (store_int bs off n x) = length bs"
  by (simp add: store_int_def)

lemma take_drop_store_same:
  "off + length xs \<le> length bs \<Longrightarrow> take (length xs) (drop off (store bs off xs)) = xs"
  by (simp add: store_def)

lemma nth_store:
  assumes "off + length xs \<le> length bs" and "i < length bs"
  shows "store bs off xs ! i = (if off \<le> i \<and> i < off + length xs then xs ! (i - off) else bs ! i)"
  using assms by (auto simp: store_def nth_append min_def)

lemma take_drop_store_disjoint:
  assumes "off + length xs \<le> length bs" and "o' + n \<le> length bs"
    and "o' + n \<le> off \<or> off + length xs \<le> o'"
  shows "take n (drop o' (store bs off xs)) = take n (drop o' bs)"
  by (rule nth_equalityI) (use assms in \<open>auto simp: nth_store\<close>)

lemma load_u_store_same:
  "off + n \<le> length bs \<Longrightarrow> load_u (store_int bs off n x) off n = x mod 256 ^ n"
  using take_drop_store_same [of off "le_bytes n x" bs]
  by (simp add: load_u_def store_int_def le_val_le_bytes)

lemma load_u_store_other:
  assumes "off + n \<le> length bs" and "o' + n' \<le> length bs" and "o' + n' \<le> off \<or> off + n \<le> o'"
  shows "load_u (store_int bs off n x) o' n' = load_u bs o' n'"
  using assms by (simp add: load_u_def store_int_def take_drop_store_disjoint)

lemma load_u_bounds: "0 \<le> load_u bs off n \<and> load_u bs off n < 256 ^ n"
proof -
  have "256 ^ length (take n (drop off bs)) \<le> (256 :: int) ^ n"
    by (rule power_increasing) auto
  with le_val_bounds [of "take n (drop off bs)"] show ?thesis
    unfolding load_u_def by linarith
qed

lemma pow256: "(256 :: int) ^ n = 2 ^ (8 * n)"
  by (simp add: power_mult)

lemma load_s_store_same:
  assumes "off + n \<le> length bs" and "0 < n"
  shows "load_s (store_int bs off n x) off n = signed_take_bit (8 * n - 1) x"
proof -
  have "load_u (store_int bs off n x) off n = take_bit (8 * n) x"
    using assms by (simp add: load_u_store_same pow256 take_bit_eq_mod)
  moreover have "\<not> 8 * n \<le> 8 * n - 1" using assms(2) by linarith
  ultimately show ?thesis
    by (simp add: load_s_def signed_take_bit_take_bit)
qed

lemma load_s_store_other:
  assumes "off + n \<le> length bs" and "o' + n' \<le> length bs" and "o' + n' \<le> off \<or> off + n \<le> o'"
  shows "load_s (store_int bs off n x) o' n' = load_s bs o' n'"
  using load_u_store_other [OF assms] by (simp add: load_s_def)

text \<open>A narrower read at the same offset sees the low bytes of a wider field.\<close>

lemma load_u_low:
  assumes "off + n \<le> length bs" and "m \<le> n"
  shows "load_u bs off m = load_u bs off n mod 256 ^ m"
proof -
  let ?xs = "take m (drop off bs)" and ?ys = "drop m (take n (drop off bs))"
  have "take n (drop off bs) = ?xs @ ?ys"
    using assms(2) by (metis append_take_drop_id min.absorb1 take_take)
  moreover have "length ?xs = m" using assms by simp
  ultimately have "load_u bs off n = le_val ?xs + 256 ^ m * le_val ?ys"
    unfolding load_u_def by (metis le_val_append)
  moreover have "0 \<le> le_val ?xs" "le_val ?xs < 256 ^ m"
    using le_val_bounds [of ?xs] \<open>length ?xs = m\<close> by auto
  ultimately show ?thesis
    by (simp add: load_u_def)
qed

end
