(* ===== verification/Murmur3.thy ===== *)
theory Murmur3
  imports CMem
begin

text \<open>
  \<^verbatim>\<open>lib/MurmurHash3.c\<close>: the 128-bit hash that selects the bucket of a key.  All words are
  64 bits wide and wrap around as \<open>uint64_t\<close> does.  The fall-through \<open>switch\<close> of the tail is
  written as the sequence of its cases, each guarded by the remainder it needs.

  Shown: the hash depends on exactly the first \<open>len\<close> bytes of the buffer; the tail switch is a
  little-endian read of the zero-padded last block; \<open>fmix\<close> and the final mixing are bijections,
  hence keys of one length below 16 bytes never collide on the full 128 bits.
\<close>

type_synonym u64 = "64 word"

section \<open>The routine\<close>

definition rotl64 :: "u64 \<Rightarrow> nat \<Rightarrow> u64" where
  "rotl64 x r = (push_bit r x) OR (drop_bit (64 - r) x)"

definition getblock :: "byte list \<Rightarrow> nat \<Rightarrow> u64" where
  "getblock p i = word_of_int (load_u p (8 * i) 8)"

definition fmix :: "u64 \<Rightarrow> u64" where
  "fmix k0 =
    (let k1 = k0 XOR drop_bit 33 k0;
         k2 = k1 * 0xff51afd7ed558ccd;
         k3 = k2 XOR drop_bit 33 k2;
         k4 = k3 * 0xc4ceb9fe1a85ec53
     in k4 XOR drop_bit 33 k4)"

definition mm_c1 :: u64 where "mm_c1 = 0x87c37b91114253d5"
definition mm_c2 :: u64 where "mm_c2 = 0x4cf5ad432745937f"

text \<open>\<^verbatim>\<open>k1 *= c1; k1 = ROTL64(k1,31); k1 *= c2;\<close> and its counterpart for \<open>k2\<close>.\<close>

definition mix_k1 :: "u64 \<Rightarrow> u64" where
  "mix_k1 k = rotl64 (k * mm_c1) 31 * mm_c2"

definition mix_k2 :: "u64 \<Rightarrow> u64" where
  "mix_k2 k = rotl64 (k * mm_c2) 33 * mm_c1"

definition murmur_round :: "byte list \<Rightarrow> u64 \<times> u64 \<Rightarrow> nat \<Rightarrow> u64 \<times> u64" where
  "murmur_round blocks h i =
    (let k1 = getblock blocks (i * 2 + 0);
         k2 = getblock blocks (i * 2 + 1);
         h1 = fst h XOR mix_k1 k1;
         h1 = rotl64 h1 27 + snd h;
         h1 = h1 * 5 + 0x52dce729;
         h2 = snd h XOR mix_k2 k2;
         h2 = rotl64 h2 31 + h1;
         h2 = h2 * 5 + 0x38495ab5
     in (h1, h2))"

text \<open>One case of the tail switch: executed when the remainder is at least its label.\<close>

definition tail_case :: "nat \<Rightarrow> byte list \<Rightarrow> nat \<Rightarrow> u64 \<Rightarrow> nat \<Rightarrow> u64" where
  "tail_case rem tb base k c =
    (if c \<le> rem then k XOR push_bit (8 * (c - 1 - base)) (ucast (tb ! (c - 1))) else k)"

definition tail_k2 :: "nat \<Rightarrow> byte list \<Rightarrow> u64" where
  "tail_k2 rem tb = foldl (tail_case rem tb 8) 0 [15, 14, 13, 12, 11, 10, 9]"

definition tail_k1 :: "nat \<Rightarrow> byte list \<Rightarrow> u64" where
  "tail_k1 rem tb = foldl (tail_case rem tb 0) 0 [8, 7, 6, 5, 4, 3, 2, 1]"

definition murmur_tail :: "nat \<Rightarrow> byte list \<Rightarrow> u64 \<times> u64 \<Rightarrow> u64 \<times> u64" where
  "murmur_tail rem tb h =
    (let h2 = (if 9 \<le> rem then snd h XOR mix_k2 (tail_k2 rem tb) else snd h);
         h1 = (if 1 \<le> rem then fst h XOR mix_k1 (tail_k1 rem tb) else fst h)
     in (h1, h2))"

definition murmur_final :: "int \<Rightarrow> u64 \<times> u64 \<Rightarrow> u64 \<times> u64" where
  "murmur_final len h =
    (let h1 = fst h XOR word_of_int len;
         h2 = snd h XOR word_of_int len;
         h1 = h1 + h2;
         h2 = h2 + h1;
         h1 = fmix h1;
         h2 = fmix h2;
         h1 = h1 + h2;
         h2 = h2 + h1
     in (h1, h2))"

definition MurmurHash3_x64_128 :: "byte list \<Rightarrow> int \<Rightarrow> 32 word \<Rightarrow> u64 \<times> u64" where
  "MurmurHash3_x64_128 key len seed =
    (let nblocks = nat (len div 16);
         h = foldl (murmur_round key) (ucast seed, ucast seed) [0..<nblocks];
         tb = drop (nblocks * 16) key
     in murmur_final len (murmur_tail (nat (len AND 15)) tb h))"

section \<open>The hash reads exactly its input\<close>

lemma load_u_cong_take:
  assumes "take m p = take m q" and "off + n \<le> m"
  shows "load_u p off n = load_u q off n"
proof -
  have "take (n + off) r = take (n + off) (take m r)" for r :: "byte list"
    using assms(2) by simp
  then have "take (n + off) p = take (n + off) q" by (metis assms(1))
  then show ?thesis by (simp only: load_u_def take_drop)
qed

lemma murmur_round_cong:
  assumes "take m p = take m q" and "16 * i + 16 \<le> m"
  shows "murmur_round p h i = murmur_round q h i"
proof -
  have "getblock p (i * 2 + 0) = getblock q (i * 2 + 0)"
    and "getblock p (i * 2 + 1) = getblock q (i * 2 + 1)"
    unfolding getblock_def
    by (intro arg_cong [where f = word_of_int] load_u_cong_take [OF assms(1)]; use assms(2) in simp)+
  then show ?thesis by (simp only: murmur_round_def)
qed

lemma tail_case_cong:
  "(\<And>j. j < rem \<Longrightarrow> p ! j = q ! j) \<Longrightarrow> 0 < c \<Longrightarrow> tail_case rem p b k c = tail_case rem q b k c"
  by (simp add: tail_case_def)

lemma murmur_tail_cong:
  assumes "\<And>j. j < rem \<Longrightarrow> p ! j = q ! j"
  shows "murmur_tail rem p h = murmur_tail rem q h"
proof -
  have "tail_k1 rem p = tail_k1 rem q" "tail_k2 rem p = tail_k2 rem q"
    unfolding tail_k1_def tail_k2_def
    by (rule foldl_cong_set, rule tail_case_cong [OF assms]; auto)+
  then show ?thesis by (simp add: murmur_tail_def)
qed

lemma nat_len_and_15: "0 \<le> len \<Longrightarrow> nat (len AND 15) = nat len mod 16"
proof -
  have "len AND 15 = len AND mask 4" by (simp add: mask_eq_exp_minus_1)
  also have "\<dots> = len mod 16" by (simp only: take_bit_eq_mask [symmetric]) (simp add: take_bit_eq_mod)
  finally show "0 \<le> len \<Longrightarrow> nat (len AND 15) = nat len mod 16" by (simp add: nat_mod_distrib)
qed

lemma murmur_reads_len:
  assumes "take (length xs) p = xs" and "take (length xs) q = xs"
  shows "MurmurHash3_x64_128 p (int (length xs)) seed = MurmurHash3_x64_128 q (int (length xs)) seed"
proof -
  let ?n = "length xs" and ?b = "length xs div 16"
  have nb: "nat (int ?n div 16) = ?b" by (simp add: nat_div_distrib)
  have body: "foldl (murmur_round p) h [0..<?b] = foldl (murmur_round q) h [0..<?b]" for h
    by (rule foldl_cong_set, rule murmur_round_cong [where m = ?n]) (use assms in auto)
  have nth: "drop (?b * 16) p ! j = drop (?b * 16) q ! j" if "j < ?n mod 16" for j
  proof -
    have "?b * 16 + j < ?n" using that by (metis div_mod_decomp nat_add_left_cancel_less)
    then have "p ! (?b * 16 + j) = xs ! (?b * 16 + j)" "q ! (?b * 16 + j) = xs ! (?b * 16 + j)"
      by (metis assms(1) nth_take, metis assms(2) nth_take)
    moreover have "?b * 16 \<le> length p" "?b * 16 \<le> length q"
      using assms by (metis div_times_less_eq_dividend le_trans length_take min.cobounded1)+
    ultimately show ?thesis by simp
  qed
  have "murmur_tail (?n mod 16) (drop (?b * 16) p) h = murmur_tail (?n mod 16) (drop (?b * 16) q) h" for h
    by (rule murmur_tail_cong) (rule nth)
  then show ?thesis
    by (simp only: MurmurHash3_x64_128_def Let_def nb body nat_len_and_15 of_nat_0_le_iff nat_int)
qed

section \<open>Every mixing step is a bijection\<close>

definition xorshift33 :: "u64 \<Rightarrow> u64" where
  "xorshift33 x = x XOR drop_bit 33 x"

lemma xorshift33_involution [simp]: "xorshift33 (xorshift33 x) = x"
  by (rule bit_word_eqI) (auto simp: xorshift33_def bit_simps dest: bit_imp_le_length)

definition fmix_inv :: "u64 \<Rightarrow> u64" where
  "fmix_inv k =
    xorshift33 (xorshift33 (xorshift33 k * 0x9cb4b2f8129337db) * 0x4f74430c22a54005)"

lemma fmix_xorshift:
  "fmix k = xorshift33 (xorshift33 (xorshift33 k * 0xff51afd7ed558ccd) * 0xc4ceb9fe1a85ec53)"
  by (simp add: fmix_def xorshift33_def Let_def)

lemma fmix_constants:
  "(0xff51afd7ed558ccd :: u64) * 0x4f74430c22a54005 = 1"
  "(0xc4ceb9fe1a85ec53 :: u64) * 0x9cb4b2f8129337db = 1"
  "(0x4f74430c22a54005 :: u64) * 0xff51afd7ed558ccd = 1"
  "(0x9cb4b2f8129337db :: u64) * 0xc4ceb9fe1a85ec53 = 1"
  by simp_all

lemma fmix_inv_fmix: "fmix_inv (fmix k) = k"
  by (simp only: fmix_inv_def fmix_xorshift mult.assoc fmix_constants mult_1_right
      xorshift33_involution)

lemma fmix_fmix_inv: "fmix (fmix_inv k) = k"
  by (simp only: fmix_inv_def fmix_xorshift mult.assoc fmix_constants mult_1_right
      xorshift33_involution)

lemma rotl64_rotl64:
  assumes "0 < r" "r < 64"
  shows "rotl64 (rotl64 x r) (64 - r) = x"
  by (rule bit_word_eqI) (use assms in \<open>auto simp: rotl64_def bit_simps dest: bit_imp_le_length\<close>)

lemma rotl64_inject: "0 < r \<Longrightarrow> r < 64 \<Longrightarrow> rotl64 x r = rotl64 y r \<longleftrightarrow> x = y"
  by (metis rotl64_rotl64)

lemma mm_constants:
  "mm_c1 * 0xa98409e882ce4d7d = 1"
  "mm_c2 * 0xa81e14edd9de2c7f = 1"
  by (simp_all add: mm_c1_def mm_c2_def)

lemma mult_unit_inject:
  fixes c d :: u64
  assumes "c * d = 1"
  shows "x * c = y * c \<longleftrightarrow> x = y"
proof
  assume "x * c = y * c"
  then have "x * c * d = y * c * d" by simp
  then show "x = y" by (simp only: mult.assoc assms mult_1_right)
qed simp

lemmas mm_inject = mult_unit_inject [OF mm_constants(1)] mult_unit_inject [OF mm_constants(2)]

lemma mix_k1_inject: "mix_k1 x = mix_k1 y \<longleftrightarrow> x = y"
  by (simp add: mix_k1_def mm_inject rotl64_inject)

lemma mix_k2_inject: "mix_k2 x = mix_k2 y \<longleftrightarrow> x = y"
  by (simp add: mix_k2_def mm_inject rotl64_inject)

lemma mix_zero [simp]: "mix_k1 0 = 0" "mix_k2 0 = 0"
  by (simp_all add: mix_k1_def mix_k2_def rotl64_def)

lemma fmix_inject: "fmix x = fmix y \<longleftrightarrow> x = y"
  by (metis fmix_inv_fmix)

lemma xor_inject_right: "x XOR z = y XOR z \<longleftrightarrow> x = (y :: u64)"
proof
  assume "x XOR z = y XOR z"
  then have "(x XOR z) XOR z = (y XOR z) XOR z" by simp
  then show "x = y" by (simp only: xor.assoc xor_self_eq xor.right_neutral)
qed simp

lemma add_cross_inject:
  fixes p q p' q' :: u64
  assumes "p + q = p' + q'" and "q + (p + q) = q' + (p' + q')"
  shows "p = p' \<and> q = q'"
proof -
  from assms have "q = q'" by (metis add_right_cancel)
  with assms(1) show ?thesis by simp
qed

lemma xor_inject_left: "z XOR x = z XOR y \<longleftrightarrow> x = (y :: u64)"
  using xor_inject_right [of x z y] by (simp only: xor.commute)

lemma murmur_final_inject: "murmur_final len x = murmur_final len y \<longleftrightarrow> x = y"
proof
  assume eq: "murmur_final len x = murmur_final len y"
  let ?a = "\<lambda>z. (fst z XOR word_of_int len) + (snd z XOR word_of_int len)"
  let ?b = "\<lambda>z. (snd z XOR word_of_int len) + ?a z"
  have fin: "murmur_final len z = (fmix (?a z) + fmix (?b z), fmix (?b z) + (fmix (?a z) + fmix (?b z)))" for z
    by (simp add: murmur_final_def Let_def)
  have "fmix (?a x) = fmix (?a y) \<and> fmix (?b x) = fmix (?b y)"
    using eq unfolding fin prod.inject by (elim conjE) (rule add_cross_inject)
  then have ab: "?a x = ?a y \<and> ?b x = ?b y" unfolding fmix_inject .
  from ab have a: "?a x = ?a y" by (rule conjunct1)
  from ab have b: "?b x = ?b y" by (rule conjunct2)
  from b have s: "snd x XOR word_of_int len = snd y XOR word_of_int len"
    unfolding a by (simp only: add_right_cancel)
  with a have "fst x XOR word_of_int len = fst y XOR word_of_int len" by simp
  with s show "x = y" by (simp add: xor_inject_right prod_eq_iff)
qed simp

section \<open>The tail switch reads the zero-padded last block\<close>

lemma tail_case_acc: "foldl (tail_case rem tb b) k cs = k XOR foldl (tail_case rem tb b) 0 cs"
proof (induction cs arbitrary: k)
  case Nil
  show ?case by simp
next
  case (Cons c cs)
  have "tail_case rem tb b k c = k XOR tail_case rem tb b 0 c"
    by (simp add: tail_case_def)
  with Cons [of "tail_case rem tb b k c"] Cons [of "tail_case rem tb b 0 c"] show ?case
    by (simp add: xor.assoc)
qed

lemma le_val_xor_next:
  assumes "length xs = n" and "n < 8"
  shows "(word_of_int (le_val (xs @ [x])) :: u64)
       = push_bit (8 * n) (ucast x) XOR word_of_int (le_val xs)"
proof -
  have lt: "le_val xs < 2 ^ (8 * n)" "0 \<le> le_val xs"
    using le_val_bounds [of xs] assms(1) by (simp_all add: pow256)
  have "le_val (xs @ [x]) = push_bit (8 * n) (uint x) + le_val xs"
    using assms(1) by (simp add: le_val_append pow256 push_bit_eq_mult)
  also have "\<dots> = push_bit (8 * n) (uint x) XOR le_val xs"
  proof (rule disjunctive_add_eq_xor)
    have "take_bit (8 * n) (le_val xs) = le_val xs" using lt by (simp add: take_bit_int_eq_self)
    then have "j < 8 * n" if "bit (le_val xs) j" for j
      using that by (metis bit_take_bit_iff)
    then show "push_bit (8 * n) (uint x) AND le_val xs = 0"
      by (intro bit_eqI) (fastforce simp: bit_simps)
  qed
  finally show ?thesis
    by (simp add: of_int_xor_eq of_int_push_bit unsigned_of_int)
qed

lemma tail_case_fold:
  assumes "n \<le> 8" and "rem \<le> length tb"
  shows "foldl (tail_case rem tb b) 0 (rev [b + 1..<b + n + 1])
       = word_of_int (le_val (take (min n (rem - b)) (drop b tb)))"
  using assms(1)
proof (induction n)
  case 0
  show ?case by simp
next
  case (Suc n)
  let ?S = "foldl (tail_case rem tb b) 0 (rev [b + 1..<b + n + 1])"
  have IH: "?S = word_of_int (le_val (take (min n (rem - b)) (drop b tb)))"
    using Suc by simp
  have step: "foldl (tail_case rem tb b) 0 (rev [b + 1..<b + Suc n + 1])
      = tail_case rem tb b 0 (b + n + 1) XOR ?S"
    by (simp add: tail_case_acc [of rem tb b "tail_case rem tb b 0 (Suc (b + n))"])
  show ?case
  proof (cases "b + n < rem")
    case True
    let ?xs = "take n (drop b tb)"
    have len: "length ?xs = n" and x: "b + n < length tb"
      using True assms(2) by simp_all
    have "take (Suc n) (drop b tb) = ?xs @ [tb ! (b + n)]"
      using x by (simp add: take_Suc_conv_app_nth)
    moreover have "min (Suc n) (rem - b) = Suc n" "min n (rem - b) = n"
      using True by simp_all
    moreover have "tail_case rem tb b 0 (b + n + 1) = push_bit (8 * n) (ucast (tb ! (b + n)))"
      using True by (simp add: tail_case_def)
    moreover have "n < 8" using Suc.prems by simp
    ultimately show ?thesis
      using le_val_xor_next [OF len, of "tb ! (b + n)"] by (simp only: step IH)
  next
    case False
    then have "min (Suc n) (rem - b) = min n (rem - b)" by simp
    moreover have "tail_case rem tb b 0 (b + n + 1) = 0"
      using False by (simp add: tail_case_def)
    ultimately show ?thesis by (simp only: step IH xor.left_neutral)
  qed
qed

lemma tail_k1_le_val:
  assumes "rem \<le> length tb"
  shows "tail_k1 rem tb = word_of_int (le_val (take (min 8 rem) tb))"
proof -
  have "rev [0 + 1..<0 + 8 + 1] = [8, 7, 6, 5, 4, 3, 2, 1 :: nat]" by (simp add: upt_rec)
  with tail_case_fold [of 8 rem tb 0] assms show ?thesis
    by (simp add: tail_k1_def)
qed

lemma tail_k2_le_val:
  assumes "rem \<le> length tb" "rem < 16"
  shows "tail_k2 rem tb = word_of_int (le_val (take (rem - 8) (drop 8 tb)))"
proof -
  have "rev [8 + 1..<8 + 7 + 1] = [15, 14, 13, 12, 11, 10, 9 :: nat]" by (simp add: upt_rec)
  moreover have "min 7 (rem - 8) = rem - 8" using assms by simp
  ultimately show ?thesis using tail_case_fold [of 7 rem tb 8] assms
    by (simp only: tail_k2_def)
qed


section \<open>No collisions among short keys of one length\<close>

lemma word_le_val_inject:
  assumes "length xs = length ys" and "length xs \<le> 8"
    and "(word_of_int (le_val xs) :: u64) = word_of_int (le_val ys)"
  shows "xs = ys"
proof -
  have "(256 :: int) ^ length xs \<le> 256 ^ 8" by (rule power_increasing) (use assms(2) in auto)
  then have b: "0 \<le> le_val xs \<and> le_val xs < 2 ^ 64" "0 \<le> le_val ys \<and> le_val ys < 2 ^ 64"
    using le_val_bounds [of xs] le_val_bounds [of ys] assms(1) by simp_all
  have "uint (word_of_int (le_val xs) :: u64) = uint (word_of_int (le_val ys) :: u64)"
    using assms(3) by simp
  then have "le_val xs = le_val ys"
    using b by (simp add: uint_word_of_int)
  with assms(1) show ?thesis by (simp add: le_val_inject)
qed

lemma murmur_tail_inject:
  assumes len: "length xs = r" "length ys = r" and r: "r < 16"
    and eq: "murmur_tail r xs h = murmur_tail r ys h"
  shows "xs = ys"
proof -
  have k1: "tail_k1 r xs = tail_k1 r ys"
  proof (cases "1 \<le> r")
    case True
    with eq show ?thesis by (auto simp: murmur_tail_def Let_def mix_k1_inject xor_inject_left)
  next
    case False
    then have "r = 0" by simp
    with len show ?thesis by simp
  qed
  have k2: "tail_k2 r xs = tail_k2 r ys"
  proof (cases "9 \<le> r")
    case True
    with eq show ?thesis by (auto simp: murmur_tail_def Let_def mix_k2_inject xor_inject_left)
  next
    case False
    with len r show ?thesis by (simp add: tail_k2_le_val)
  qed
  have "take (min 8 r) xs = take (min 8 r) ys"
    by (rule word_le_val_inject) (use k1 len in \<open>simp_all add: tail_k1_le_val\<close>)
  moreover have "drop 8 xs = drop 8 ys"
    by (rule word_le_val_inject) (use k2 len r in \<open>simp_all add: tail_k2_le_val\<close>)
  ultimately have "take 8 xs = take 8 ys" "drop 8 xs = drop 8 ys"
    using len by (auto simp: min_def split: if_splits)
  then show ?thesis by (metis append_take_drop_id)
qed

lemma murmur_short:
  "length xs < 16 \<Longrightarrow> MurmurHash3_x64_128 xs (int (length xs)) seed =
    murmur_final (int (length xs)) (murmur_tail (length xs) xs (ucast seed, ucast seed))"
  by (simp add: MurmurHash3_x64_128_def Let_def nat_len_and_15)

lemma murmur_short_inject:
  assumes "length xs = length ys" "length xs < 16"
    and "MurmurHash3_x64_128 xs (int (length xs)) seed = MurmurHash3_x64_128 ys (int (length ys)) seed"
  shows "xs = ys"
proof (rule murmur_tail_inject [OF refl assms(1) [symmetric] assms(2)])
  have "length ys < 16" using assms(1,2) by simp
  note ys = murmur_short [OF this, folded assms(1)]
  from assms(3) [folded assms(1)] show "murmur_tail (length xs) xs (ucast seed, ucast seed)
      = murmur_tail (length xs) ys (ucast seed, ucast seed)"
    unfolding murmur_short [OF assms(2)] ys
    by (simp only: murmur_final_inject)
qed

section \<open>Reference form: every block, the padded last one included, is mixed alike\<close>

definition murmur_ref :: "byte list \<Rightarrow> 32 word \<Rightarrow> u64 \<times> u64" where
  "murmur_ref key seed =
    (let nb = length key div 16;
         padded = key @ replicate (16 - length key mod 16) 0;
         h = foldl (murmur_round padded) (ucast seed, ucast seed) [0..<nb];
         h1 = fst h XOR mix_k1 (getblock padded (2 * nb));
         h2 = snd h XOR mix_k2 (getblock padded (2 * nb + 1))
     in murmur_final (int (length key)) (h1, h2))"

lemma le_val_zeros [simp]: "le_val (replicate n 0) = 0"
  by (induction n) simp_all

lemma le_val_pad: "le_val (xs @ replicate n 0) = le_val xs"
  by (simp add: le_val_append)

lemma getblock_padded:
  assumes "length tb = r" "r < 16"
  shows "getblock (tb @ replicate (16 - r) 0) 0 = tail_k1 r tb"
    and "getblock (tb @ replicate (16 - r) 0) 1 = tail_k2 r tb"
  using assms
  by (simp_all add: getblock_def load_u_def tail_k1_le_val tail_k2_le_val le_val_pad min_def
      take_append drop_append)

lemma getblock_drop: "getblock (drop (16 * n) p) i = getblock p (2 * n + i)"
  by (simp add: getblock_def load_u_def add.commute algebra_simps)

lemma murmur_tail_ref:
  assumes "length tb = r" "r < 16"
  shows "murmur_tail r tb h = (fst h XOR mix_k1 (tail_k1 r tb), snd h XOR mix_k2 (tail_k2 r tb))"
proof -
  have "tail_k1 r tb = 0" if "\<not> 1 \<le> r" 
  proof -
    from that have "r = 0" by simp
    with assms show ?thesis by (simp add: tail_k1_le_val)
  qed
  moreover have "tail_k2 r tb = 0" if "\<not> 9 \<le> r" using that assms by (simp add: tail_k2_le_val)
  ultimately show ?thesis by (simp add: murmur_tail_def)
qed

lemma murmur_eq_ref: "MurmurHash3_x64_128 key (int (length key)) seed = murmur_ref key seed"
proof -
  let ?n = "length key" and ?nb = "length key div 16"
  let ?pad = "replicate (16 - ?n mod 16) (0 :: byte)"
  let ?tb = "drop (16 * ?nb) key"
  have nb: "nat (int ?n div 16) = ?nb" by (simp add: nat_div_distrib)
  have body: "foldl (murmur_round key) h [0..<?nb] = foldl (murmur_round (key @ ?pad)) h [0..<?nb]" for h
    by (rule foldl_cong_set, rule murmur_round_cong [where m = ?n]) auto
  have tb: "length ?tb = ?n mod 16" by (simp add: modulo_nat_def mult.commute)
  have "16 * ?nb \<le> ?n" by simp
  then have "drop (16 * ?nb) (key @ ?pad) = ?tb @ ?pad" by simp
  then have blk: "getblock (key @ ?pad) (2 * ?nb + i) = getblock (?tb @ ?pad) i" for i
    by (metis getblock_drop)
  have k: "getblock (key @ ?pad) (2 * ?nb) = tail_k1 (?n mod 16) ?tb"
    "getblock (key @ ?pad) (2 * ?nb + 1) = tail_k2 (?n mod 16) ?tb"
    using blk [of 0] blk [of 1] getblock_padded [OF tb] by simp_all
  show ?thesis
    by (simp only: MurmurHash3_x64_128_def murmur_ref_def Let_def nb body k nat_len_and_15
        of_nat_0_le_iff nat_int mult.commute [of _ 16])
      (simp only: murmur_tail_ref [OF tb] mod_less_divisor zero_less_numeral)
qed

end
