(* ===== verification/Hashmap.thy ===== *)
theory Hashmap
  imports Murmur3
begin

text \<open>
  \<^verbatim>\<open>lib/hashmap.c\<close>, at the level of its pointers.  A table is an array of entries; an entry
  that collides is linked behind the slot through \<open>calloc\<close>ed entries.  The arena of a map is
  that array together with the heap entries, so that following a freed entry is an error
  value (\<^const>\<open>Dangling\<close>) and not an arbitrary read.

  Conventions: a C string is its characters before the terminator, so \<open>strcmp\<close> is equality
  and \<open>strdup\<close> yields the same value (the flag \<open>should_dup\<close> of the insertion only decides who
  owns the copy and has no counterpart); a \<open>void *\<close> value is an option, \<open>None\<close> the null pointer;
  allocation succeeds.  Walks along a chain carry fuel: one unit for each entry that can exist,
  so running out (\<^const>\<open>NoReturn\<close>) is a chain that closes on itself.
\<close>

section \<open>Entries and memory\<close>

type_synonym addr = nat

datatype eref = Slot nat | Node addr

record 'v hashmap_entry =
  e_key :: "string option"
  e_value :: "'v option"
  e_next :: "addr option"

definition zero_entry :: "'v hashmap_entry" where
  "zero_entry = \<lparr>e_key = None, e_value = None, e_next = None\<rparr>"

record 'v arena =
  slots :: "'v hashmap_entry list"
  nodes :: "addr \<rightharpoonup> 'v hashmap_entry"
  fresh :: addr

record 'v hashmap =
  count :: int
  table_size :: int
  max_size :: int
  mem :: "'v arena"

fun read_entry :: "'v arena \<Rightarrow> eref \<Rightarrow> 'v hashmap_entry res" where
  "read_entry A (Slot i) = (if i < length (slots A) then Inr (slots A ! i) else Inl OutOfBounds)"
| "read_entry A (Node a) = (case nodes A a of None \<Rightarrow> Inl Dangling | Some e \<Rightarrow> Inr e)"

fun upd_entry :: "'v arena \<Rightarrow> eref \<Rightarrow> 'v hashmap_entry \<Rightarrow> 'v arena" where
  "upd_entry A (Slot i) e = A\<lparr>slots := (slots A)[i := e]\<rparr>"
| "upd_entry A (Node a) e = A\<lparr>nodes := (nodes A)(a \<mapsto> e)\<rparr>"

definition write_entry :: "'v arena \<Rightarrow> eref \<Rightarrow> 'v hashmap_entry \<Rightarrow> 'v arena res" where
  "write_entry A p e = bind_res (read_entry A p) (\<lambda>_. Inr (upd_entry A p e))"

text \<open>\<open>calloc(1, sizeof(hashmap_entry))\<close>, at the next unused address.\<close>

definition calloc_entry :: "'v arena \<Rightarrow> addr \<times> 'v arena" where
  "calloc_entry A =
    (fresh A, A\<lparr>nodes := (nodes A)(fresh A \<mapsto> zero_entry), fresh := Suc (fresh A)\<rparr>)"

text \<open>\<open>free\<close>: of a heap entry that is allocated; a slot is inside the table's own block.\<close>

fun free_entry :: "'v arena \<Rightarrow> eref \<Rightarrow> 'v arena res" where
  "free_entry A (Slot i) = Inl Dangling"
| "free_entry A (Node a) =
    (case nodes A a of None \<Rightarrow> Inl Dangling | Some _ \<Rightarrow> Inr (A\<lparr>nodes := (nodes A)(a := None)\<rparr>))"

definition next_ref :: "'v hashmap_entry \<Rightarrow> eref option" where
  "next_ref e = map_option Node (e_next e)"

definition scan_fuel :: "'v arena \<Rightarrow> nat" where
  "scan_fuel A = fresh A + 2"

section \<open>Construction\<close>

definition key_bytes :: "string \<Rightarrow> byte list" where
  "key_bytes k = map of_char k"

text \<open>
  The rounding loop of \<open>hashmap_init\<close>: the highest set bit among the 32 bits of the size.
\<close>

definition most_sig_bit :: "int \<Rightarrow> nat" where
  "most_sig_bit n = foldl (\<lambda>msb idx. if drop_bit idx n AND 1 \<noteq> 0 then idx else msb) 0 [0..<32]"

definition DEFAULT_CAPACITY :: int where [simp]: "DEFAULT_CAPACITY = 128"

definition round_up_size :: "int \<Rightarrow> int res" where
  "round_up_size n =
    (if n \<le> 0 then Inr DEFAULT_CAPACITY
     else let msb = most_sig_bit n;
              msb = (if 2 ^ msb \<noteq> n then msb + 1 else msb)
          in c_int (2 ^ msb))"

text \<open>\<open>MAX_CAPACITY * initial_size\<close>, truncated: three quarters.\<close>

definition hashmap_init :: "int \<Rightarrow> 'v hashmap res" where
  "hashmap_init initial_size =
    bind_res (round_up_size initial_size) (\<lambda>size.
      Inr \<lparr>count = 0, table_size = size, max_size = 3 * size div 4,
           mem = \<lparr>slots = replicate (nat size) zero_entry, nodes = Map.empty, fresh = 0\<rparr>\<rparr>)"

definition hashmap_size :: "'v hashmap \<Rightarrow> int" where
  "hashmap_size m = count m"

section \<open>Lookup\<close>

text \<open>
  \<open>out[1] % table_size\<close>, computed on \<open>uint64_t\<close> and stored in an \<open>unsigned int\<close>.
\<close>

definition bucket_index :: "int \<Rightarrow> string \<Rightarrow> nat res" where
  "bucket_index ts k =
    (if ts = 0 then Inl DivByZero
     else let out = MurmurHash3_x64_128 (key_bytes k) (int (length k)) 0
          in Inr (unat (ucast (snd out mod word_of_int ts) :: 32 word)))"

fun get_scan :: "nat \<Rightarrow> 'v arena \<Rightarrow> string \<Rightarrow> eref option \<Rightarrow> 'v option option res" where
  "get_scan 0 A k entry = Inl NoReturn"
| "get_scan (Suc n) A k None = Inr None"
| "get_scan (Suc n) A k (Some p) =
    bind_res (read_entry A p) (\<lambda>e.
      case e_key e of
        None \<Rightarrow> Inr None
      | Some k' \<Rightarrow> if k' = k then Inr (Some (e_value e)) else get_scan n A k (next_ref e))"

text \<open>The result is \<open>None\<close> for the return value -1, \<open>Some v\<close> for 0 with \<open>*value = v\<close>.\<close>

definition hashmap_get :: "'v hashmap \<Rightarrow> string \<Rightarrow> 'v option option res" where
  "hashmap_get m k =
    bind_res (bucket_index (table_size m) k) (\<lambda>i.
      get_scan (scan_fuel (mem m)) (mem m) k (Some (Slot i)))"

section \<open>Insertion\<close>

fun insert_link :: "'v arena \<Rightarrow> string \<Rightarrow> 'v option \<Rightarrow> eref option \<Rightarrow> eref option \<Rightarrow> (int \<times> 'v arena) res" where
  "insert_link A k v None None = Inl NullDeref"
| "insert_link A k v None (Some p) =
    bind_res (read_entry A p) (\<lambda>e.
    bind_res (write_entry A p (e\<lparr>e_key := Some k, e_value := v\<rparr>)) (\<lambda>A1. Inr (1, A1)))"
| "insert_link A k v (Some l) entry =
    (case calloc_entry A of (a, A1) \<Rightarrow>
      bind_res (read_entry A1 (Node a)) (\<lambda>e.
      bind_res (write_entry A1 (Node a) (e\<lparr>e_key := Some k, e_value := v\<rparr>)) (\<lambda>A2.
      bind_res (read_entry A2 l) (\<lambda>le.
      bind_res (write_entry A2 l (le\<lparr>e_next := Some a\<rparr>)) (\<lambda>A3. Inr (1, A3))))))"

fun insert_scan ::
  "nat \<Rightarrow> 'v arena \<Rightarrow> string \<Rightarrow> 'v option \<Rightarrow> bool \<Rightarrow> eref option \<Rightarrow> eref option \<Rightarrow> (int \<times> 'v arena) res"
where
  "insert_scan 0 A k v should_cmp last_entry entry = Inl NoReturn"
| "insert_scan (Suc n) A k v should_cmp last_entry None = insert_link A k v last_entry None"
| "insert_scan (Suc n) A k v should_cmp last_entry (Some p) =
    bind_res (read_entry A p) (\<lambda>e.
      case e_key e of
        None \<Rightarrow> insert_link A k v last_entry (Some p)
      | Some k' \<Rightarrow>
          if should_cmp \<and> k' = k
          then bind_res (write_entry A p (e\<lparr>e_value := v\<rparr>)) (\<lambda>A1. Inr (0, A1))
          else insert_scan n A k v should_cmp (Some p) (next_ref e))"

definition hashmap_insert_table ::
  "'v arena \<Rightarrow> int \<Rightarrow> string \<Rightarrow> 'v option \<Rightarrow> bool \<Rightarrow> (int \<times> 'v arena) res"
where
  "hashmap_insert_table A ts k v should_cmp =
    bind_res (bucket_index ts k) (\<lambda>i.
      insert_scan (scan_fuel A) A k v should_cmp None (Some (Slot i)))"

section \<open>Doubling\<close>

text \<open>
  The walk over one chain of the old table.  The arena holds the new table; the old slots are
  an argument, and heap entries are shared until they are freed.
\<close>

fun move_chain ::
  "nat \<Rightarrow> 'v hashmap_entry list \<Rightarrow> int \<Rightarrow> 'v arena \<Rightarrow> bool \<Rightarrow> eref option \<Rightarrow> 'v arena res"
where
  "move_chain 0 old new_size A in_table entry = Inl NoReturn"
| "move_chain (Suc n) old new_size A in_table None = Inr A"
| "move_chain (Suc n) old new_size A in_table (Some p) =
    bind_res (read_entry (A\<lparr>slots := old\<rparr>) p) (\<lambda>e.
      case e_key e of
        None \<Rightarrow> Inr A
      | Some k \<Rightarrow>
          bind_res (hashmap_insert_table A new_size k (e_value e) False) (\<lambda>(_, A1).
          bind_res (if in_table then Inr A1 else free_entry A1 p) (\<lambda>A2.
            move_chain n old new_size A2 False (next_ref e))))"

fun fold_res :: "('x \<Rightarrow> 's \<Rightarrow> 's res) \<Rightarrow> 'x list \<Rightarrow> 's \<Rightarrow> 's res" where
  "fold_res f [] s = Inr s"
| "fold_res f (x # xs) s = bind_res (f x s) (fold_res f xs)"

definition hashmap_double_size :: "'v hashmap \<Rightarrow> 'v hashmap res" where
  "hashmap_double_size m =
    bind_res (c_int (table_size m * 2)) (\<lambda>new_size.
    bind_res (c_int (max_size m * 2)) (\<lambda>new_max_size.
    bind_res
      (fold_res
        (\<lambda>i A. move_chain (scan_fuel (mem m)) (slots (mem m)) new_size A True (Some (Slot i)))
        [0..<nat (table_size m)]
        ((mem m)\<lparr>slots := replicate (nat new_size) zero_entry\<rparr>))
      (\<lambda>A. Inr (m\<lparr>mem := A, table_size := new_size, max_size := new_max_size\<rparr>))))"

text \<open>
  \<open>hashmap_put\<close> calls itself after each doubling.  From a positive table size the 32nd doubling
  leaves the range of \<open>int\<close>, so 33 calls are enough.
\<close>

fun put_rec :: "nat \<Rightarrow> 'v hashmap \<Rightarrow> string \<Rightarrow> 'v option \<Rightarrow> (int \<times> 'v hashmap) res" where
  "put_rec 0 m k v = Inl NoReturn"
| "put_rec (Suc n) m k v =
    bind_res (c_int (count m + 1)) (\<lambda>c.
      if max_size m < c
      then bind_res (hashmap_double_size m) (\<lambda>m1. put_rec n m1 k v)
      else bind_res (hashmap_insert_table (mem m) (table_size m) k v True) (\<lambda>(new, A).
             Inr (new, m\<lparr>mem := A, count := (if new \<noteq> 0 then count m + 1 else count m)\<rparr>)))"

definition hashmap_put :: "'v hashmap \<Rightarrow> string \<Rightarrow> 'v option \<Rightarrow> (int \<times> 'v hashmap) res" where
  "hashmap_put m k v = put_rec 33 m k v"

section \<open>Deletion\<close>

text \<open>
  \<open>last_entry\<close> is passed along unchanged, as the loop of the source leaves it.
\<close>

fun delete_unlink :: "'v arena \<Rightarrow> eref option \<Rightarrow> eref \<Rightarrow> 'v hashmap_entry \<Rightarrow> 'v arena res" where
  "delete_unlink A None p e =
    (case e_next e of
       Some n \<Rightarrow>
         bind_res (read_entry A (Node n)) (\<lambda>ne.
         bind_res (write_entry A p ne) (\<lambda>A1. free_entry A1 (Node n)))
     | None \<Rightarrow> write_entry A p (e\<lparr>e_key := None, e_value := None\<rparr>))"
| "delete_unlink A (Some l) p e =
    bind_res (read_entry A l) (\<lambda>le.
    bind_res (write_entry A l (le\<lparr>e_next := e_next e\<rparr>)) (\<lambda>A1. free_entry A1 p))"

fun delete_scan ::
  "nat \<Rightarrow> 'v arena \<Rightarrow> string \<Rightarrow> eref option \<Rightarrow> eref option \<Rightarrow> ('v option \<times> 'v arena) option res"
where
  "delete_scan 0 A k last_entry entry = Inl NoReturn"
| "delete_scan (Suc n) A k last_entry None = Inr None"
| "delete_scan (Suc n) A k last_entry (Some p) =
    bind_res (read_entry A p) (\<lambda>e.
      case e_key e of
        None \<Rightarrow> Inr None
      | Some k' \<Rightarrow>
          if k' = k
          then bind_res (delete_unlink A last_entry p e) (\<lambda>A1. Inr (Some (e_value e, A1)))
          else delete_scan n A k last_entry (next_ref e))"

text \<open>
  \<open>None\<close> for the return value -1; \<open>Some v\<close> for 0, where \<open>v\<close> is the value pointer that was freed.
\<close>

definition hashmap_delete :: "'v hashmap \<Rightarrow> string \<Rightarrow> ('v option option \<times> 'v hashmap) res" where
  "hashmap_delete m k =
    bind_res (bucket_index (table_size m) k) (\<lambda>i.
    bind_res (delete_scan (scan_fuel (mem m)) (mem m) k None (Some (Slot i))) (\<lambda>r.
      case r of
        None \<Rightarrow> Inr (None, m)
      | Some (v, A) \<Rightarrow> Inr (Some v, m\<lparr>mem := A, count := count m - 1\<rparr>)))"

section \<open>Clearing and destruction\<close>

fun clear_chain :: "nat \<Rightarrow> 'v arena \<Rightarrow> bool \<Rightarrow> eref option \<Rightarrow> 'v arena res" where
  "clear_chain 0 A in_table entry = Inl NoReturn"
| "clear_chain (Suc n) A in_table None = Inr A"
| "clear_chain (Suc n) A in_table (Some p) =
    bind_res (read_entry A p) (\<lambda>e.
      case e_key e of
        None \<Rightarrow> Inr A
      | Some k \<Rightarrow>
          bind_res (if in_table then write_entry A p (e\<lparr>e_key := None\<rparr>) else free_entry A p) (\<lambda>A1.
            clear_chain n A1 False (next_ref e)))"

definition hashmap_clear :: "'v hashmap \<Rightarrow> 'v hashmap res" where
  "hashmap_clear m =
    bind_res
      (fold_res (\<lambda>i A. clear_chain (scan_fuel (mem m)) A True (Some (Slot i)))
        [0..<nat (table_size m)] (mem m))
      (\<lambda>A. Inr (m\<lparr>mem := A, count := 0\<rparr>))"

fun destroy_chain ::
  "nat \<Rightarrow> bool \<Rightarrow> eref option \<Rightarrow> 'v option list \<times> 'v arena \<Rightarrow> ('v option list \<times> 'v arena) res"
where
  "destroy_chain 0 in_table entry s = Inl NoReturn"
| "destroy_chain (Suc n) in_table None s = Inr s"
| "destroy_chain (Suc n) in_table (Some p) s =
    bind_res (read_entry (snd s) p) (\<lambda>e.
      case e_key e of
        None \<Rightarrow> Inr s
      | Some k \<Rightarrow>
          bind_res (if in_table then Inr (snd s) else free_entry (snd s) p) (\<lambda>A1.
            destroy_chain n False (next_ref e) (fst s @ [e_value e], A1)))"

text \<open>
  The values freed, in order, and what is left of the heap entries once table and map are
  freed: anything left is leaked.
\<close>

definition hashmap_destroy :: "'v hashmap \<Rightarrow> ('v option list \<times> (addr \<rightharpoonup> 'v hashmap_entry)) res" where
  "hashmap_destroy m =
    bind_res
      (fold_res (\<lambda>i. destroy_chain (scan_fuel (mem m)) True (Some (Slot i)))
        [0..<nat (table_size m)] ([], mem m))
      (\<lambda>(vs, A). Inr (vs, nodes A))"

section \<open>Iteration\<close>

text \<open>
  The callback may change the state the map is part of (the server's callbacks delete the entry
  they are called on), so the iteration runs over a state \<open>'s\<close> from which \<open>getm\<close> reads the map,
  and \<open>entry->next\<close> is read after the callback has run.  The fuel of a chain is that of the state
  in which the walk over it starts, which is enough for callbacks that allocate no entry.
\<close>

fun iter_chain ::
  "nat \<Rightarrow> ('s \<Rightarrow> 'v hashmap) \<Rightarrow> ('s \<Rightarrow> string \<Rightarrow> 'v option \<Rightarrow> (int \<times> 's) res) \<Rightarrow>
   's \<Rightarrow> eref option \<Rightarrow> (int \<times> 's) res"
where
  "iter_chain 0 getm cb s entry = Inl NoReturn"
| "iter_chain (Suc n) getm cb s None = Inr (0, s)"
| "iter_chain (Suc n) getm cb s (Some p) =
    bind_res (read_entry (mem (getm s)) p) (\<lambda>e.
      case e_key e of
        None \<Rightarrow> Inr (0, s)
      | Some k \<Rightarrow>
          bind_res (cb s k (e_value e)) (\<lambda>(should_break, s1).
          bind_res (read_entry (mem (getm s1)) p) (\<lambda>e1.
            if should_break \<noteq> 0 then Inr (should_break, s1)
            else iter_chain n getm cb s1 (next_ref e1))))"

function iter_slots ::
  "('s \<Rightarrow> 'v hashmap) \<Rightarrow> ('s \<Rightarrow> string \<Rightarrow> 'v option \<Rightarrow> (int \<times> 's) res) \<Rightarrow> int \<Rightarrow> 's \<Rightarrow> (int \<times> 's) res"
where
  "iter_slots getm cb i s =
    (if i < table_size (getm s)
     then bind_res (iter_chain (scan_fuel (mem (getm s))) getm cb s (Some (Slot (nat i)))) (\<lambda>(b, s1).
            if INT_MAX \<le> i then Inl IntOverflow
            else if b \<noteq> 0 then Inr (b, s1)
            else iter_slots getm cb (i + 1) s1)
     else Inr (0, s))"
  by pat_completeness auto
termination
  by (relation "measure (\<lambda>(getm, cb, i, s). nat (INT_MAX - i))") auto

declare iter_slots.simps [simp del]

definition hashmap_iter ::
  "('s \<Rightarrow> 'v hashmap) \<Rightarrow> ('s \<Rightarrow> string \<Rightarrow> 'v option \<Rightarrow> (int \<times> 's) res) \<Rightarrow> 's \<Rightarrow> (int \<times> 's) res"
where
  "hashmap_iter getm cb s = iter_slots getm cb 0 s"

end
