(* ===== verification/Hashmap_Rep.thy ===== *)
theory Hashmap_Rep
  imports Hashmap "HOL-Library.AList"
begin

text \<open>
  What the pointers of \<open>Hashmap\<close> represent.  \<open>chain A p as kvs\<close>: from the entry \<open>p\<close> the links
  run through the heap entries \<open>as\<close> and hold the bindings \<open>kvs\<close>; the last heap entry may be
  empty, which is what deleting the end of a chain leaves behind.  Each operation is shown to
  turn a represented arena into a represented one, changing one bucket the way an association
  list operation does.
\<close>

section \<open>Reading back what was written\<close>

lemma read_upd:
  "read_entry A p = Inr e0 \<Longrightarrow>
    read_entry (upd_entry A p e) q = (if q = p then Inr e else read_entry A q)"
  by (cases p; cases q) (auto split: if_splits)

lemma write_ok: "read_entry A p = Inr e0 \<Longrightarrow> write_entry A p e = Inr (upd_entry A p e)"
  by (simp add: write_entry_def)

lemma upd_slots_length [simp]: "length (slots (upd_entry A p e)) = length (slots A)"
  by (cases p) simp_all

lemma upd_fresh [simp]: "fresh (upd_entry A p e) = fresh A"
  by (cases p) simp_all

lemma free_ok:
  assumes "read_entry A (Node a) = Inr e"
  shows "free_entry A (Node a) = Inr (A\<lparr>nodes := (nodes A)(a := None)\<rparr>)"
  using assms by (auto split: option.splits)

lemma read_freed:
  "read_entry (A\<lparr>nodes := (nodes A)(a := None)\<rparr>) q
    = (if q = Node a then Inl Dangling else read_entry A q)"
  by (cases q) auto

lemma read_calloc:
  "read_entry (A\<lparr>nodes := (nodes A)(fresh A \<mapsto> e), fresh := n\<rparr>) q
    = (if q = Node (fresh A) then Inr e else read_entry A q)"
  by (cases q) auto

declare read_entry.simps [simp del]

section \<open>Chains\<close>

fun chain :: "'v arena \<Rightarrow> eref \<Rightarrow> addr list \<Rightarrow> (string \<times> 'v option) list \<Rightarrow> bool" where
  "chain A p [] kvs \<longleftrightarrow>
    (\<exists>e. read_entry A p = Inr e \<and> e_next e = None \<and>
      kvs = (case e_key e of None \<Rightarrow> [] | Some k \<Rightarrow> [(k, e_value e)]))"
| "chain A p (a # as) kvs \<longleftrightarrow>
    (\<exists>e k kvs'. read_entry A p = Inr e \<and> e_next e = Some a \<and> e_key e = Some k \<and>
      kvs = (k, e_value e) # kvs' \<and> chain A (Node a) as kvs')"

definition refs :: "eref \<Rightarrow> addr list \<Rightarrow> eref set" where
  "refs p as = insert p (Node ` set as)"

lemma refs_simps [simp]:
  "refs p [] = {p}"
  "refs p (a # as) = insert p (refs (Node a) as)"
  by (auto simp: refs_def)

lemma mem_refs: "q \<in> refs p as \<longleftrightarrow> q = p \<or> (\<exists>a \<in> set as. q = Node a)"
  by (auto simp: refs_def)

lemma chain_frame:
  "(\<And>q. q \<in> refs p as \<Longrightarrow> read_entry A' q = read_entry A q) \<Longrightarrow> chain A' p as kvs = chain A p as kvs"
  by (induction as arbitrary: p kvs) auto

lemma chain_empty_iff: "chain A p as [] \<longleftrightarrow> as = [] \<and> (\<exists>e. read_entry A p = Inr e \<and> e_next e = None \<and> e_key e = None)"
  by (cases as) (auto split: option.splits)

lemma chain_length: "chain A p as kvs \<Longrightarrow> length as \<le> length kvs"
  by (induction as arbitrary: p kvs) auto

text \<open>
  The frame of an operation on the chain at \<open>p\<close>: everything outside the chain that was
  allocated before is untouched, and the new links use the old entries or new ones.
\<close>

definition frame :: "eref \<Rightarrow> addr list \<Rightarrow> 'v arena \<Rightarrow> addr list \<Rightarrow> 'v arena \<Rightarrow> bool" where
  "frame p as A as' A' \<longleftrightarrow>
    length (slots A') = length (slots A) \<and> fresh A \<le> fresh A' \<and>
    distinct as' \<and> set as' \<subseteq> set as \<union> {fresh A..<fresh A'} \<and>
    (\<forall>q. q \<notin> refs p as \<longrightarrow> (\<forall>a. q = Node a \<longrightarrow> a < fresh A) \<longrightarrow>
      read_entry A' q = read_entry A q)"

definition below :: "eref \<Rightarrow> nat \<Rightarrow> bool" where
  "below p n \<longleftrightarrow> (\<forall>a. p = Node a \<longrightarrow> a < n)"

definition chain_ok :: "'v arena \<Rightarrow> eref \<Rightarrow> addr list \<Rightarrow> bool" where
  "chain_ok A p as \<longleftrightarrow> distinct as \<and> p \<notin> Node ` set as \<and> (\<forall>q \<in> refs p as. below q (fresh A))"

lemma chain_ok_Cons [simp]:
  "chain_ok A p (a # as) \<longleftrightarrow>
    p \<notin> refs (Node a) as \<and> below p (fresh A) \<and> chain_ok A (Node a) as"
  by (auto simp: chain_ok_def refs_def)

lemma chain_ok_Nil [simp]: "chain_ok A p [] \<longleftrightarrow> below p (fresh A)"
  by (simp add: chain_ok_def)

lemma chain_ok_length: "chain_ok A p as \<Longrightarrow> length as \<le> fresh A"
proof -
  assume "chain_ok A p as"
  then have "set as \<subseteq> {..<fresh A}" and "distinct as"
    by (auto simp: chain_ok_def refs_def below_def)
  then show ?thesis
    by (metis card_lessThan card_mono distinct_card finite_lessThan)
qed

lemma chain_ok_fuel: "chain_ok A p as \<Longrightarrow> length as + 2 \<le> scan_fuel A"
  using chain_ok_length [of A p as] by (simp add: scan_fuel_def)

section \<open>Lookup\<close>

lemma get_scan_chain:
  "chain A p as kvs \<Longrightarrow> length as + 2 \<le> n \<Longrightarrow> get_scan n A k (Some p) = Inr (map_of kvs k)"
proof (induction as arbitrary: p kvs n)
  case Nil
  then obtain n' where n: "n = Suc (Suc n')" by (metis add_2_eq_Suc le_Suc_ex list.size(3) add_0)
  from Nil.prems show ?case
    by (auto simp: n next_ref_def split: option.splits)
next
  case (Cons a as)
  then obtain n' where n: "n = Suc n'" by (cases n) auto
  from Cons show ?case by (auto simp: n next_ref_def)
qed

section \<open>Insertion\<close>

lemma insert_link_last:
  assumes r: "read_entry A l = Inr le" and l: "below l (fresh A)"
  shows "\<exists>A3. insert_link A k v (Some l) entry = Inr (1, A3) \<and>
    (\<forall>q. read_entry A3 q =
      (if q = l then Inr (le\<lparr>e_next := Some (fresh A)\<rparr>)
       else if q = Node (fresh A) then Inr \<lparr>e_key = Some k, e_value = v, e_next = None\<rparr>
       else read_entry A q)) \<and>
    fresh A3 = Suc (fresh A) \<and> length (slots A3) = length (slots A)"
proof -
  let ?A1 = "A\<lparr>nodes := (nodes A)(fresh A \<mapsto> zero_entry), fresh := Suc (fresh A)\<rparr>"
  let ?ne = "zero_entry\<lparr>e_key := Some k, e_value := v\<rparr>"
  let ?A2 = "upd_entry ?A1 (Node (fresh A)) ?ne"
  let ?A3 = "upd_entry ?A2 l (le\<lparr>e_next := Some (fresh A)\<rparr>)"
  have lf: "l \<noteq> Node (fresh A)" using l by (auto simp: below_def)
  have r1: "read_entry ?A1 (Node (fresh A)) = Inr zero_entry" by (simp add: read_calloc)
  have r2: "read_entry ?A2 l = Inr le"
    using r lf by (simp only: read_upd [OF r1] read_calloc) simp
  have "read_entry ?A3 q = (if q = l then Inr (le\<lparr>e_next := Some (fresh A)\<rparr>)
      else if q = Node (fresh A) then Inr ?ne else read_entry A q)" for q
    by (simp only: read_upd [OF r2] read_upd [OF r1] read_calloc) simp
  moreover have "insert_link A k v (Some l) entry = Inr (1, ?A3)"
    by (simp only: bind_res_simps insert_link.simps calloc_entry_def prod.case r1 write_ok [OF r1]
        r2 write_ok [OF r2])
  moreover have "fresh ?A3 = Suc (fresh A)" "length (slots ?A3) = length (slots A)" by simp_all
  moreover have "?ne = \<lparr>e_key = Some k, e_value = v, e_next = None\<rparr>" by (simp add: zero_entry_def)
  ultimately show ?thesis by metis
qed

text \<open>Linking behind the end \<open>l\<close> of a chain, or behind the entry before a dead end.\<close>

lemma insert_link_chain:
  assumes r: "read_entry A p = Inr e" "e_key e = Some k0" and ok: "chain_ok A p as"
  shows "\<exists>A' as'. insert_link A k v (Some p) entry = Inr (1, A') \<and>
    chain A' p as' [(k0, e_value e), (k, v)] \<and> frame p as A as' A'"
proof -
  have b: "below p (fresh A)" using ok by (auto simp: chain_ok_def refs_def)
  then have pf: "p \<noteq> Node (fresh A)" by (auto simp: below_def)
  obtain A3 where A3: "insert_link A k v (Some p) entry = Inr (1, A3)"
    "\<And>q. read_entry A3 q =
      (if q = p then Inr (e\<lparr>e_next := Some (fresh A)\<rparr>)
       else if q = Node (fresh A) then Inr \<lparr>e_key = Some k, e_value = v, e_next = None\<rparr>
       else read_entry A q)"
    "fresh A3 = Suc (fresh A)" "length (slots A3) = length (slots A)"
    using insert_link_last [OF r(1) b] by metis
  have "chain A3 p [fresh A] [(k0, e_value e), (k, v)]"
    using r(2) pf by (simp add: A3)
  moreover have "frame p as A [fresh A] A3"
    unfolding frame_def using A3 by (auto simp: refs_def)
  ultimately show ?thesis using A3(1) by blast
qed

text \<open>The three ends of a step of the scan: the key is here, the chain ends here, or its rest has been scanned.\<close>

lemma insert_scan_hit:
  assumes "chain A p as ((k, v0) # kvs)" "chain_ok A p as" "0 < n"
  shows "\<exists>A'. insert_scan n A k v True lst (Some p) = Inr (0, A') \<and> chain A' p as ((k, v) # kvs) \<and> frame p as A as A'"
proof -
  obtain n' where n: "n = Suc n'" using assms(3) by (cases n) auto
  show ?thesis
  proof (cases as)
    case Nil
    with assms(1) obtain e where e: "read_entry A p = Inr e" "e_next e = None" "e_key e = Some k" "kvs = []"
      by (auto split: option.splits)
    with n Nil show ?thesis
      by (intro exI [of _ "upd_entry A p (e\<lparr>e_value := v\<rparr>)"]) (simp add: write_ok read_upd [OF e(1)] frame_def)
  next
    case (Cons a as')
    with assms(1) obtain e where e: "read_entry A p = Inr e" "e_next e = Some a" "e_key e = Some k"
      and ch: "chain A (Node a) as' kvs" by auto
    let ?A1 = "upd_entry A p (e\<lparr>e_value := v\<rparr>)"
    have "chain ?A1 (Node a) as' kvs"
      using ch assms(2) Cons by (subst chain_frame [where A = A]) (auto simp: read_upd [OF e(1)])
    with e n Cons assms(2) show ?thesis
      by (intro exI [of _ ?A1]) (auto simp: write_ok read_upd [OF e(1)] frame_def chain_ok_def refs_def)
  qed
qed

lemma insert_scan_end:
  assumes "chain A p as [(k0, v0)]" "chain_ok A p as" "length as + 2 \<le> n" "\<not> (cmp \<and> k0 = k)"
  shows "\<exists>A' as'. insert_scan n A k v cmp lst (Some p) = Inr (1, A') \<and> chain A' p as' [(k0, v0), (k, v)] \<and>
    frame p as A as' A'"
proof -
  obtain n' where n: "n = Suc (Suc n')" using assms(3) by (metis Suc_le_D add_2_eq_Suc' Suc_le_mono)
  obtain e where e: "read_entry A p = Inr e" "e_key e = Some k0" "e_value e = v0"
    and nx: "e_next e = None \<or> (\<exists>a ea. e_next e = Some a \<and> read_entry A (Node a) = Inr ea \<and> e_key ea = None)"
    using assms(1) by (cases as) (auto simp: chain_empty_iff split: option.splits)
  have "insert_scan n A k v cmp lst (Some p) = insert_link A k v (Some p) (next_ref e)"
    using e nx n assms(4) by (auto simp: next_ref_def)
  with insert_link_chain [OF e(1,2) assms(2), of k v "next_ref e"] e(3) show ?thesis by simp
qed

lemma insert_scan_rest:
  assumes "read_entry A p = Inr e" "e_next e = Some a" "e_key e = Some k0" "chain_ok A p (a # as)"
    and "chain A' (Node a) as' kvs'" "frame (Node a) as A as' A'"
  shows "chain A' p (a # as') ((k0, e_value e) # kvs') \<and> frame p (a # as) A (a # as') A'"
proof -
  have "read_entry A' p = Inr e" using assms(1,4,6) by (auto simp: frame_def below_def)
  moreover have "a \<notin> set as'" using assms(4,6) by (auto simp: frame_def chain_ok_def refs_def below_def)
  then have "frame p (a # as) A (a # as') A'" using assms(6) by (auto simp: frame_def)
  ultimately show ?thesis using assms(2,3,5) by simp
qed

lemma insert_scan_chain:
  assumes "chain A p as kvs" and "kvs \<noteq> []" and "chain_ok A p as" and "length as + 2 \<le> n"
  shows "\<exists>A' as'. insert_scan n A k v cmp lst (Some p)
      = Inr (if cmp \<and> k \<in> fst ` set kvs then 0 else 1, A') \<and>
    chain A' p as' (if cmp then AList.update k v kvs else kvs @ [(k, v)]) \<and>
    frame p as A as' A'"
  using assms
proof (induction as arbitrary: p kvs n lst)
  case Nil
  then obtain k0 v0 where kvs: "kvs = [(k0, v0)]" by (auto split: option.splits)
  show ?case
  proof (cases "cmp \<and> k0 = k")
    case True
    then have hit: "chain A p [] ((k, v0) # [])" "cmp" using Nil.prems(1) kvs by simp_all
    with insert_scan_hit [OF hit(1) Nil.prems(3), of n v lst] Nil.prems(4) kvs True show ?thesis
      by (auto simp del: chain.simps)
  next
    case False
    with insert_scan_end [OF Nil.prems(1) [unfolded kvs] Nil.prems(3,4) False] kvs show ?thesis by auto
  qed
next
  case (Cons a as)
  from Cons.prems obtain n' where n: "n = Suc n'" "length as + 2 \<le> n'" by (cases n) auto
  from Cons.prems obtain e k0 kvs' where e: "read_entry A p = Inr e" "e_next e = Some a"
    "e_key e = Some k0" "kvs = (k0, e_value e) # kvs'" and ch: "chain A (Node a) as kvs'"
    by auto
  consider (hit) "cmp \<and> k0 = k" | (last) "\<not> (cmp \<and> k0 = k)" "kvs' = []" | (rest) "\<not> (cmp \<and> k0 = k)" "kvs' \<noteq> []" by blast
  then show ?case
  proof cases
    case hit
    then have here: "chain A p (a # as) ((k, e_value e) # kvs')" "cmp" using Cons.prems(1) e(4) by simp_all
    with insert_scan_hit [OF here(1) Cons.prems(3), of n v lst] n(1) e(4) hit show ?thesis
      by (auto simp del: chain.simps insert_scan.simps)
  next
    case last
    with insert_scan_end [of A p "a # as" k0 "e_value e" n cmp k v lst] Cons.prems e(4) show ?thesis by auto
  next
    case rest
    then have scan: "insert_scan n A k v cmp lst (Some p) = insert_scan n' A k v cmp (Some p) (Some (Node a))"
      using e n by (auto simp: next_ref_def)
    have "chain_ok A (Node a) as" using Cons.prems(3) by simp
    from Cons.IH [OF ch rest(2) this n(2)] obtain A' as' where IH: "insert_scan n' A k v cmp (Some p) (Some (Node a))
          = Inr (if cmp \<and> k \<in> fst ` set kvs' then 0 else 1, A')"
        "chain A' (Node a) as' (if cmp then AList.update k v kvs' else kvs' @ [(k, v)])"
        "frame (Node a) as A as' A'"
      by blast
    from insert_scan_rest [OF e(1-3) Cons.prems(3) IH(2,3)] scan IH(1) e(4) rest show ?thesis
      by (intro exI [of _ A'] exI [of _ "a # as'"]) auto
  qed
qed

text \<open>The whole scan from a slot, the empty slot included.\<close>

lemma insert_scan_slot:
  assumes "chain A p as kvs" and "chain_ok A p as" and "length as + 2 \<le> n"
  shows "\<exists>A' as'. insert_scan n A k v cmp None (Some p)
      = Inr (if cmp \<and> k \<in> fst ` set kvs then 0 else 1, A') \<and>
    chain A' p as' (if cmp then AList.update k v kvs else kvs @ [(k, v)]) \<and>
    frame p as A as' A'"
proof (cases "kvs = []")
  case True
  with assms(1) obtain e where e: "as = []" "read_entry A p = Inr e" "e_next e = None" "e_key e = None"
    by (auto simp: chain_empty_iff)
  from assms(3) obtain n' where "n = Suc n'" by (cases n) auto
  with e True show ?thesis
    by (auto simp: write_ok read_upd [OF e(2)] frame_def)
next
  case False
  then show ?thesis using insert_scan_chain [OF assms(1) _ assms(2,3)] by blast
qed

section \<open>Deletion\<close>

fun remove_first :: "'k \<Rightarrow> ('k \<times> 'v) list \<Rightarrow> ('k \<times> 'v) list" where
  "remove_first k [] = []"
| "remove_first k (kv # kvs) = (if fst kv = k then kvs else kv # remove_first k kvs)"

lemma delete_scan_absent:
  "chain A p as kvs \<Longrightarrow> length as + 2 \<le> n \<Longrightarrow> map_of kvs k = None \<Longrightarrow>
    delete_scan n A k lst (Some p) = Inr None"
proof (induction as arbitrary: p kvs n)
  case Nil
  then obtain n' where n: "n = Suc (Suc n')" by (metis add_2_eq_Suc le_Suc_ex list.size(3) add_0)
  from Nil.prems show ?case
    by (auto simp: n next_ref_def split: option.splits if_splits)
next
  case (Cons a as)
  then obtain n' where n: "n = Suc n'" by (cases n) auto
  from Cons show ?case by (auto simp: n next_ref_def split: if_splits)
qed

lemma delete_unlink_chain:
  assumes "read_entry A p = Inr e" "e_key e = Some k" and ch: "chain A p as ((k, v) # kvs)"
    and ok: "chain_ok A p as"
  shows "\<exists>A' as'. delete_unlink A None p e = Inr A' \<and> chain A' p as' kvs \<and> frame p as A as' A' \<and>
    length as' \<le> length as"
proof (cases as)
  case Nil
  with assms show ?thesis
    by (auto simp: write_ok read_upd [OF assms(1)] frame_def split: option.splits)
next
  case (Cons a as')
  from ch Cons assms(1) have next_a: "e_next e = Some a" and ch': "chain A (Node a) as' kvs" by auto
  from ch' obtain ne where ne: "read_entry A (Node a) = Inr ne" by (cases as') auto
  from ok Cons have pa: "p \<noteq> Node a" "p \<notin> refs (Node a) as'" and a: "a \<notin> set as'" "distinct as'"
    by (auto simp: chain_ok_def refs_def)
  let ?A1 = "upd_entry A p ne" and ?A2 = "(upd_entry A p ne)\<lparr>nodes := (nodes (upd_entry A p ne))(a := None)\<rparr>"
  have r: "read_entry ?A2 q = (if q = Node a then Inl Dangling else if q = p then Inr ne else read_entry A q)" for q
    by (simp only: read_freed read_upd [OF assms(1)])
  have ne1: "read_entry ?A1 (Node a) = Inr ne"
    using ne by (simp add: read_upd [OF assms(1)])
  have "delete_unlink A None p e = Inr ?A2"
    using next_a ne ne1 by (simp add: write_ok [OF assms(1)] free_ok del: free_entry.simps upd_entry.simps)
  moreover have "chain ?A2 p as' kvs"
  proof (cases as')
    case Nil
    with ch' ne r pa show ?thesis by auto
  next
    case (Cons b bs)
    have "chain ?A2 (Node b) bs x = chain A (Node b) bs x" for x
      by (rule chain_frame) (use r Cons pa a in \<open>auto simp: refs_def\<close>)
    with ch' ne r pa Cons show ?thesis by auto
  qed
  moreover have "frame p as A as' ?A2"
    using r Cons a by (auto simp: frame_def refs_def simp del: upd_entry.simps)
  moreover have "length as' \<le> length as" using Cons by simp
  ultimately show ?thesis by blast
qed

text \<open>
  Deleting keeps the entries before the one with the key; that entry itself takes over the binding
  of its successor.
\<close>

definition position :: "'k \<Rightarrow> ('k \<times> 'v) list \<Rightarrow> nat" where
  "position k kvs = length (takeWhile (\<lambda>kv. fst kv \<noteq> k) kvs)"

lemma delete_scan_chain:
  assumes "chain A p as kvs" and "chain_ok A p as" and "length as + 2 \<le> n" and "map_of kvs k = Some v"
  shows "\<exists>A' as'. delete_scan n A k None (Some p) = Inr (Some (v, A')) \<and>
    chain A' p as' (remove_first k kvs) \<and> frame p as A as' A' \<and> length as' \<le> length as \<and>
    take (position k kvs) as' = take (position k kvs) as"
  using assms
proof (induction as arbitrary: p kvs n)
  case Nil
  then obtain n' where n: "n = Suc n'" by (cases n) auto
  from Nil.prems obtain e where e: "read_entry A p = Inr e" "e_key e = Some k" "kvs = [(k, v)]" "e_value e = v"
    by (auto split: option.splits if_splits)
  with delete_unlink_chain [OF e(1,2) _ Nil.prems(2)] Nil.prems(1) n show ?case
    by (fastforce simp: position_def)
next
  case (Cons a as)
  from Cons.prems obtain n' where n: "n = Suc n'" "length as + 2 \<le> n'" by (cases n) auto
  from Cons.prems obtain e k0 kvs' where e: "read_entry A p = Inr e" "e_next e = Some a"
    "e_key e = Some k0" "kvs = (k0, e_value e) # kvs'" and ch: "chain A (Node a) as kvs'"
    by auto
  show ?case
  proof (cases "k0 = k")
    case True
    then have "position k kvs = 0" using e(4) by (simp add: position_def)
    with True e Cons.prems(1,4) delete_unlink_chain [OF e(1) _ _ Cons.prems(2), of k v kvs'] n
    show ?thesis by fastforce
  next
    case False
    have ok: "chain_ok A (Node a) as" and pn: "p \<notin> refs (Node a) as" and pb: "below p (fresh A)"
      using Cons.prems(2) by auto
    from Cons.IH [OF ch ok n(2)] False e Cons.prems(4) obtain A' as'
      where IH: "delete_scan n' A k None (Some (Node a)) = Inr (Some (v, A'))"
        "chain A' (Node a) as' (remove_first k kvs')" "frame (Node a) as A as' A'"
        "length as' \<le> length as" "take (position k kvs') as' = take (position k kvs') as"
      by auto
    have rp: "read_entry A' p = Inr e"
      using IH(3) pn pb e(1) by (auto simp: frame_def below_def)
    have "a \<notin> set as'"
      using IH(3) ok by (auto simp: frame_def chain_ok_def refs_def below_def)
    then have "frame p (a # as) A (a # as') A'"
      using IH(3) by (auto simp: frame_def)
    moreover have "chain A' p (a # as') (remove_first k kvs)"
      using IH(2) rp e False by auto
    moreover have "take (position k kvs) (a # as') = take (position k kvs) (a # as)"
      using IH(5) e(4) False by (simp add: position_def)
    ultimately show ?thesis using IH(1,4) e False n
      by (intro exI [of _ A'] exI [of _ "a # as'"]) (auto simp: next_ref_def)
  qed
qed

section \<open>The arena: one chain for each slot\<close>

definition arena_rep :: "'v arena \<Rightarrow> addr list list \<Rightarrow> (string \<times> 'v option) list list \<Rightarrow> bool" where
  "arena_rep A ass bss \<longleftrightarrow>
    length ass = length (slots A) \<and> length bss = length (slots A) \<and>
    (\<forall>i < length (slots A). chain A (Slot i) (ass ! i) (bss ! i) \<and> chain_ok A (Slot i) (ass ! i)) \<and>
    (\<forall>i < length (slots A). \<forall>j < length (slots A). i \<noteq> j \<longrightarrow> set (ass ! i) \<inter> set (ass ! j) = {})"

definition used :: "addr list list \<Rightarrow> addr set" where
  "used ass = \<Union> (set ` set ass)"

lemma used_nth: "i < length ass \<Longrightarrow> a \<in> set (ass ! i) \<Longrightarrow> a \<in> used ass"
  by (auto simp: used_def)

lemma arena_rep_lengths:
  "arena_rep A ass bss \<Longrightarrow> length ass = length (slots A)"
  "arena_rep A ass bss \<Longrightarrow> length bss = length (slots A)"
  by (simp_all add: arena_rep_def)

lemma arena_rep_nth:
  assumes "arena_rep A ass bss" "i < length bss"
  shows "chain A (Slot i) (ass ! i) (bss ! i)" "chain_ok A (Slot i) (ass ! i)"
  using assms by (auto simp: arena_rep_def)

lemma chain_ok_fresh: "chain_ok A p as \<Longrightarrow> fresh A \<le> fresh A' \<Longrightarrow> chain_ok A' p as"
  by (auto simp: chain_ok_def below_def)

lemma used_below: "arena_rep A ass bss \<Longrightarrow> a \<in> used ass \<Longrightarrow> a < fresh A"
proof -
  assume rep: "arena_rep A ass bss" and "a \<in> used ass"
  then obtain i where "i < length ass" "a \<in> set (ass ! i)"
    by (metis (no_types, lifting) UN_E in_set_conv_nth used_def)
  with arena_rep_nth(2) [OF rep, of i] arena_rep_lengths [OF rep] show "a < fresh A"
    by (auto simp: chain_ok_def refs_def below_def)
qed

lemma arena_rep_frame:
  assumes rep: "arena_rep A ass bss" and "length (slots A') = length (slots A)" "fresh A \<le> fresh A'"
    and "\<And>i. i < length (slots A) \<Longrightarrow> read_entry A' (Slot i) = read_entry A (Slot i)"
    and "\<And>a. a \<in> used ass \<Longrightarrow> read_entry A' (Node a) = read_entry A (Node a)"
  shows "arena_rep A' ass bss"
proof -
  have "chain A' (Slot i) (ass ! i) kvs = chain A (Slot i) (ass ! i) kvs" if "i < length (slots A)" for i kvs
    by (rule chain_frame)
      (use that assms(4,5) arena_rep_lengths [OF rep] in \<open>auto simp: mem_refs dest: used_nth [rotated]\<close>)
  with assms show ?thesis by (auto simp: arena_rep_def intro: chain_ok_fresh)
qed

lemma arena_rep_update:
  assumes rep: "arena_rep A ass bss" and i: "i < length bss"
    and ch: "chain A' (Slot i) as' kvs'" and fr: "frame (Slot i) (ass ! i) A as' A'"
  shows "arena_rep A' (ass[i := as']) (bss[i := kvs'])"
    and "used (ass[i := as']) \<subseteq> used ass \<union> {fresh A..<fresh A'}"
proof -
  note len = arena_rep_lengths [OF rep]
  have below_i: "a < fresh A" if "j < length bss" "a \<in> set (ass ! j)" for a j
    using used_below [OF rep] used_nth that len by metis
  have dis: "set (ass ! j) \<inter> set (ass ! k) = {}" if "j < length bss" "k < length bss" "j \<noteq> k" for j k
    using rep that len by (auto simp: arena_rep_def)
  have as': "set as' \<subseteq> set (ass ! i) \<union> {fresh A..<fresh A'}" "distinct as'"
    and le: "fresh A \<le> fresh A'" and sl: "length (slots A') = length (slots A)"
    using fr by (auto simp: frame_def)
  have other: "chain A' (Slot j) (ass ! j) (bss ! j)" if "j < length bss" "j \<noteq> i" for j
  proof -
    have "chain A' (Slot j) (ass ! j) (bss ! j) = chain A (Slot j) (ass ! j) (bss ! j)"
    proof (rule chain_frame)
      fix q assume "q \<in> refs (Slot j) (ass ! j)"
      then have "q \<notin> refs (Slot i) (ass ! i)" "\<forall>a. q = Node a \<longrightarrow> a < fresh A"
        using dis [of j i] below_i [of j] that i by (auto simp: refs_def)
      then show "read_entry A' q = read_entry A q" using fr by (auto simp: frame_def)
    qed
    with arena_rep_nth [OF rep that(1)] show ?thesis by simp
  qed
  have ok_i: "chain_ok A' (Slot i) as'"
    using as' le below_i [OF i] by (force simp: chain_ok_def refs_def below_def)
  have ok_j: "chain_ok A' (Slot j) (ass ! j)" if "j < length bss" for j
    using arena_rep_nth(2) [OF rep that] le by (rule chain_ok_fresh)
  have new_dis: "set as' \<inter> set (ass ! j) = {}" if "j < length bss" "j \<noteq> i" for j
    using as'(1) dis [OF i that(1)] below_i [OF that(1)] that by fastforce
  show "arena_rep A' (ass[i := as']) (bss[i := kvs'])"
    unfolding arena_rep_def
    using ch other ok_i ok_j new_dis dis i len sl
    by (auto simp: nth_list_update Int_commute)
  show "used (ass[i := as']) \<subseteq> used ass \<union> {fresh A..<fresh A'}"
  proof
    fix a assume "a \<in> used (ass[i := as'])"
    then obtain xs where "xs \<in> set (ass[i := as'])" "a \<in> set xs" by (auto simp: used_def)
    with set_update_subset_insert [of ass i as'] have "a \<in> set as' \<or> a \<in> used ass"
      by (auto simp: used_def)
    with as'(1) i len used_nth [of i ass a] show "a \<in> used ass \<union> {fresh A..<fresh A'}" by auto
  qed
qed

end
