(* ===== verification/Hashmap_Double.thy ===== *)
theory Hashmap_Double
  imports Hashmap_Rep
begin

text \<open>
  Bucket selection, and insertion and doubling on a whole table: inserting changes the bucket
  the hash selects; doubling redistributes every binding, in order, over the new table.
\<close>

section \<open>Bucket selection\<close>

definition bidx :: "int \<Rightarrow> string \<Rightarrow> nat" where
  "bidx ts k =
    unat (snd (MurmurHash3_x64_128 (key_bytes k) (int (length k)) 0)) mod nat ts"

lemma bucket_index_ok:
  assumes "0 < ts" "ts \<le> INT_MAX"
  shows "bucket_index ts k = Inr (bidx ts k)"
proof -
  let ?h = "snd (MurmurHash3_x64_128 (key_bytes k) (int (length k)) 0)"
  have u: "unat (word_of_int ts :: u64) = nat ts"
    using assms by (simp add: unat_eq_nat_uint uint_word_of_int)
  have m: "unat (?h mod word_of_int ts) = bidx ts k"
    by (simp add: bidx_def unat_mod u)
  have "bidx ts k < nat ts" using assms by (simp add: bidx_def)
  also have "nat ts < 2 ^ 32" using assms by simp
  finally have "unat (ucast (?h mod word_of_int ts) :: 32 word) = bidx ts k"
    by (simp add: unsigned_ucast_eq m take_bit_nat_eq_self)
  with assms show ?thesis by (simp add: bucket_index_def)
qed

lemma bidx_less: "0 < ts \<Longrightarrow> bidx ts k < nat ts"
  by (simp add: bidx_def)

section \<open>Insertion into a table\<close>

lemma insert_table_rep:
  fixes k :: string
  assumes rep: "arena_rep A ass bss" and ts: "0 < ts" "ts \<le> INT_MAX" "length (slots A) = nat ts"
  defines "i \<equiv> bidx ts k"
  shows "\<exists>A' ass'. hashmap_insert_table A ts k v cmp
      = Inr (if cmp \<and> k \<in> fst ` set (bss ! i) then 0 else 1, A') \<and>
    arena_rep A' ass' (bss[i := (if cmp then AList.update k v (bss ! i) else bss ! i @ [(k, v)])]) \<and>
    length (slots A') = length (slots A) \<and> fresh A \<le> fresh A' \<and>
    used ass' \<subseteq> used ass \<union> {fresh A..<fresh A'} \<and>
    (\<forall>a < fresh A. a \<notin> used ass \<longrightarrow> read_entry A' (Node a) = read_entry A (Node a))"
proof -
  have i: "i < length bss"
    using bidx_less [OF ts(1), of k] ts(3) arena_rep_lengths [OF rep] by (simp add: i_def)
  note ch = arena_rep_nth [OF rep i]
  from insert_scan_slot [OF ch chain_ok_fuel [OF ch(2)], of k v cmp]
  obtain A' as' where A': "insert_scan (scan_fuel A) A k v cmp None (Some (Slot i))
        = Inr (if cmp \<and> k \<in> fst ` set (bss ! i) then 0 else 1, A')"
      "chain A' (Slot i) as' (if cmp then AList.update k v (bss ! i) else bss ! i @ [(k, v)])"
      and fr: "frame (Slot i) (ass ! i) A as' A'"
    by blast
  note rep' = arena_rep_update [OF rep i A'(2) fr]
  have "read_entry A' (Node a) = read_entry A (Node a)" if "a < fresh A" "a \<notin> used ass" for a
  proof -
    have "Node a \<notin> refs (Slot i) (ass ! i)"
      using that(2) i used_nth [of i ass a] arena_rep_lengths [OF rep] by (auto simp: mem_refs)
    with fr that(1) show ?thesis by (auto simp: frame_def)
  qed
  moreover have "hashmap_insert_table A ts k v cmp
      = Inr (if cmp \<and> k \<in> fst ` set (bss ! i) then 0 else 1, A')"
    using A'(1) by (simp add: hashmap_insert_table_def bucket_index_ok [OF ts(1,2)] i_def)
  ultimately show ?thesis using rep' fr by (fastforce simp: frame_def)
qed

section \<open>Moving the old chains\<close>

definition insert_all ::
  "int \<Rightarrow> (string \<times> 'v option) list list \<Rightarrow> (string \<times> 'v option) list \<Rightarrow> (string \<times> 'v option) list list"
where
  "insert_all ts bss kvs =
    foldl (\<lambda>bss (k, v). bss[bidx ts k := bss ! bidx ts k @ [(k, v)]]) bss kvs"

lemma insert_all_simps [simp]:
  "insert_all ts bss [] = bss"
  "insert_all ts bss ((k, v) # kvs)
    = insert_all ts (bss[bidx ts k := bss ! bidx ts k @ [(k, v)]]) kvs"
  "insert_all ts bss (kvs @ kvs') = insert_all ts (insert_all ts bss kvs) kvs'"
  by (simp_all add: insert_all_def)

lemma length_insert_all [simp]: "length (insert_all ts bss kvs) = length bss"
  by (induction kvs arbitrary: bss) auto

lemma insert_all_nth:
  "0 < ts \<Longrightarrow> length bss = nat ts \<Longrightarrow> j < nat ts \<Longrightarrow>
    insert_all ts bss kvs ! j = bss ! j @ filter (\<lambda>(k, v). bidx ts k = j) kvs"
  by (induction kvs arbitrary: bss) (auto simp: nth_list_update bidx_less)

lemma sum_insert_all:
  "0 < ts \<Longrightarrow> length bss = nat ts \<Longrightarrow>
    sum_list (map length (insert_all ts bss kvs)) = sum_list (map length bss) + length kvs"
proof (induction kvs arbitrary: bss)
  case Nil
  show ?case by simp
next
  case (Cons kv kvs)
  obtain k v where kv: "kv = (k, v)" by force
  have "bidx ts k < length bss" using Cons.prems bidx_less [of ts k] by simp
  then have "sum_list (map length (bss[bidx ts k := bss ! bidx ts k @ [(k, v)]]))
      = Suc (sum_list (map length bss))"
    by (simp add: map_update sum_list_update elem_le_sum_list)
  with Cons show ?case by (simp add: kv)
qed

definition old_view :: "'v hashmap_entry list \<Rightarrow> 'v arena \<Rightarrow> 'v arena" where
  "old_view old A = A\<lparr>slots := old\<rparr>"

lemma old_view_simps [simp]:
  "fresh (old_view old A) = fresh A"
  "read_entry (old_view old A) (Node a) = read_entry A (Node a)"
  "read_entry (old_view old A) (Slot i) = (if i < length old then Inr (old ! i) else Inl OutOfBounds)"
  by (simp_all add: old_view_def read_entry.simps)

text \<open>
  What moving some old entries does to the new table: the bindings are inserted in order and
  old heap entries outside the moved ones are untouched.
\<close>

definition moved ::
  "int \<Rightarrow> eref set \<Rightarrow> (string \<times> 'v option) list \<Rightarrow> (string \<times> 'v option) list list \<Rightarrow>
   addr list list \<Rightarrow> 'v arena \<Rightarrow> addr list list \<Rightarrow> 'v arena \<Rightarrow> bool"
where
  "moved ts P kvs bss ass A ass' A' \<longleftrightarrow>
    arena_rep A' ass' (insert_all ts bss kvs) \<and>
    length (slots A') = length (slots A) \<and> fresh A \<le> fresh A' \<and>
    used ass' \<subseteq> used ass \<union> {fresh A..<fresh A'} \<and>
    (\<forall>a < fresh A. a \<notin> used ass \<longrightarrow> Node a \<notin> P \<longrightarrow> read_entry A' (Node a) = read_entry A (Node a))"

lemma moved_refl: "arena_rep A ass bss \<Longrightarrow> moved ts P [] bss ass A ass A"
  by (simp add: moved_def)

lemma moved_trans:
  assumes "moved ts P kvs bss ass A ass1 A1" "moved ts Q kvs' (insert_all ts bss kvs) ass1 A1 ass2 A2"
  shows "moved ts (P \<union> Q) (kvs @ kvs') bss ass A ass2 A2"
proof -
  have "read_entry A2 (Node a) = read_entry A (Node a)"
    if a: "a < fresh A" "a \<notin> used ass" "Node a \<notin> P \<union> Q" for a
  proof -
    have "read_entry A1 (Node a) = read_entry A (Node a)" and "a < fresh A1" and "a \<notin> used ass1"
      using assms(1) a by (auto simp: moved_def)
    with assms(2) a(3) show ?thesis by (simp add: moved_def)
  qed
  with assms show ?thesis unfolding moved_def insert_all_simps(3) by force
qed

lemma moved_mono: "moved ts P kvs bss ass A ass' A' \<Longrightarrow> P \<subseteq> Q \<Longrightarrow> moved ts Q kvs bss ass A ass' A'"
  by (auto simp: moved_def)

text \<open>A chain of the old table that has not been moved yet is still there.\<close>

lemma moved_chain:
  assumes "moved ts P kvs bss ass A ass1 A1" "chain (old_view old A) q as kvs'"
    and "\<And>a. Node a \<in> refs q as \<Longrightarrow> a < fresh A \<and> a \<notin> used ass \<and> Node a \<notin> P"
  shows "chain (old_view old A1) q as kvs'" "Node a \<in> refs q as \<Longrightarrow> a \<notin> used ass1"
proof -
  have "read_entry (old_view old A1) r = read_entry (old_view old A) r" if "r \<in> refs q as" for r
    using assms(1,3) that by (cases r) (auto simp: moved_def)
  with assms(2) show "chain (old_view old A1) q as kvs'" by (subst chain_frame [where A = "old_view old A"]) auto
  show "a \<notin> used ass1" if "Node a \<in> refs q as" using assms(1) assms(3) [OF that] by (auto simp: moved_def)
qed

lemma move_entry:
  assumes r: "read_entry (old_view old A) p = Inr e" and p: "below p (fresh A)"
    and rep: "arena_rep A ass bss" and ts: "0 < ts" "ts \<le> INT_MAX" "length (slots A) = nat ts"
    and un: "\<And>a. p = Node a \<Longrightarrow> a \<notin> used ass" and it: "in_table \<longleftrightarrow> (\<exists>i. p = Slot i)"
  shows "\<exists>A1 A2 ass2. hashmap_insert_table A ts k v False = Inr (1, A1) \<and>
    (if in_table then Inr A1 else free_entry A1 p) = Inr A2 \<and>
    moved ts {p} [(k, v)] bss ass A ass2 A2"
proof -
  from insert_table_rep [OF rep ts, of k v False]
  obtain A1 ass1 where ins: "hashmap_insert_table A ts k v False = Inr (1, A1)"
      "arena_rep A1 ass1 (bss[bidx ts k := bss ! bidx ts k @ [(k, v)]])"
      "length (slots A1) = length (slots A)" "fresh A \<le> fresh A1"
      "used ass1 \<subseteq> used ass \<union> {fresh A..<fresh A1}"
      "\<And>a. a < fresh A \<Longrightarrow> a \<notin> used ass \<Longrightarrow> read_entry A1 (Node a) = read_entry A (Node a)"
    by auto
  show ?thesis
  proof (cases p)
    case (Slot i)
    with it ins show ?thesis
      by (intro exI [of _ A1] exI [of _ A1] exI [of _ ass1]) (auto simp: moved_def)
  next
    case (Node a)
    let ?A2 = "A1\<lparr>nodes := (nodes A1)(a := None)\<rparr>"
    have a: "a < fresh A" "a \<notin> used ass" using Node p un by (auto simp: below_def)
    then have a1: "a \<notin> used ass1" using ins(5) by auto
    have "read_entry A1 (Node a) = Inr e" using ins(6) a r Node by simp
    then have fr: "free_entry A1 p = Inr ?A2" unfolding Node by (rule free_ok)
    have "arena_rep ?A2 ass1 (bss[bidx ts k := bss ! bidx ts k @ [(k, v)]])"
      by (rule arena_rep_frame [OF ins(2)]) (use a1 in \<open>auto simp: read_freed\<close>)
    with ins a1 Node have "moved ts {p} [(k, v)] bss ass A ass1 ?A2"
      by (auto simp: moved_def read_freed)
    with it Node fr ins(1) show ?thesis
      by (intro exI [of _ A1] exI [of _ ?A2] exI [of _ ass1]) (simp del: free_entry.simps)
  qed
qed

lemma move_chain_rep:
  assumes "chain (old_view old A) p as kvs" and "chain_ok (old_view old A) p as"
    and "arena_rep A ass bss" and ts: "0 < ts" "ts \<le> INT_MAX" and "length (slots A) = nat ts"
    and "length as + 2 \<le> n"
    and "\<And>a. Node a \<in> refs p as \<Longrightarrow> a \<notin> used ass"
    and "in_table \<longleftrightarrow> (\<exists>i. p = Slot i)"
  shows "\<exists>A' ass'. move_chain n old ts A in_table (Some p) = Inr A' \<and>
    moved ts (refs p as) kvs bss ass A ass' A'"
  using assms(1-3,6-9)
proof (induction as arbitrary: p kvs A ass bss n in_table)
  case Nil
  then obtain n' where n: "n = Suc (Suc n')" by (metis add_2_eq_Suc le_Suc_ex list.size(3) add_0)
  from Nil.prems(1) obtain e where e: "read_entry (old_view old A) p = Inr e" "e_next e = None"
    "kvs = (case e_key e of None \<Rightarrow> [] | Some k \<Rightarrow> [(k, e_value e)])" by auto
  show ?case
  proof (cases "e_key e")
    case None
    with e n Nil.prems(3) show ?thesis
      by (auto simp: old_view_def [symmetric] intro!: exI moved_refl)
  next
    case (Some k)
    from move_entry [OF e(1) _ Nil.prems(3) ts Nil.prems(4) _ Nil.prems(7), of k "e_value e"] Nil.prems(2,6)
    obtain A1 A2 ass2 where step: "hashmap_insert_table A ts k (e_value e) False = Inr (1, A1)"
        "(if in_table then Inr A1 else free_entry A1 p) = Inr A2"
      and mv: "moved ts {p} [(k, e_value e)] bss ass A ass2 A2"
      by auto
    have "move_chain n old ts A in_table (Some p) = Inr A2"
      using e n Some by (simp add: old_view_def [symmetric] next_ref_def step)
    with mv e Some show ?thesis by auto
  qed
next
  case (Cons a as)
  from Cons.prems obtain n' where n: "n = Suc n'" "length as + 2 \<le> n'" by (cases n) auto
  from Cons.prems(1) obtain e k kvs' where e: "read_entry (old_view old A) p = Inr e" "e_next e = Some a"
    "e_key e = Some k" "kvs = (k, e_value e) # kvs'" and ch: "chain (old_view old A) (Node a) as kvs'"
    by auto
  from Cons.prems(2) have ok: "chain_ok (old_view old A) (Node a) as" and pn: "p \<notin> refs (Node a) as"
    by auto
  from move_entry [OF e(1) _ Cons.prems(3) ts Cons.prems(4) _ Cons.prems(7), of k "e_value e"] Cons.prems(2,6)
  obtain A1 A2 ass2 where step: "hashmap_insert_table A ts k (e_value e) False = Inr (1, A1)"
        "(if in_table then Inr A1 else free_entry A1 p) = Inr A2"
      and mv: "moved ts {p} [(k, e_value e)] bss ass A ass2 A2"
    by auto
  have un: "a' < fresh A \<and> a' \<notin> used ass \<and> Node a' \<notin> {p}" if "Node a' \<in> refs (Node a) as" for a'
    using ok that Cons.prems(6) [of a'] pn by (auto simp: chain_ok_def below_def)
  note kept = moved_chain [OF mv ch un]
  have "chain_ok (old_view old A2) (Node a) as"
    by (rule chain_ok_fresh [OF ok]) (use mv in \<open>simp add: moved_def\<close>)
  moreover have "arena_rep A2 ass2 (insert_all ts bss [(k, e_value e)])" "length (slots A2) = nat ts"
    using mv Cons.prems(4) by (auto simp: moved_def)
  ultimately obtain A' ass' where rest: "move_chain n' old ts A2 False (Some (Node a)) = Inr A'"
    "moved ts (refs (Node a) as) kvs' (insert_all ts bss [(k, e_value e)]) ass2 A2 ass' A'"
    using Cons.IH [OF kept(1), of ass2 "insert_all ts bss [(k, e_value e)]" n' False] n(2) kept(2)
    by blast
  have "move_chain n old ts A in_table (Some p) = Inr A'"
    using e n(1) step rest(1) by (simp add: old_view_def [symmetric] next_ref_def)
  moreover from moved_trans [OF mv rest(2)] e have "moved ts (refs p (a # as)) kvs bss ass A ass' A'"
    by (auto intro: moved_mono)
  ultimately show ?case by blast
qed

end
