(* ===== verification/Hashmap_Map.thy ===== *)
theory Hashmap_Map
  imports Hashmap_Double
begin

text \<open>
  The hash table as a finite map.  \<open>hm_rep\<close> adds the bookkeeping fields of the map to the
  representation of its arena: keys are in the bucket their hash selects and occur once, \<open>count\<close>
  is the number of bindings, and the resize threshold lies between the two.
\<close>

section \<open>Buckets\<close>

definition bss_ok :: "int \<Rightarrow> (string \<times> 'v option) list list \<Rightarrow> bool" where
  "bss_ok ts bss \<longleftrightarrow> length bss = nat ts \<and>
    (\<forall>i < length bss. distinct (map fst (bss ! i)) \<and> (\<forall>kv \<in> set (bss ! i). bidx ts (fst kv) = i))"

lemma concat_buckets_distinct:
  assumes "\<And>i. i < length bss \<Longrightarrow> distinct (map fst (bss ! i)) \<and> (\<forall>kv \<in> set (bss ! i). f (fst kv) = c + i)"
  shows "distinct (map fst (concat bss)) \<and> (\<forall>kv \<in> set (concat bss). c \<le> f (fst kv))"
  using assms
proof (induction bss arbitrary: c)
  case Nil
  show ?case by simp
next
  case (Cons b bss)
  have IH: "distinct (map fst (concat bss)) \<and> (\<forall>kv \<in> set (concat bss). Suc c \<le> f (fst kv))"
    by (rule Cons.IH) (use Cons.prems [of "Suc _"] in auto)
  have b: "distinct (map fst b)" "\<forall>kv \<in> set b. f (fst kv) = c" using Cons.prems [of 0] by auto
  have "f k = c" if "k \<in> fst ` set b" for k using b(2) that by auto
  moreover have "Suc c \<le> f k" if "k \<in> fst ` set (concat bss)" for k using IH that by blast
  ultimately have "fst ` set b \<inter> fst ` set (concat bss) = {}" by fastforce
  moreover have "c \<le> f (fst kv)" if "kv \<in> set (b @ concat bss)" for kv
    using that b(2) IH by fastforce
  ultimately show ?case using IH b by simp
qed

lemma concat_buckets_lookup:
  assumes "\<And>i. i < length bss \<Longrightarrow> \<forall>kv \<in> set (bss ! i). f (fst kv) = c + i"
  shows "map_of (concat bss) k
    = (if c \<le> f k \<and> f k < c + length bss then map_of (bss ! (f k - c)) k else None)"
  using assms
proof (induction bss arbitrary: c)
  case Nil
  show ?case by (cases "c \<le> f k") (simp_all add: not_less)
next
  case (Cons b bss)
  have IH: "map_of (concat bss) k
      = (if Suc c \<le> f k \<and> f k < Suc c + length bss then map_of (bss ! (f k - Suc c)) k else None)"
    by (rule Cons.IH) (use Cons.prems [of "Suc _"] in auto)
  have "f k = c" if "map_of b k = Some v" for v
    using Cons.prems [of 0] map_of_SomeD [OF that] by force
  with IH show ?case
    by (cases "f k = c") (auto simp: map_add_def nth_Cons' split: option.splits)
qed

lemma bss_ok_concat:
  assumes "bss_ok ts bss" "0 < ts"
  shows "distinct (map fst (concat bss))"
    and "map_of (concat bss) k = map_of (bss ! bidx ts k) k"
proof -
  have b: "distinct (map fst (bss ! i)) \<and> (\<forall>kv \<in> set (bss ! i). bidx ts (fst kv) = 0 + i)"
    if "i < length bss" for i
    using assms(1) that by (simp add: bss_ok_def)
  show "distinct (map fst (concat bss))" using concat_buckets_distinct [of bss "bidx ts" 0] b by blast
  show "map_of (concat bss) k = map_of (bss ! bidx ts k) k"
    using concat_buckets_lookup [of bss "bidx ts" 0 k] b assms bidx_less [of ts k]
    by (simp add: bss_ok_def)
qed

lemma bss_ok_redistribute:
  assumes ok: "bss_ok ts bss" "0 < ts" and ts': "0 < ts'"
  defines "bss' \<equiv> insert_all ts' (replicate (nat ts') []) (concat bss)"
  shows "bss_ok ts' bss'" and "map_of (bss' ! bidx ts' k) k = map_of (bss ! bidx ts k) k"
    and "sum_list (map length bss') = sum_list (map length bss)"
proof -
  have nth: "bss' ! j = filter (\<lambda>(k, v). bidx ts' k = j) (concat bss)" if "j < nat ts'" for j
    using that ts' by (simp add: bss'_def insert_all_nth)
  show "bss_ok ts' bss'"
    using nth bss_ok_concat(1) [OF ok] unfolding bss_ok_def
    by (auto simp: bss'_def distinct_map_filter)
  show "map_of (bss' ! bidx ts' k) k = map_of (bss ! bidx ts k) k"
    using nth [OF bidx_less [OF ts']] bss_ok_concat(2) [OF ok]
      map_of_filter_key [of "\<lambda>k'. bidx ts' k' = bidx ts' k" "concat bss" k]
    by simp
  show "sum_list (map length bss') = sum_list (map length bss)"
    using ts' by (simp add: bss'_def sum_insert_all sum_list_replicate length_concat)
qed

lemma bss_ok_update:
  assumes "bss_ok ts bss" "bidx ts k = i"
    and "distinct (map fst kvs')" "fst ` set kvs' \<subseteq> insert k (fst ` set (bss ! i))"
  shows "bss_ok ts (bss[i := kvs'])"
proof -
  have "bidx ts (fst kv) = i" if "i < length bss" "kv \<in> set kvs'" for kv
  proof -
    have "fst kv = k \<or> (\<exists>kv' \<in> set (bss ! i). fst kv = fst kv')"
      using assms(4) that(2) by blast
    with assms(1,2) that(1) show ?thesis unfolding bss_ok_def by metis
  qed
  then have "distinct (map fst (bss[i := kvs'] ! j)) \<and> (\<forall>kv \<in> set (bss[i := kvs'] ! j). bidx ts (fst kv) = j)"
    if "j < length bss" for j
    using assms(1,3) that by (cases "j = i") (auto simp: bss_ok_def)
  with assms(1) show ?thesis by (simp add: bss_ok_def)
qed

section \<open>The representation of a map\<close>

definition hm_rep :: "'v hashmap \<Rightarrow> addr list list \<Rightarrow> (string \<times> 'v option) list list \<Rightarrow> bool" where
  "hm_rep m ass bss \<longleftrightarrow>
    arena_rep (mem m) ass bss \<and> bss_ok (table_size m) bss \<and>
    0 < table_size m \<and> table_size m \<le> INT_MAX \<and>
    count m = int (sum_list (map length bss)) \<and> count m \<le> max_size m \<and>
    max_size m \<le> table_size m"

definition hm_inv :: "'v hashmap \<Rightarrow> bool" where
  "hm_inv m \<longleftrightarrow> 0 < max_size m \<and> (\<exists>ass bss. hm_rep m ass bss)"

text \<open>What a lookup finds: the map the table implements.\<close>

definition hm_lookup :: "'v hashmap \<Rightarrow> string \<Rightarrow> 'v option option" where
  "hm_lookup m k = (case hashmap_get m k of Inl _ \<Rightarrow> None | Inr r \<Rightarrow> r)"

lemma hm_rep_lengths:
  assumes "hm_rep m ass bss"
  shows "length bss = nat (table_size m)" "length (slots (mem m)) = nat (table_size m)"
    "length ass = nat (table_size m)"
  using assms arena_rep_lengths [of "mem m" ass bss] by (auto simp: hm_rep_def bss_ok_def)

lemma hashmap_get_rep:
  assumes "hm_rep m ass bss"
  shows "hashmap_get m k = Inr (map_of (bss ! bidx (table_size m) k) k)"
proof -
  have ts: "0 < table_size m" "table_size m \<le> INT_MAX" and rep: "arena_rep (mem m) ass bss"
    using assms by (auto simp: hm_rep_def)
  have "bidx (table_size m) k < length bss"
    using hm_rep_lengths [OF assms] bidx_less [OF ts(1)] by simp
  note ch = arena_rep_nth [OF rep this]
  show ?thesis
    using get_scan_chain [OF ch(1) chain_ok_fuel [OF ch(2)]]
    by (simp add: hashmap_get_def bucket_index_ok [OF ts])
qed

lemma hm_lookup_rep:
  assumes "hm_rep m ass bss"
  shows "hm_lookup m k = map_of (bss ! bidx (table_size m) k) k"
    and "hm_lookup m = map_of (concat bss)"
proof -
  show *: "hm_lookup m k = map_of (bss ! bidx (table_size m) k) k" for k
    by (simp add: hm_lookup_def hashmap_get_rep [OF assms])
  have "bss_ok (table_size m) bss" "0 < table_size m" using assms by (simp_all add: hm_rep_def)
  then show "hm_lookup m = map_of (concat bss)"
    by (intro ext) (simp add: * bss_ok_concat(2))
qed

section \<open>Doubling\<close>

lemma move_slots_rep:
  assumes old: "arena_rep A0 oas obs" and ts: "0 < ts" "ts \<le> INT_MAX"
    and i: "i \<le> length obs"
    and view: "\<And>j. i \<le> j \<Longrightarrow> j < length obs \<Longrightarrow> chain (old_view (slots A0) A) (Slot j) (oas ! j) (obs ! j)"
    and fr: "fresh A0 \<le> fresh A" and rep: "arena_rep A ass bss" and len: "length (slots A) = nat ts"
    and dis: "\<And>j. i \<le> j \<Longrightarrow> j < length obs \<Longrightarrow> set (oas ! j) \<inter> used ass = {}"
  shows "\<exists>A' ass'. fold_res (\<lambda>i A. move_chain (scan_fuel A0) (slots A0) ts A True (Some (Slot i)))
        [i..<length obs] A = Inr A' \<and>
    arena_rep A' ass' (insert_all ts bss (concat (drop i obs)))"
  using i view fr rep len dis
proof (induction "length obs - i" arbitrary: i A ass bss)
  case 0
  then show ?case by auto
next
  case (Suc d)
  then have i: "i < length obs" by simp
  let ?old = "slots A0"
  note okj = arena_rep_nth(2) [OF old]
  have below_j: "a < fresh A0" if "j < length obs" "a \<in> set (oas ! j)" for a j
    using okj [OF that(1)] that(2) by (auto simp: chain_ok_def refs_def below_def)
  have ok: "chain_ok (old_view ?old A) (Slot i) (oas ! i)"
    by (rule chain_ok_fresh [OF okj [OF i]]) (simp add: Suc.prems)
  have "length (oas ! i) + 2 \<le> scan_fuel A0" by (rule chain_ok_fuel [OF okj [OF i]])
  moreover have "a \<notin> used ass" if "Node a \<in> refs (Slot i) (oas ! i)" for a
    using that Suc.prems(6) [of i] i by (auto simp: mem_refs)
  ultimately obtain A1 ass1 where A1: "move_chain (scan_fuel A0) ?old ts A True (Some (Slot i)) = Inr A1"
    and mv: "moved ts (refs (Slot i) (oas ! i)) (obs ! i) bss ass A ass1 A1"
    using move_chain_rep [OF Suc.prems(2) [OF order_refl i] ok Suc.prems(4) ts Suc.prems(5), of _ True]
    by blast
  have "\<exists>A' ass'. fold_res (\<lambda>i A. move_chain (scan_fuel A0) ?old ts A True (Some (Slot i)))
        [Suc i..<length obs] A1 = Inr A' \<and>
    arena_rep A' ass' (insert_all ts (insert_all ts bss (obs ! i)) (concat (drop (Suc i) obs)))"
  proof (rule Suc.hyps(1))
    show "d = length obs - Suc i" "Suc i \<le> length obs" using Suc.hyps(2) i by simp_all
    show "fresh A0 \<le> fresh A1" "arena_rep A1 ass1 (insert_all ts bss (obs ! i))" "length (slots A1) = nat ts"
      using mv Suc.prems by (auto simp: moved_def)
    fix j assume j: "Suc i \<le> j" "j < length obs"
    have "set (oas ! i) \<inter> set (oas ! j) = {}"
      using old i j by (auto simp: arena_rep_def)
    then have un: "a < fresh A \<and> a \<notin> used ass \<and> Node a \<notin> refs (Slot i) (oas ! i)" if "Node a \<in> refs (Slot j) (oas ! j)" for a
      using below_j [OF j(2)] Suc.prems(3) Suc.prems(6) [of j] j that by (fastforce simp: mem_refs)
    have "chain (old_view ?old A) (Slot j) (oas ! j) (obs ! j)" using Suc.prems(2) j by simp
    note kept = moved_chain [OF mv this un]
    show "chain (old_view ?old A1) (Slot j) (oas ! j) (obs ! j)" by (rule kept(1))
    show "set (oas ! j) \<inter> used ass1 = {}" using kept(2) by (auto simp: mem_refs)
  qed
  moreover have "concat (drop i obs) = obs ! i @ concat (drop (Suc i) obs)"
    using i by (metis Cons_nth_drop_Suc concat.simps(2))
  ultimately show ?case using A1 i by (simp add: upt_conv_Cons)
qed

lemma double_size_rep:
  assumes rep: "hm_rep m ass bss" and room: "2 * table_size m \<le> INT_MAX"
  shows "\<exists>m' ass' bss'. hashmap_double_size m = Inr m' \<and> hm_rep m' ass' bss' \<and>
    table_size m' = 2 * table_size m \<and> max_size m' = 2 * max_size m \<and> count m' = count m \<and>
    (\<forall>k. map_of (bss' ! bidx (table_size m') k) k = map_of (bss ! bidx (table_size m) k) k)"
proof -
  let ?ts = "2 * table_size m"
  let ?n = "nat ?ts"
  let ?A = "(mem m)\<lparr>slots := replicate ?n zero_entry\<rparr>"
  let ?bss' = "insert_all ?ts (replicate ?n []) (concat bss)"
  from rep have ar: "arena_rep (mem m) ass bss" and ts: "0 < table_size m" "table_size m \<le> INT_MAX"
    and ok: "bss_ok (table_size m) bss" and mx: "0 \<le> max_size m" "max_size m \<le> table_size m"
    and cnt: "count m = int (sum_list (map length bss))" "count m \<le> max_size m"
    by (auto simp: hm_rep_def)
  have ts': "0 < ?ts" using ts by simp
  have new: "arena_rep ?A (replicate ?n []) (replicate ?n [])"
    by (auto simp: arena_rep_def read_entry.simps zero_entry_def below_def)
  have view: "old_view (slots (mem m)) ?A = mem m" by (simp add: old_view_def)
  have "\<exists>A' ass'. fold_res (\<lambda>i A. move_chain (scan_fuel (mem m)) (slots (mem m)) ?ts A True (Some (Slot i)))
        [0..<length bss] ?A = Inr A' \<and>
      arena_rep A' ass' (insert_all ?ts (replicate ?n []) (concat (drop 0 bss)))"
    by (rule move_slots_rep [OF ar ts' room _ _ _ new])
      (use arena_rep_nth(1) [OF ar] in \<open>simp_all add: view used_def\<close>)
  then obtain A' ass' where A': "fold_res (\<lambda>i A. move_chain (scan_fuel (mem m)) (slots (mem m)) ?ts A True
          (Some (Slot i))) [0..<nat (table_size m)] ?A = Inr A'"
      "arena_rep A' ass' ?bss'"
    using hm_rep_lengths [OF rep] by auto
  let ?m' = "m\<lparr>mem := A', table_size := ?ts, max_size := 2 * max_size m\<rparr>"
  have c: "c_int (table_size m * 2) = Inr ?ts" "c_int (max_size m * 2) = Inr (2 * max_size m)"
    using ts mx room by (simp_all add: mult.commute)
  have "hashmap_double_size m = Inr ?m'"
    unfolding hashmap_double_size_def c bind_res_simps A'(1) by simp
  moreover have "hm_rep ?m' ass' ?bss'"
    using A'(2) bss_ok_redistribute(1,3) [OF ok ts(1) ts'] room ts cnt mx by (simp add: hm_rep_def)
  moreover have "map_of (?bss' ! bidx ?ts k) k = map_of (bss ! bidx (table_size m) k) k" for k
    by (rule bss_ok_redistribute(2) [OF ok ts(1) ts'])
  ultimately show ?thesis by fastforce
qed

end
