(* ===== verification/Hashmap_Ops.thy ===== *)
theory Hashmap_Ops
  imports Hashmap_Map
begin

text \<open>
  The operations of the hash table on represented maps: construction, \<open>hashmap_put\<close> with its
  resizing and \<open>hashmap_delete\<close> implement the update and the removal of a finite map, and
  never reach an error while the table can still be doubled.
\<close>

lemma hm_invI: "0 < max_size m \<Longrightarrow> hm_rep m ass bss \<Longrightarrow> hm_inv m"
  by (auto simp: hm_inv_def)

section \<open>Construction\<close>

lemma drop_bit_and_1: "drop_bit i (n :: int) AND 1 \<noteq> 0 \<longleftrightarrow> bit n i"
  by (simp add: bit_iff_odd_drop_bit and_one_eq odd_iff_mod_2_eq_one)

lemma most_sig_bit_scan:
  fixes n :: int
  defines "scan \<equiv> \<lambda>N. foldl (\<lambda>msb idx. if drop_bit idx n AND 1 \<noteq> 0 then idx else msb) 0 [0..<N]"
  shows "(take_bit N n = 0 \<longrightarrow> scan N = 0) \<and>
    (take_bit N n \<noteq> 0 \<longrightarrow> 2 ^ scan N \<le> take_bit N n \<and> take_bit N n < 2 ^ (scan N + 1))"
proof (induction N)
  case 0
  show ?case by (simp add: scan_def)
next
  case (Suc N)
  have s: "scan (Suc N) = (if bit n N then N else scan N)"
    by (simp add: scan_def drop_bit_and_1)
  have t: "take_bit (Suc N) n = take_bit N n + (if bit n N then 2 ^ N else 0)"
    by (simp add: take_bit_Suc_from_most)
  show ?case
  proof (cases "bit n N")
    case True
    have "0 \<le> take_bit N n" "take_bit N n < 2 ^ N" "(0 :: int) < 2 ^ N" by simp_all
    then have "take_bit N n + 2 ^ N \<noteq> 0" "take_bit N n + 2 ^ N < 2 ^ (N + 1)" by linarith simp
    with True s t show ?thesis by simp
  next
    case False
    with s t Suc show ?thesis by simp
  qed
qed

lemma most_sig_bit_bounds:
  assumes "0 < n" "n < 2 ^ 31"
  shows "2 ^ most_sig_bit n \<le> n" "n < 2 ^ (most_sig_bit n + 1)"
proof -
  have "take_bit 32 n = n" using assms by (simp add: take_bit_int_eq_self)
  with most_sig_bit_scan [of 32 n] assms
  show "2 ^ most_sig_bit n \<le> n" "n < 2 ^ (most_sig_bit n + 1)"
    unfolding most_sig_bit_def by auto
qed

lemma round_up_size_pow2:
  assumes "0 < n" "n \<le> 2 ^ 30"
  shows "\<exists>j. round_up_size n = Inr (2 ^ j) \<and> j \<le> 30 \<and> n \<le> 2 ^ j \<and> 2 ^ j < 2 * n"
proof -
  let ?b = "most_sig_bit n"
  have b: "2 ^ ?b \<le> n" "n < 2 ^ (?b + 1)" using most_sig_bit_bounds [of n] assms by auto
  have "(2 :: int) ^ ?b \<le> 2 ^ 30" using b assms by linarith
  then have b30: "?b \<le> 30" by (rule power_le_imp_le_exp [rotated]) simp
  show ?thesis
  proof (cases "2 ^ ?b = n")
    case True
    then have "round_up_size n = Inr (2 ^ ?b)"
      using assms by (simp add: round_up_size_def Let_def)
    with True b30 assms show ?thesis by (intro exI [of _ ?b]) auto
  next
    case False
    then have lt: "2 ^ ?b < n" using b by simp
    then have "(2 :: int) ^ ?b < 2 ^ 30" using assms by linarith
    then have "?b < 30" by (rule power_less_imp_less_exp [rotated]) simp
    then have "(2 :: int) ^ (?b + 1) \<le> 2 ^ 30" by (intro power_increasing) auto
    then have "c_int (2 ^ (?b + 1)) = Inr (2 ^ (?b + 1))"
      by (intro c_int_ok) (auto intro: order_trans [of _ 0])
    then have "round_up_size n = Inr (2 ^ (?b + 1))"
      using False assms by (simp add: round_up_size_def Let_def)
    with \<open>?b < 30\<close> b lt show ?thesis by (intro exI [of _ "?b + 1"]) auto
  qed
qed

lemma init_arena_rep:
  "arena_rep \<lparr>slots = replicate n zero_entry, nodes = Map.empty, fresh = 0\<rparr> (replicate n []) (replicate n [])"
  by (auto simp: arena_rep_def read_entry.simps zero_entry_def below_def)

lemma init_rep:
  assumes "round_up_size n = Inr s" "0 < s" "s \<le> INT_MAX"
  shows "\<exists>m :: 'v hashmap. hashmap_init n = Inr m \<and> hm_rep m (replicate (nat s) []) (replicate (nat s) []) \<and>
    table_size m = s \<and> max_size m = 3 * s div 4 \<and> count m = 0"
proof -
  have "0 \<le> 3 * s div 4" "3 * s div 4 \<le> s" using assms(2) by linarith+
  with assms init_arena_rep [of "nat s"] show ?thesis
    by (simp add: hashmap_init_def hm_rep_def bss_ok_def sum_list_replicate)
qed

lemma empty_rep_lookup: "hm_rep m ass (replicate n []) \<Longrightarrow> hm_lookup m = Map.empty"
  by (simp add: hm_lookup_rep(2))

lemma hashmap_init_ok:
  assumes "n \<noteq> 1" "n \<le> 2 ^ 30"
  shows "\<exists>m :: 'v hashmap. hashmap_init n = Inr m \<and> hm_inv m \<and> hm_lookup m = Map.empty \<and> count m = 0 \<and>
    max_size m = 3 * table_size m div 4 \<and>
    (if n \<le> 0 then table_size m = 128 else n \<le> table_size m \<and> table_size m < 2 * n)"
proof -
  obtain s where s: "round_up_size n = Inr s" "2 \<le> s" "s \<le> 2 ^ 30"
    "if n \<le> 0 then s = 128 else n \<le> s \<and> s < 2 * n"
  proof (cases "n \<le> 0")
    case True
    then show ?thesis by (intro that [of 128]) (simp_all add: round_up_size_def)
  next
    case False
    then obtain j where j: "round_up_size n = Inr (2 ^ j)" "j \<le> 30" "n \<le> 2 ^ j" "2 ^ j < 2 * n"
      using round_up_size_pow2 [of n] assms by auto
    moreover have "(2 :: int) ^ j \<le> 2 ^ 30" using j(2) by (intro power_increasing) auto
    ultimately show ?thesis using False assms by (intro that [of "2 ^ j"]) auto
  qed
  from init_rep [OF s(1)] s obtain m :: "'v hashmap" where "hashmap_init n = Inr m"
    "hm_rep m (replicate (nat s) []) (replicate (nat s) [])"
    "table_size m = s" "max_size m = 3 * s div 4" "count m = 0"
    by auto
  with s empty_rep_lookup show ?thesis by (intro exI [of _ m]) (auto intro: hm_invI)
qed

section \<open>hashmap_put\<close>

lemma length_alist_update:
  "length (AList.update k v xs) = (if k \<in> fst ` set xs then length xs else Suc (length xs))"
  by (induction xs) auto

lemma hm_rep_bidx:
  assumes "hm_rep m ass bss"
  shows "bidx (table_size m) k < length bss"
  using assms hm_rep_lengths [OF assms] by (simp add: hm_rep_def bidx_less)

lemma hm_rep_update_lookup:
  assumes rep: "hm_rep m ass bss" and rep': "hm_rep m' ass' (bss[bidx (table_size m) k := kvs'])"
    and ts: "table_size m' = table_size m"
    and kvs': "\<And>k'. k' \<noteq> k \<Longrightarrow> map_of kvs' k' = map_of (bss ! bidx (table_size m) k) k'"
  shows "hm_lookup m' = (hm_lookup m)(k := map_of kvs' k)"
proof
  fix k'
  show "hm_lookup m' k' = ((hm_lookup m)(k := map_of kvs' k)) k'"
    using kvs' [of k'] hm_rep_bidx [OF rep, of k]
    by (auto simp: hm_lookup_rep(1) [OF rep] hm_lookup_rep(1) [OF rep'] ts nth_list_update)
qed

lemma put_in_place:
  assumes rep: "hm_rep m ass bss" and room: "count m < max_size m"
  shows "\<exists>m' ass' bss'. put_rec (Suc n) m k v = Inr (if hm_lookup m k = None then 1 else 0, m') \<and>
    hm_rep m' ass' bss' \<and> hm_lookup m' = (hm_lookup m)(k \<mapsto> v) \<and>
    table_size m' = table_size m \<and> max_size m' = max_size m \<and>
    count m' = count m + (if hm_lookup m k = None then 1 else 0)"
proof -
  let ?i = "bidx (table_size m) k"
  let ?b = "bss ! ?i"
  let ?bss' = "bss[?i := AList.update k v ?b]"
  define r where "r = (if k \<in> fst ` set ?b then 0 else 1 :: int)"
  from rep have ar: "arena_rep (mem m) ass bss" and ts: "0 < table_size m" "table_size m \<le> INT_MAX"
    and ok: "bss_ok (table_size m) bss" and mx: "max_size m \<le> table_size m"
    and cnt: "count m = int (sum_list (map length bss))"
    by (auto simp: hm_rep_def)
  have i: "?i < length bss" by (rule hm_rep_bidx [OF rep])
  from insert_table_rep [OF ar ts hm_rep_lengths(2) [OF rep], of k v True]
  obtain A' ass' where A': "hashmap_insert_table (mem m) (table_size m) k v True = Inr (r, A')"
    "arena_rep A' ass' ?bss'"
    by (auto simp: r_def)
  have r: "r = (if hm_lookup m k = None then 1 else 0)"
    by (simp add: r_def hm_lookup_rep(1) [OF rep] map_of_eq_None_iff)
  let ?m' = "m\<lparr>mem := A', count := count m + r\<rparr>"
  have "c_int (count m + 1) = Inr (count m + 1)"
    using room mx ts cnt by (intro c_int_ok) auto
  then have put: "put_rec (Suc n) m k v = Inr (r, ?m')"
    using room A'(1) by (simp add: r_def)
  have dist: "distinct (map fst ?b)" using ok i by (simp add: bss_ok_def)
  have sum: "sum_list (map length ?bss') + length ?b = sum_list (map length bss) + length (AList.update k v ?b)"
  proof -
    have "length ?b \<le> sum_list (map length bss)"
      using i by (metis elem_le_sum_list length_map nth_map)
    with i show ?thesis by (simp add: map_update sum_list_update)
  qed
  have rep': "hm_rep ?m' ass' ?bss'"
    unfolding hm_rep_def
  proof (intro conjI)
    show "bss_ok (table_size ?m') ?bss'"
      using bss_ok_update [OF ok refl, of "AList.update k v ?b" k] dist
      by (simp add: distinct_update dom_update)
    show "count ?m' = int (sum_list (map length ?bss'))"
      using sum cnt by (auto simp: length_alist_update r_def split: if_splits)
    show "count ?m' \<le> max_size ?m'" using room by (simp add: r_def)
  qed (use A' ts mx in simp_all)
  have "hm_lookup ?m' = (hm_lookup m)(k := map_of (AList.update k v ?b) k)"
    by (rule hm_rep_update_lookup [OF rep rep']) (simp_all add: update_conv')
  then have "hm_lookup ?m' = (hm_lookup m)(k \<mapsto> v)" by (simp add: update_conv')
  with put rep' show ?thesis unfolding r [symmetric]
    by (intro exI [of _ ?m'] exI [of _ ass'] exI [of _ ?bss'] conjI) (simp_all del: put_rec.simps)
qed

text \<open>There is room: the next binding fits, or the table can be doubled within \<open>int\<close>.\<close>

definition hm_room :: "'v hashmap \<Rightarrow> bool" where
  "hm_room m \<longleftrightarrow> count m < max_size m \<or> 2 * table_size m \<le> INT_MAX"

text \<open>Two rounds of \<open>hashmap_put\<close> are enough.\<close>

lemma put_rec_ok:
  assumes inv: "hm_inv m" and room: "hm_room m"
  shows "\<exists>m'. put_rec (Suc (Suc n)) m k v = Inr (if hm_lookup m k = None then 1 else 0, m') \<and>
    hm_inv m' \<and> hm_lookup m' = (hm_lookup m)(k \<mapsto> v) \<and>
    count m' = count m + (if hm_lookup m k = None then 1 else 0) \<and>
    table_size m' = (if count m < max_size m then table_size m else 2 * table_size m) \<and>
    max_size m' = (if count m < max_size m then max_size m else 2 * max_size m)"
proof -
  from inv obtain ass bss where rep: "hm_rep m ass bss" and mx: "0 < max_size m"
    by (auto simp: hm_inv_def)
  show ?thesis
  proof (cases "count m < max_size m")
    case True
    obtain m' ass' bss' where m':
      "put_rec (Suc (Suc n)) m k v = Inr (if hm_lookup m k = None then 1 else 0, m')" "hm_rep m' ass' bss'"
      "hm_lookup m' = (hm_lookup m)(k \<mapsto> v)" "table_size m' = table_size m" "max_size m' = max_size m"
      "count m' = count m + (if hm_lookup m k = None then 1 else 0)"
      using put_in_place [OF rep True] by blast
    have "hm_inv m'" by (rule hm_invI [OF _ m'(2)]) (simp add: m'(5) mx)
    with m' True show ?thesis
      by (intro exI [of _ m']) (simp del: put_rec.simps)
  next
    case False
    then have room2: "2 * table_size m \<le> INT_MAX" using room by (simp add: hm_room_def)
    from double_size_rep [OF rep this] obtain m1 ass1 bss1 where
      m1: "hashmap_double_size m = Inr m1" "hm_rep m1 ass1 bss1"
        "table_size m1 = 2 * table_size m" "max_size m1 = 2 * max_size m" "count m1 = count m"
      and look: "\<And>k. map_of (bss1 ! bidx (table_size m1) k) k = map_of (bss ! bidx (table_size m) k) k"
      by blast
    have lk: "hm_lookup m1 = hm_lookup m"
      by (rule ext) (simp add: hm_lookup_rep(1) [OF rep] hm_lookup_rep(1) [OF m1(2)] look)
    have cm: "count m = max_size m" using rep False by (auto simp: hm_rep_def)
    have "count m1 < max_size m1" using m1 mx cm by simp
    from put_in_place [OF m1(2) this, of n k v] obtain m' ass' bss' where
      m': "put_rec (Suc n) m1 k v = Inr (if hm_lookup m1 k = None then 1 else 0, m')" "hm_rep m' ass' bss'"
        "hm_lookup m' = (hm_lookup m1)(k \<mapsto> v)" "table_size m' = table_size m1" "max_size m' = max_size m1"
        "count m' = count m1 + (if hm_lookup m1 k = None then 1 else 0)"
      by (auto simp del: put_rec.simps)
    have "c_int (count m + 1) = Inr (count m + 1)"
      using rep room2 cm by (intro c_int_ok) (auto simp: hm_rep_def)
    then have "put_rec (Suc (Suc n)) m k v = put_rec (Suc n) m1 k v"
      unfolding put_rec.simps(2) [of "Suc n"] using m1(1) cm by simp
    moreover have "hm_inv m'" by (rule hm_invI [OF _ m'(2)]) (simp add: m'(5) m1(4) mx)
    ultimately show ?thesis using m' m1 lk False
      by (intro exI [of _ m']) (simp del: put_rec.simps)
  qed
qed

lemma hashmap_put_ok:
  assumes "hm_inv m" "hm_room m"
  shows "\<exists>m'. hashmap_put m k v = Inr (if hm_lookup m k = None then 1 else 0, m') \<and>
    hm_inv m' \<and> hm_lookup m' = (hm_lookup m)(k \<mapsto> v) \<and>
    count m' = count m + (if hm_lookup m k = None then 1 else 0) \<and>
    table_size m' = (if count m < max_size m then table_size m else 2 * table_size m) \<and>
    max_size m' = (if count m < max_size m then max_size m else 2 * max_size m)"
  using put_rec_ok [OF assms, of 31 k v] unfolding hashmap_put_def by (simp del: put_rec.simps)

text \<open>More rounds never change a result that has been reached.\<close>

lemma put_rec_mono:
  "put_rec n m k v \<noteq> Inl NoReturn \<Longrightarrow> n \<le> n' \<Longrightarrow> put_rec n' m k v = put_rec n m k v"
proof (induction n arbitrary: n' m)
  case 0
  then show ?case by simp
next
  case (Suc n)
  from Suc.prems(2) obtain j where j: "n' = Suc j" "n \<le> j" by (cases n') simp_all
  have step: "put_rec j m1 k v = put_rec n m1 k v" if "put_rec n m1 k v \<noteq> Inl NoReturn" for m1
    using that j(2) by (rule Suc.IH)
  show ?case unfolding j(1) put_rec.simps(2)
  proof (rule bind_res_cong [OF refl])
    fix c
    assume c: "c_int (count m + 1) = Inr c"
    show "(if max_size m < c then bind_res (hashmap_double_size m) (\<lambda>m1. put_rec j m1 k v) else f) =
      (if max_size m < c then bind_res (hashmap_double_size m) (\<lambda>m1. put_rec n m1 k v) else f)" for f
      using Suc.prems(1) c by (cases "hashmap_double_size m") (auto intro: step split: if_splits)
  qed
qed

lemma put_no_room:
  assumes "hm_inv m" "\<not> hm_room m"
  shows "put_rec (Suc n) m k v = Inl IntOverflow"
proof -
  from assms(1) obtain ass bss where rep: "hm_rep m ass bss" by (auto simp: hm_inv_def)
  from assms(2) have r: "max_size m \<le> count m" "INT_MAX < 2 * table_size m" by (simp_all add: hm_room_def)
  then have "hashmap_double_size m = Inl IntOverflow"
    by (simp add: hashmap_double_size_def c_int_def mult.commute)
  with r(1) show ?thesis by (auto simp: c_int_def)
qed

end
