(* ===== verification/Hashmap_Del.thy ===== *)
theory Hashmap_Del
  imports Hashmap_Ops
begin

text \<open>
  Deletion, and the two defects of the table: a map of one slot can never be put to, and
  clearing leaves a dangling link behind every chain that has collided.
\<close>

section \<open>hashmap_delete\<close>

lemma remove_first_absent: "k \<notin> fst ` set kvs \<Longrightarrow> remove_first k kvs = kvs"
  by (induction kvs) auto

lemma remove_first_props:
  assumes "distinct (map fst kvs)"
  shows "map_of (remove_first k kvs) = (map_of kvs)(k := None)"
    and "distinct (map fst (remove_first k kvs))"
    and "fst ` set (remove_first k kvs) \<subseteq> fst ` set kvs"
    and "k \<in> fst ` set kvs \<Longrightarrow> Suc (length (remove_first k kvs)) = length kvs"
proof -
  show m: "map_of (remove_first k kvs) = (map_of kvs)(k := None)"
    using assms
  proof (induction kvs)
    case Nil
    show ?case by simp
  next
    case (Cons kv kvs)
    then show ?case
      by (cases "fst kv = k") (auto simp: map_of_eq_None_iff fun_eq_iff)
  qed
  show sub: "fst ` set (remove_first k kvs) \<subseteq> fst ` set kvs"
    by (induction kvs) auto
  show "distinct (map fst (remove_first k kvs))"
    using assms
  proof (induction kvs)
    case (Cons kv kvs)
    have "fst ` set (remove_first k kvs) \<subseteq> fst ` set kvs" by (induction kvs) auto
    with Cons show ?case by auto
  qed simp
  show "k \<in> fst ` set kvs \<Longrightarrow> Suc (length (remove_first k kvs)) = length kvs"
    by (induction kvs) auto
qed

lemma hashmap_delete_absent:
  assumes "hm_inv m" "hm_lookup m k = None"
  shows "hashmap_delete m k = Inr (None, m)"
proof -
  from assms(1) obtain ass bss where rep: "hm_rep m ass bss" by (auto simp: hm_inv_def)
  then have ts: "0 < table_size m" "table_size m \<le> INT_MAX" and ar: "arena_rep (mem m) ass bss"
    by (auto simp: hm_rep_def)
  note ch = arena_rep_nth [OF ar hm_rep_bidx [OF rep, of k]]
  have "map_of (bss ! bidx (table_size m) k) k = None"
    using assms(2) by (simp add: hm_lookup_rep(1) [OF rep])
  from delete_scan_absent [OF ch(1) chain_ok_fuel [OF ch(2)] this]
  show ?thesis by (simp add: hashmap_delete_def bucket_index_ok [OF ts])
qed

lemma delete_present_rep:
  assumes rep: "hm_rep m ass bss" and found: "hm_lookup m k = Some v"
  shows "\<exists>m' as'. hashmap_delete m k = Inr (Some v, m') \<and>
    length as' \<le> length (ass ! bidx (table_size m) k) \<and>
    take (position k (bss ! bidx (table_size m) k)) as' =
      take (position k (bss ! bidx (table_size m) k)) (ass ! bidx (table_size m) k) \<and>
    hm_rep m' (ass[bidx (table_size m) k := as']) (bss[bidx (table_size m) k := remove_first k (bss ! bidx (table_size m) k)]) \<and>
    hm_lookup m' = (hm_lookup m)(k := None) \<and> count m' = count m - 1 \<and>
    table_size m' = table_size m \<and> max_size m' = max_size m"
proof -
  let ?i = "bidx (table_size m) k"
  let ?b = "bss ! ?i"
  let ?bss' = "bss[?i := remove_first k ?b]"
  from rep have ar: "arena_rep (mem m) ass bss" and ts: "0 < table_size m" "table_size m \<le> INT_MAX"
    and ok: "bss_ok (table_size m) bss"
    and cnt: "count m = int (sum_list (map length bss))" "count m \<le> max_size m"
    by (auto simp: hm_rep_def)
  have i: "?i < length bss" by (rule hm_rep_bidx [OF rep])
  note ch = arena_rep_nth [OF ar i]
  have v: "map_of ?b k = Some v" using found by (simp add: hm_lookup_rep(1) [OF rep])
  from delete_scan_chain [OF ch chain_ok_fuel [OF ch(2)] v]
  obtain A' as' where A': "delete_scan (scan_fuel (mem m)) (mem m) k None (Some (Slot ?i)) = Inr (Some (v, A'))"
    "chain A' (Slot ?i) as' (remove_first k ?b)" and fr: "frame (Slot ?i) (ass ! ?i) (mem m) as' A'"
    and pos: "length as' \<le> length (ass ! ?i)" "take (position k ?b) as' = take (position k ?b) (ass ! ?i)"
    by blast
  let ?m' = "m\<lparr>mem := A', count := count m - 1\<rparr>"
  have del: "hashmap_delete m k = Inr (Some v, ?m')"
    using A'(1) by (simp add: hashmap_delete_def bucket_index_ok [OF ts])
  have dist: "distinct (map fst ?b)" using ok i by (simp add: bss_ok_def)
  have kin: "k \<in> fst ` set ?b" using v by (auto dest: map_of_SomeD intro: rev_image_eqI)
  note rf = remove_first_props [OF dist, of k]
  have "length ?b \<le> sum_list (map length bss)"
    using i by (metis elem_le_sum_list length_map nth_map)
  then have sum: "sum_list (map length bss) = Suc (sum_list (map length ?bss'))"
    using i rf(4) [OF kin] by (simp add: map_update sum_list_update)
  have rep': "hm_rep ?m' (ass[?i := as']) ?bss'"
    using arena_rep_update(1) [OF ar i A'(2) fr] bss_ok_update [OF ok refl, of "remove_first k ?b" k]
      rf(2,3) ts cnt sum rep
    by (auto simp: hm_rep_def)
  have "hm_lookup ?m' = (hm_lookup m)(k := map_of (remove_first k ?b) k)"
    by (rule hm_rep_update_lookup [OF rep rep']) (simp_all add: rf(1))
  with del rep' pos show ?thesis
    by (intro exI [of _ ?m'] exI [of _ as']) (simp add: rf(1))
qed

lemma hashmap_delete_present:
  assumes "hm_inv m" "hm_lookup m k = Some v"
  shows "\<exists>m'. hashmap_delete m k = Inr (Some v, m') \<and> hm_inv m' \<and>
    hm_lookup m' = (hm_lookup m)(k := None) \<and> count m' = count m - 1 \<and>
    table_size m' = table_size m \<and> max_size m' = max_size m"
proof -
  from assms(1) obtain ass bss where "hm_rep m ass bss" and "0 < max_size m" by (auto simp: hm_inv_def)
  from delete_present_rep [OF this(1) assms(2)] this(2) show ?thesis
    by (metis hm_invI)
qed

section \<open>A map that can never be put to\<close>

lemma put_rec_stuck:
  assumes "hm_rep m ass bss" "max_size m = 0" "INT_MAX < 2 ^ n * table_size m"
  shows "put_rec (Suc n) m k v = Inl IntOverflow"
  using assms
proof (induction n arbitrary: m ass bss)
  case 0
  then show ?case by (auto simp: hm_rep_def)
next
  case (Suc n)
  then have c: "count m = 0" unfolding hm_rep_def by linarith
  have rec: "put_rec (Suc (Suc n)) m k v = bind_res (hashmap_double_size m) (\<lambda>m1. put_rec (Suc n) m1 k v)"
    unfolding put_rec.simps(2) [of "Suc n"] using c Suc.prems(2) by simp
  show ?case
  proof (cases "2 * table_size m \<le> INT_MAX")
    case True
    from double_size_rep [OF Suc.prems(1) this] obtain m1 ass1 bss1 where
      "hashmap_double_size m = Inr m1" "hm_rep m1 ass1 bss1" "table_size m1 = 2 * table_size m"
      "max_size m1 = 2 * max_size m"
      by blast
    with Suc.IH [of m1 ass1 bss1] Suc.prems rec show ?thesis by (simp add: ac_simps)
  next
    case False
    then have "hashmap_double_size m = Inl IntOverflow"
      by (simp add: hashmap_double_size_def c_int_def mult.commute)
    with rec show ?thesis by simp
  qed
qed

lemma hashmap_init_1_stuck:
  "\<exists>m :: 'v hashmap. hashmap_init 1 = Inr m \<and> (\<forall>k v. hashmap_put m k v = Inl IntOverflow)"
proof -
  have m1: "most_sig_bit 1 = 0"
    by (simp add: most_sig_bit_def drop_bit_and_1 upt_rec)
  have "round_up_size 1 = Inr 1"
    by (simp add: round_up_size_def m1)
  from init_rep [OF this] obtain m :: "'v hashmap" where
    m: "hashmap_init 1 = Inr m" "hm_rep m [[]] [[]]" "table_size m = 1" "max_size m = 0"
    by auto
  have "hashmap_put m k v = Inl IntOverflow" for k v
    unfolding hashmap_put_def
    using put_rec_stuck [OF m(2,4), of 32 k v] m(3) by simp
  with m(1) show ?thesis by blast
qed

section \<open>Clearing leaves dangling links\<close>

text \<open>
  What \<open>clear_chain\<close> does to one chain: every heap entry of the chain that holds a binding is
  freed, and the slot keeps its link to the first of them.
\<close>

definition same_elsewhere :: "eref set \<Rightarrow> 'v arena \<Rightarrow> 'v arena \<Rightarrow> bool" where
  "same_elsewhere P A A' \<longleftrightarrow> length (slots A') = length (slots A) \<and> fresh A' = fresh A \<and>
    (\<forall>q. q \<notin> P \<longrightarrow> read_entry A' q = read_entry A q)"

lemma same_elsewhere_trans:
  "same_elsewhere P A A1 \<Longrightarrow> same_elsewhere Q A1 A2 \<Longrightarrow> same_elsewhere (P \<union> Q) A A2"
  by (simp add: same_elsewhere_def)

lemma same_elsewhere_mono: "same_elsewhere P A A' \<Longrightarrow> P \<subseteq> Q \<Longrightarrow> same_elsewhere Q A A'"
  by (auto simp: same_elsewhere_def)

lemma same_elsewhere_chain:
  "same_elsewhere P A A' \<Longrightarrow> P \<inter> refs p as = {} \<Longrightarrow> chain A' p as kvs = chain A p as kvs"
  by (rule chain_frame) (auto simp: same_elsewhere_def)

lemma fuel_two: "l + 2 \<le> n \<Longrightarrow> \<exists>n'. n = Suc (Suc n') \<and> l \<le> n'"
  by (intro exI [of _ "n - 2"]) arith

lemma free_same_elsewhere:
  assumes "read_entry A (Node a) = Inr e"
  shows "\<exists>A'. free_entry A (Node a) = Inr A' \<and> same_elsewhere {Node a} A A' \<and>
    read_entry A' (Node a) = Inl Dangling"
  using free_ok [OF assms] by (auto simp: same_elsewhere_def read_freed)

lemma clear_tail:
  assumes "chain A (Node a) as kvs" "chain_ok A (Node a) as" "length as + 2 \<le> n"
  shows "\<exists>A'. clear_chain n A False (Some (Node a)) = Inr A' \<and>
    same_elsewhere (refs (Node a) as) A A' \<and> (kvs \<noteq> [] \<longrightarrow> read_entry A' (Node a) = Inl Dangling)"
  using assms
proof (induction as arbitrary: a kvs A n)
  case Nil
  then obtain n' where n: "n = Suc (Suc n')" by (metis add_2_eq_Suc le_Suc_ex list.size(3) add_0)
  from Nil.prems obtain e where e: "read_entry A (Node a) = Inr e" "e_next e = None"
    "kvs = (case e_key e of None \<Rightarrow> [] | Some k \<Rightarrow> [(k, e_value e)])" by auto
  from free_same_elsewhere [OF e(1)] e n show ?case
    by (cases "e_key e") (auto simp: next_ref_def same_elsewhere_def simp del: free_entry.simps)
next
  case (Cons b as)
  from Cons.prems obtain n' where n: "n = Suc n'" "length as + 2 \<le> n'" by (cases n) auto
  from Cons.prems(1) obtain e k kvs' where e: "read_entry A (Node a) = Inr e" "e_next e = Some b"
    "e_key e = Some k" "kvs = (k, e_value e) # kvs'" and ch: "chain A (Node b) as kvs'" by auto
  from Cons.prems(2) have ok: "chain_ok A (Node b) as" and an: "Node a \<notin> refs (Node b) as" by auto
  from free_same_elsewhere [OF e(1)] obtain A1 where A1: "free_entry A (Node a) = Inr A1"
    "same_elsewhere {Node a} A A1" "read_entry A1 (Node a) = Inl Dangling" by blast
  have "chain A1 (Node b) as kvs'"
    using ch an same_elsewhere_chain [OF A1(2)] by simp
  moreover have "chain_ok A1 (Node b) as"
    by (rule chain_ok_fresh [OF ok]) (use A1(2) in \<open>simp add: same_elsewhere_def\<close>)
  ultimately obtain A2 where A2: "clear_chain n' A1 False (Some (Node b)) = Inr A2"
    "same_elsewhere (refs (Node b) as) A1 A2"
    using Cons.IH n(2) by blast
  have "read_entry A2 (Node a) = Inl Dangling"
    using A2(2) an A1(3) by (simp add: same_elsewhere_def)
  moreover have "same_elsewhere (refs (Node a) (b # as)) A A2"
    using same_elsewhere_trans [OF A1(2) A2(2)] by (rule same_elsewhere_mono) auto
  ultimately show ?case using e n(1) A1(1) A2(1)
    by (intro exI [of _ A2]) (simp add: next_ref_def del: free_entry.simps)
qed

lemma clear_slot:
  assumes ch: "chain A (Slot i) as kvs" and ok: "chain_ok A (Slot i) as" and n: "length as + 2 \<le> n"
  shows "\<exists>A' e. clear_chain n A True (Some (Slot i)) = Inr A' \<and>
    same_elsewhere (refs (Slot i) as) A A' \<and>
    read_entry A' (Slot i) = Inr e \<and> e_key e = None \<and> e_next e = (case as of [] \<Rightarrow> None | a # _ \<Rightarrow> Some a) \<and>
    (2 \<le> length kvs \<longrightarrow> (\<exists>a. e_next e = Some a \<and> read_entry A' (Node a) = Inl Dangling))"
proof (cases as)
  case Nil
  with ch obtain e where e: "read_entry A (Slot i) = Inr e" "e_next e = None"
    "kvs = (case e_key e of None \<Rightarrow> [] | Some k \<Rightarrow> [(k, e_value e)])" by auto
  from fuel_two [OF n] obtain n' where n': "n = Suc (Suc n')" by blast
  show ?thesis
  proof (cases "e_key e")
    case None
    with e n' Nil show ?thesis
      by (intro exI [of _ A] exI [of _ e]) (simp add: same_elsewhere_def)
  next
    case (Some k)
    let ?A1 = "upd_entry A (Slot i) (e\<lparr>e_key := None\<rparr>)"
    have "same_elsewhere (refs (Slot i) as) A ?A1"
      using read_upd [OF e(1)] by (simp add: same_elsewhere_def refs_def del: upd_entry.simps)
    with Some e n' Nil show ?thesis
      by (intro exI [of _ ?A1] exI [of _ "e\<lparr>e_key := None\<rparr>"])
        (simp add: write_ok read_upd [OF e(1)] next_ref_def del: upd_entry.simps)
  qed
next
  case (Cons a as')
  from n Cons obtain n' where n': "n = Suc n'" "length as' + 2 \<le> n'" by (cases n) auto
  from ch Cons obtain e k kvs' where e: "read_entry A (Slot i) = Inr e" "e_next e = Some a"
    "e_key e = Some k" "kvs = (k, e_value e) # kvs'" and ch': "chain A (Node a) as' kvs'" by auto
  let ?A1 = "upd_entry A (Slot i) (e\<lparr>e_key := None\<rparr>)"
  have A1: "same_elsewhere {Slot i} A ?A1"
    using read_upd [OF e(1)] by (simp add: same_elsewhere_def del: upd_entry.simps)
  have "chain ?A1 (Node a) as' kvs'"
    using ch' same_elsewhere_chain [OF A1] by (simp add: refs_def image_iff)
  moreover have "chain_ok ?A1 (Node a) as'" using ok Cons by (auto simp: chain_ok_def)
  ultimately obtain A2 where A2: "clear_chain n' ?A1 False (Some (Node a)) = Inr A2"
    "same_elsewhere (refs (Node a) as') ?A1 A2" "kvs' \<noteq> [] \<longrightarrow> read_entry A2 (Node a) = Inl Dangling"
    using clear_tail n'(2) by blast
  have "read_entry A2 (Slot i) = Inr (e\<lparr>e_key := None\<rparr>)"
    using A2(2) by (simp add: same_elsewhere_def refs_def image_iff read_upd [OF e(1)] del: upd_entry.simps)
  moreover have "same_elsewhere (refs (Slot i) as) A A2"
    using same_elsewhere_trans [OF A1 A2(2)] Cons by (auto elim: same_elsewhere_mono)
  moreover have "2 \<le> length kvs \<Longrightarrow> read_entry A2 (Node a) = Inl Dangling"
    using A2(3) e(4) by auto
  ultimately show ?thesis
    using e n'(1) A2(1) Cons write_ok [OF e(1)]
    by (intro exI [of _ A2] exI [of _ "e\<lparr>e_key := None\<rparr>"])
      (simp add: next_ref_def del: upd_entry.simps)
qed

text \<open>An emptied slot, which dangles where two bindings had met.\<close>

definition emptied :: "'v arena \<Rightarrow> (string \<times> 'v option) list \<Rightarrow> nat \<Rightarrow> bool" where
  "emptied A kvs j \<longleftrightarrow> (\<exists>e. read_entry A (Slot j) = Inr e \<and> e_key e = None \<and>
    (2 \<le> length kvs \<longrightarrow> (\<exists>a. e_next e = Some a \<and> read_entry A (Node a) = Inl Dangling)))"

text \<open>The whole table: every slot is emptied.\<close>

lemma clear_slots:
  assumes rep: "arena_rep A0 ass bss"
    and "i \<le> length bss" and "length (slots A) = length (slots A0)" "fresh A = fresh A0"
    and "\<And>j. i \<le> j \<Longrightarrow> j < length bss \<Longrightarrow> chain A (Slot j) (ass ! j) (bss ! j)"
  shows "\<exists>A'. fold_res (\<lambda>i A. clear_chain (scan_fuel A0) A True (Some (Slot i))) [i..<length bss] A = Inr A' \<and>
    length (slots A') = length (slots A0) \<and> fresh A' = fresh A0 \<and>
    (\<forall>j < i. read_entry A' (Slot j) = read_entry A (Slot j)) \<and>
    (\<forall>a. (\<forall>j < length bss. i \<le> j \<longrightarrow> a \<notin> set (ass ! j)) \<longrightarrow> read_entry A' (Node a) = read_entry A (Node a)) \<and>
    (\<forall>j < length bss. i \<le> j \<longrightarrow> emptied A' (bss ! j) j)"
  using assms(2-)
proof (induction "length bss - i" arbitrary: i A)
  case 0
  then show ?case by auto
next
  case (Suc d)
  then have i: "i < length bss" by simp
  note len = arena_rep_lengths [OF rep]
  note ok_i = arena_rep_nth(2) [OF rep i]
  have disj: "set (ass ! i) \<inter> set (ass ! j) = {}" if "j < length bss" "j \<noteq> i" for j
    using rep i that len by (auto simp: arena_rep_def)
  have "chain_ok A (Slot i) (ass ! i)" by (rule chain_ok_fresh [OF ok_i]) (simp add: Suc.prems(3))
  from clear_slot [OF Suc.prems(4) [OF order_refl i] this chain_ok_fuel [OF ok_i]]
  obtain A1 e where A1: "clear_chain (scan_fuel A0) A True (Some (Slot i)) = Inr A1"
    "same_elsewhere (refs (Slot i) (ass ! i)) A A1" "read_entry A1 (Slot i) = Inr e" "e_key e = None"
    and e: "2 \<le> length (bss ! i) \<longrightarrow> (\<exists>a. e_next e = Some a \<and> read_entry A1 (Node a) = Inl Dangling)"
    and nx: "e_next e = (case ass ! i of [] \<Rightarrow> None | a # _ \<Rightarrow> Some a)"
    by blast
  have ch: "chain A1 (Slot j) (ass ! j) (bss ! j)" if "Suc i \<le> j" "j < length bss" for j
    using Suc.prems(4) [of j] that disj [of j]
    by (subst same_elsewhere_chain [OF A1(2)]) (auto simp: refs_def)
  have d: "d = length bss - Suc i" using Suc.hyps(2) by simp
  have A1': "length (slots A1) = length (slots A0)" "fresh A1 = fresh A0"
    using A1(2) Suc.prems by (simp_all add: same_elsewhere_def)
  from Suc.hyps(1) [OF d Suc_leI [OF i] A1' ch] obtain A' where
    A': "fold_res (\<lambda>i A. clear_chain (scan_fuel A0) A True (Some (Slot i))) [Suc i..<length bss] A1 = Inr A'"
      "length (slots A') = length (slots A0)" "fresh A' = fresh A0"
      "\<forall>j < Suc i. read_entry A' (Slot j) = read_entry A1 (Slot j)"
      "\<forall>a. (\<forall>j < length bss. Suc i \<le> j \<longrightarrow> a \<notin> set (ass ! j)) \<longrightarrow> read_entry A' (Node a) = read_entry A1 (Node a)"
      "\<forall>j < length bss. Suc i \<le> j \<longrightarrow> emptied A' (bss ! j) j"
    by blast
  have "read_entry A' (Node a) = read_entry A1 (Node a)" if "e_next e = Some a" for a
  proof -
    have "a \<in> set (ass ! i)" using nx that by (cases "ass ! i") auto
    with disj have "a \<notin> set (ass ! j)" if "j < length bss" "Suc i \<le> j" for j using that by fastforce
    with A'(5) show ?thesis by blast
  qed
  then have "emptied A' (bss ! i) i" using A'(4) A1(3,4) e by (auto simp: emptied_def)
  moreover have "\<forall>j < i. read_entry A' (Slot j) = read_entry A (Slot j)"
    using A'(4) A1(2) by (auto simp: same_elsewhere_def refs_def)
  moreover have "\<forall>a. (\<forall>j < length bss. i \<le> j \<longrightarrow> a \<notin> set (ass ! j)) \<longrightarrow> read_entry A' (Node a) = read_entry A (Node a)"
    using i A'(5) A1(2) by (auto simp: same_elsewhere_def refs_def)
  moreover have "fold_res (\<lambda>i A. clear_chain (scan_fuel A0) A True (Some (Slot i))) [i..<length bss] A = Inr A'"
    using i A1(1) A'(1) by (simp add: upt_conv_Cons)
  moreover have "\<forall>j < length bss. i \<le> j \<longrightarrow> emptied A' (bss ! j) j"
    using \<open>emptied A' (bss ! i) i\<close> A'(6) by (metis Suc_leI le_neq_implies_less)
  ultimately show ?case using A'(2,3) by (intro exI [of _ A']) simp
qed

lemma hashmap_clear_rep:
  assumes rep: "hm_rep m ass bss"
  shows "\<exists>A'. hashmap_clear m = Inr (m\<lparr>mem := A', count := 0\<rparr>) \<and>
    length (slots A') = length (slots (mem m)) \<and>
    (\<forall>j < length bss. emptied A' (bss ! j) j)"
proof -
  from rep have ar: "arena_rep (mem m) ass bss" by (simp add: hm_rep_def)
  from clear_slots [OF ar le0 refl refl] arena_rep_nth(1) [OF ar] hm_rep_lengths(1) [OF rep]
  obtain A' where "fold_res (\<lambda>i A. clear_chain (scan_fuel (mem m)) A True (Some (Slot i)))
        [0..<nat (table_size m)] (mem m) = Inr A'"
      "length (slots A') = length (slots (mem m))" "fresh A' = fresh (mem m)"
      "\<forall>j < length bss. emptied A' (bss ! j) j"
    by auto
  then show ?thesis by (intro exI [of _ A']) (simp add: hashmap_clear_def)
qed

end
