(* ===== verification/Hashmap_Iter.thy ===== *)
theory Hashmap_Iter
  imports Hashmap_Del
begin

text \<open>
  Walks over the whole table: \<open>hashmap_iter\<close> with callbacks that leave the map alone calls the
  callback once for each binding until it asks to stop, and \<open>hashmap_destroy\<close> frees each value
  exactly once and no heap entry twice.
\<close>

section \<open>Iteration with callbacks that leave the map alone\<close>

fun run_cb ::
  "('s \<Rightarrow> string \<Rightarrow> 'v option \<Rightarrow> (int \<times> 's) res) \<Rightarrow> (string \<times> 'v option) list \<Rightarrow> 's \<Rightarrow> (int \<times> 's) res"
where
  "run_cb cb [] s = Inr (0, s)"
| "run_cb cb (kv # kvs) s =
    bind_res (cb s (fst kv) (snd kv)) (\<lambda>(b, s1). if b \<noteq> 0 then Inr (b, s1) else run_cb cb kvs s1)"

lemma run_cb_append:
  "run_cb cb (xs @ ys) s = bind_res (run_cb cb xs s) (\<lambda>(b, s1). if b \<noteq> 0 then Inr (b, s1) else run_cb cb ys s1)"
proof (induction xs arbitrary: s)
  case Nil
  show ?case by simp
next
  case (Cons kv xs)
  show ?case by (cases "cb s (fst kv) (snd kv)") (auto simp: Cons)
qed

definition keeps_map :: "('s \<Rightarrow> 'v hashmap) \<Rightarrow> ('s \<Rightarrow> string \<Rightarrow> 'v option \<Rightarrow> (int \<times> 's) res) \<Rightarrow> bool" where
  "keeps_map getm cb \<longleftrightarrow> (\<forall>s k v b s1. cb s k v = Inr (b, s1) \<longrightarrow> getm s1 = getm s)"

lemma run_cb_keeps: "keeps_map getm cb \<Longrightarrow> run_cb cb kvs s = Inr (b, s1) \<Longrightarrow> getm s1 = getm s"
proof (induction kvs arbitrary: s)
  case Nil
  then show ?case by simp
next
  case (Cons kv kvs)
  from Cons.prems(2) obtain b2 s2 where s2: "cb s (fst kv) (snd kv) = Inr (b2, s2)"
    "(if b2 \<noteq> 0 then Inr (b2, s2) else run_cb cb kvs s2) = Inr (b, s1)"
    by (auto simp: bind_res_Inr_iff)
  then have "getm s2 = getm s" using Cons.prems(1) by (auto simp: keeps_map_def)
  with s2(2) Cons.IH [OF Cons.prems(1), of s2] show ?case by (auto split: if_splits)
qed

lemma iter_chain_run_cb:
  assumes "keeps_map getm cb" "chain (mem (getm s)) p as kvs" "length as + 2 \<le> n"
  shows "iter_chain n getm cb s (Some p) = run_cb cb kvs s"
  using assms(2,3)
proof (induction as arbitrary: p kvs n s)
  case Nil
  obtain n' where n: "n = Suc (Suc n')" using fuel_two [OF Nil.prems(2)] by blast
  from Nil.prems(1) obtain e where e: "read_entry (mem (getm s)) p = Inr e" "e_next e = None"
    "kvs = (case e_key e of None \<Rightarrow> [] | Some k \<Rightarrow> [(k, e_value e)])" by auto
  show ?case
  proof (cases "e_key e")
    case None
    with e n show ?thesis by simp
  next
    case (Some k)
    show ?thesis
    proof (cases "cb s k (e_value e)")
      case (Inl er)
      with e Some n show ?thesis by simp
    next
      case (Inr r)
      obtain b s1 where r: "r = (b, s1)" by force
      with Inr have "getm s1 = getm s" using assms(1) by (simp add: keeps_map_def)
      with e Some n Inr r show ?thesis by (simp add: next_ref_def)
    qed
  qed
next
  case (Cons a as)
  from Cons.prems obtain n' where n: "n = Suc n'" "length as + 2 \<le> n'" by (cases n) auto
  from Cons.prems(1) obtain e k kvs' where e: "read_entry (mem (getm s)) p = Inr e" "e_next e = Some a"
    "e_key e = Some k" "kvs = (k, e_value e) # kvs'" and ch: "chain (mem (getm s)) (Node a) as kvs'" by auto
  show ?case
  proof (cases "cb s k (e_value e)")
    case (Inl er)
    with e n show ?thesis by simp
  next
    case (Inr r)
    obtain b s1 where r: "r = (b, s1)" by force
    with Inr have g: "getm s1 = getm s" using assms(1) by (simp add: keeps_map_def)
    with e n Inr r Cons.IH [of s1 "Node a" kvs' n'] ch show ?thesis by (simp add: next_ref_def)
  qed
qed

lemma iter_slots_run_cb:
  assumes keep: "keeps_map getm cb" and rep: "hm_rep m ass bss"
    and "getm s = m" "i \<le> length bss"
  shows "iter_slots getm cb (int i) s = run_cb cb (concat (drop i bss)) s"
  using assms(3,4)
proof (induction "length bss - i" arbitrary: i s)
  case 0
  then have "\<not> int i < table_size (getm s)"
    using hm_rep_lengths(1) [OF rep] rep by (auto simp: hm_rep_def)
  with 0 show ?case by (subst iter_slots.simps) simp
next
  case (Suc d)
  then have i: "i < length bss" by simp
  from rep have ar: "arena_rep (mem m) ass bss" and ts: "table_size m \<le> INT_MAX" "0 < table_size m"
    by (auto simp: hm_rep_def)
  note ch = arena_rep_nth [OF ar i]
  have lt: "int i < table_size (getm s)" "\<not> INT_MAX \<le> int i"
    using i hm_rep_lengths(1) [OF rep] ts Suc.prems(1) by auto
  have body: "iter_chain (scan_fuel (mem (getm s))) getm cb s (Some (Slot (nat (int i)))) = run_cb cb (bss ! i) s"
    using iter_chain_run_cb [OF keep, of s "Slot i"] ch chain_ok_fuel [OF ch(2)] Suc.prems(1) by simp
  have next_i: "int i + 1 = int (Suc i)" by simp
  have cat: "concat (drop i bss) = bss ! i @ concat (drop (Suc i) bss)"
    using i by (metis Cons_nth_drop_Suc concat.simps(2))
  show ?case
  proof (cases "run_cb cb (bss ! i) s")
    case (Inl er)
    with lt show ?thesis
      by (subst iter_slots.simps) (simp only: if_True body cat run_cb_append bind_res_simps)
  next
    case (Inr r)
    obtain b s1 where r: "r = (b, s1)" by force
    with Inr have g: "getm s1 = m" using run_cb_keeps [OF keep] Suc.prems(1) by metis
    have "iter_slots getm cb (int (Suc i)) s1 = run_cb cb (concat (drop (Suc i) bss)) s1"
      using Suc.hyps(1) [of "Suc i" s1] Suc.hyps(2) g i by simp
    with lt Inr r show ?thesis
      by (subst iter_slots.simps)
        (simp only: if_True if_False body cat run_cb_append bind_res_simps prod.case next_i)
  qed
qed

lemma hashmap_iter_run_cb:
  assumes "keeps_map getm cb" "hm_inv (getm s)"
  shows "\<exists>kvs. distinct (map fst kvs) \<and> map_of kvs = hm_lookup (getm s) \<and>
    int (length kvs) = count (getm s) \<and> hashmap_iter getm cb s = run_cb cb kvs s"
proof -
  from assms(2) obtain ass bss where rep: "hm_rep (getm s) ass bss" by (auto simp: hm_inv_def)
  then have "distinct (map fst (concat bss))"
    using bss_ok_concat(1) by (auto simp: hm_rep_def)
  moreover have "map_of (concat bss) = hm_lookup (getm s)"
    using hm_lookup_rep(2) [OF rep] by simp
  moreover have "int (length (concat bss)) = count (getm s)"
    using rep by (simp add: hm_rep_def length_concat)
  moreover have "hashmap_iter getm cb s = run_cb cb (concat bss) s"
    using iter_slots_run_cb [OF assms(1) rep refl, of 0] by (simp add: hashmap_iter_def)
  ultimately show ?thesis by blast
qed

section \<open>Destruction\<close>

lemma destroy_tail:
  assumes "chain A (Node a) as kvs" "chain_ok A (Node a) as" "length as + 2 \<le> n"
  shows "\<exists>A'. destroy_chain n False (Some (Node a)) (vs, A) = Inr (vs @ map snd kvs, A') \<and>
    same_elsewhere (refs (Node a) as) A A'"
  using assms
proof (induction as arbitrary: a kvs A n vs)
  case Nil
  obtain n' where n: "n = Suc (Suc n')" using fuel_two [OF Nil.prems(3)] by blast
  from Nil.prems obtain e where e: "read_entry A (Node a) = Inr e" "e_next e = None"
    "kvs = (case e_key e of None \<Rightarrow> [] | Some k \<Rightarrow> [(k, e_value e)])" by auto
  from free_same_elsewhere [OF e(1)] e n show ?case
    by (cases "e_key e") (auto simp: next_ref_def same_elsewhere_def simp del: free_entry.simps)
next
  case (Cons b as)
  from Cons.prems obtain n' where n: "n = Suc n'" "length as + 2 \<le> n'" by (cases n) auto
  from Cons.prems(1) obtain e k kvs' where e: "read_entry A (Node a) = Inr e" "e_next e = Some b"
    "e_key e = Some k" "kvs = (k, e_value e) # kvs'" and ch: "chain A (Node b) as kvs'" by auto
  from Cons.prems(2) have ok: "chain_ok A (Node b) as" and an: "Node a \<notin> refs (Node b) as" by auto
  from free_same_elsewhere [OF e(1)] obtain A1 where A1: "free_entry A (Node a) = Inr A1"
    "same_elsewhere {Node a} A A1" by blast
  have "chain A1 (Node b) as kvs'" using ch an same_elsewhere_chain [OF A1(2)] by simp
  moreover have "chain_ok A1 (Node b) as"
    by (rule chain_ok_fresh [OF ok]) (use A1(2) in \<open>simp add: same_elsewhere_def\<close>)
  ultimately obtain A2 where A2: "destroy_chain n' False (Some (Node b)) (vs @ [e_value e], A1)
      = Inr ((vs @ [e_value e]) @ map snd kvs', A2)"
    "same_elsewhere (refs (Node b) as) A1 A2"
    using Cons.IH n(2) by blast
  have "same_elsewhere (refs (Node a) (b # as)) A A2"
    using same_elsewhere_trans [OF A1(2) A2(2)] by (rule same_elsewhere_mono) auto
  with e n(1) A1(1) A2(1) show ?case
    by (intro exI [of _ A2]) (simp add: next_ref_def del: free_entry.simps)
qed

lemma destroy_slot:
  assumes ch: "chain A (Slot i) as kvs" and ok: "chain_ok A (Slot i) as" and n: "length as + 2 \<le> n"
  shows "\<exists>A'. destroy_chain n True (Some (Slot i)) (vs, A) = Inr (vs @ map snd kvs, A') \<and>
    same_elsewhere (refs (Slot i) as) A A'"
proof (cases as)
  case Nil
  from fuel_two [OF n] obtain n' where "n = Suc (Suc n')" by blast
  with Nil ch show ?thesis
    by (auto simp: next_ref_def same_elsewhere_def split: option.splits)
next
  case (Cons a as')
  from n Cons obtain n' where n': "n = Suc n'" "length as' + 2 \<le> n'" by (cases n) auto
  from ch Cons obtain e k kvs' where e: "read_entry A (Slot i) = Inr e" "e_next e = Some a"
    "e_key e = Some k" "kvs = (k, e_value e) # kvs'" and ch': "chain A (Node a) as' kvs'" by auto
  have "chain_ok A (Node a) as'" using ok Cons by auto
  from destroy_tail [OF ch' this n'(2), of "vs @ [e_value e]"] e n'(1) Cons show ?thesis
    by (auto simp: next_ref_def elim: same_elsewhere_mono)
qed

lemma destroy_slots:
  assumes rep: "arena_rep A0 ass bss"
    and "i \<le> length bss" and "fresh A = fresh A0"
    and "\<And>j. i \<le> j \<Longrightarrow> j < length bss \<Longrightarrow> chain A (Slot j) (ass ! j) (bss ! j)"
  shows "\<exists>A'. fold_res (\<lambda>i. destroy_chain (scan_fuel A0) True (Some (Slot i))) [i..<length bss] (vs, A)
    = Inr (vs @ map snd (concat (drop i bss)), A')"
  using assms(2-)
proof (induction "length bss - i" arbitrary: i A vs)
  case 0
  then show ?case by auto
next
  case (Suc d)
  then have i: "i < length bss" by simp
  note len = arena_rep_lengths [OF rep]
  note ok_i = arena_rep_nth(2) [OF rep i]
  have disj: "set (ass ! i) \<inter> set (ass ! j) = {}" if "j < length bss" "j \<noteq> i" for j
    using rep i that len by (auto simp: arena_rep_def)
  have "chain_ok A (Slot i) (ass ! i)" by (rule chain_ok_fresh [OF ok_i]) (simp add: Suc.prems(2))
  from destroy_slot [OF Suc.prems(3) [OF order_refl i] this chain_ok_fuel [OF ok_i], of vs]
  obtain A1 where A1: "destroy_chain (scan_fuel A0) True (Some (Slot i)) (vs, A) = Inr (vs @ map snd (bss ! i), A1)"
    "same_elsewhere (refs (Slot i) (ass ! i)) A A1"
    by blast
  have ch: "chain A1 (Slot j) (ass ! j) (bss ! j)" if "Suc i \<le> j" "j < length bss" for j
    using Suc.prems(3) [of j] that disj [of j]
    by (subst same_elsewhere_chain [OF A1(2)]) (auto simp: refs_def)
  have d: "d = length bss - Suc i" using Suc.hyps(2) by simp
  have fr: "fresh A1 = fresh A0" using A1(2) Suc.prems by (simp add: same_elsewhere_def)
  from Suc.hyps(1) [OF d Suc_leI [OF i] fr ch] obtain A' where
    A': "fold_res (\<lambda>i. destroy_chain (scan_fuel A0) True (Some (Slot i))) [Suc i..<length bss]
        (vs @ map snd (bss ! i), A1)
      = Inr ((vs @ map snd (bss ! i)) @ map snd (concat (drop (Suc i) bss)), A')"
    by blast
  have cat: "concat (drop i bss) = bss ! i @ concat (drop (Suc i) bss)"
    using i by (metis Cons_nth_drop_Suc concat.simps(2))
  show ?case using i A1(1) A' by (intro exI [of _ A']) (simp add: upt_conv_Cons cat)
qed

lemma hashmap_destroy_values:
  assumes "hm_inv m"
  shows "\<exists>kvs N. hashmap_destroy m = Inr (map snd kvs, N) \<and>
    distinct (map fst kvs) \<and> map_of kvs = hm_lookup m"
proof -
  from assms obtain ass bss where rep: "hm_rep m ass bss" by (auto simp: hm_inv_def)
  then have ar: "arena_rep (mem m) ass bss" and d: "distinct (map fst (concat bss))"
    using bss_ok_concat(1) by (auto simp: hm_rep_def)
  from destroy_slots [OF ar le0 refl, of "[]"] arena_rep_nth(1) [OF ar] hm_rep_lengths(1) [OF rep]
  obtain A' where "fold_res (\<lambda>i. destroy_chain (scan_fuel (mem m)) True (Some (Slot i)))
      [0..<nat (table_size m)] ([], mem m) = Inr (map snd (concat bss), A')"
    by auto
  then have "hashmap_destroy m = Inr (map snd (concat bss), nodes A')"
    by (simp add: hashmap_destroy_def)
  with d hm_lookup_rep(2) [OF rep] show ?thesis by metis
qed

end
