(* ===== verification/String_Map.thy ===== *)
theory String_Map
  imports Prelude
begin

text \<open>
  The interface between the server and its hash table: maps from C strings to pointers whose
  operations return a result or an error.  \<open>string_map\<close> is what the server relies on when it
  looks clients up, adds and removes them; \<open>keyed_map\<close> adds the encoding of the key (the
  decimal text of a socket).
\<close>

locale string_map =
  fixes get :: "'m \<Rightarrow> string \<Rightarrow> 'v option res"
    and put :: "'m \<Rightarrow> string \<Rightarrow> 'v \<Rightarrow> (int \<times> 'm) res"
    and del :: "'m \<Rightarrow> string \<Rightarrow> ('v option \<times> 'm) res"
    and inv :: "'m \<Rightarrow> bool"
    and room :: "'m \<Rightarrow> bool"
  assumes get_total: "inv m \<Longrightarrow> \<exists>r. get m k = Inr r"
    and put_law: "inv m \<Longrightarrow> room m \<Longrightarrow>
      \<exists>m'. put m k v = Inr (if get m k = Inr None then 1 else 0, m') \<and> inv m' \<and>
        (\<forall>k'. get m' k' = (if k' = k then Inr (Some v) else get m k'))"
    and del_law: "inv m \<Longrightarrow> get m k = Inr r \<Longrightarrow>
      \<exists>m'. del m k = Inr (r, m') \<and> inv m' \<and>
        (\<forall>k'. get m' k' = (if k' = k then Inr None else get m k'))"
begin

text \<open>What a client sees of one operation, with the result map given.\<close>

lemma get_after_put:
  assumes "inv m" "room m" "put m k v = Inr (r, m')"
  shows "inv m'" and "get m' k' = (if k' = k then Inr (Some v) else get m k')"
    and "r = (if get m k = Inr None then 1 else 0)"
  using put_law [OF assms(1,2), of k v] assms(3) by auto

lemma get_after_del:
  assumes "inv m" "del m k = Inr (r, m')"
  shows "inv m'" and "get m' k' = (if k' = k then Inr None else get m k')" and "get m k = Inr r"
proof -
  obtain r0 where r0: "get m k = Inr r0" using get_total [OF assms(1)] by blast
  with del_law [OF assms(1) r0] assms(2)
  show "inv m'" "get m' k' = (if k' = k then Inr None else get m k')" "get m k = Inr r" by auto
qed

lemma del_total:
  assumes "inv m"
  obtains r m' where "del m k = Inr (r, m')" "inv m'"
  using get_total [OF assms, of k] del_law [OF assms, of k] by blast

text \<open>Removing what was just added restores every lookup.\<close>

lemma del_after_put:
  assumes "inv m" "room m" "get m k = Inr None"
  shows "\<exists>m1 m2. put m k v = Inr (1, m1) \<and> del m1 k = Inr (Some v, m2) \<and> inv m2 \<and>
    (\<forall>k'. get m2 k' = get m k')"
proof -
  from put_law [OF assms(1,2), of k v] assms(3) obtain m1 where m1: "put m k v = Inr (1, m1)" "inv m1"
    "\<And>k'. get m1 k' = (if k' = k then Inr (Some v) else get m k')" by auto
  from m1(3) [of k] have "get m1 k = Inr (Some v)" by simp
  from del_law [OF m1(2) this] obtain m2 where "del m1 k = Inr (Some v, m2)" "inv m2"
    "\<And>k'. get m2 k' = (if k' = k then Inr None else get m1 k')" by blast
  with m1 assms(3) show ?thesis by (metis (full_types))
qed

text \<open>A second removal finds nothing.\<close>

lemma del_twice:
  assumes "inv m" "del m k = Inr (r, m')"
  shows "\<exists>m''. del m' k = Inr (None, m'')"
proof -
  have "inv m'" "get m' k = Inr None"
    using get_after_del(1) [OF assms] get_after_del(2) [OF assms, of k] by simp_all
  then show ?thesis using del_law by blast
qed

end

locale keyed_map = string_map +
  fixes key :: "'k \<Rightarrow> string"
    and valid :: "'k \<Rightarrow> bool"
  assumes key_inject: "valid a \<Longrightarrow> valid b \<Longrightarrow> key a = key b \<Longrightarrow> a = b"
begin

lemma keyed_get_after_put:
  assumes "inv m" "room m" "put m (key a) v = Inr (r, m')" "valid a" "valid b"
  shows "get m' (key b) = (if b = a then Inr (Some v) else get m (key b))"
  using get_after_put(2) [OF assms(1-3), of "key b"] key_inject [OF assms(4,5)] by auto

lemma keyed_get_after_del:
  assumes "inv m" "del m (key a) = Inr (r, m')" "valid a" "valid b"
  shows "get m' (key b) = (if b = a then Inr None else get m (key b))"
  using get_after_del(2) [OF assms(1,2), of "key b"] key_inject [OF assms(3,4)] by auto

end

end
