(* ===== verification/Hashmap_Props.thy ===== *)
theory Hashmap_Props
  imports Hashmap_Iter String_Map
begin

text \<open>
  The properties of the hash and of the table.  The table provides the interface \<open>string_map\<close>
  (interpretation \<open>hmap\<close>); its defects are stated on concrete sequences of calls.
\<close>

section \<open>The table provides the map interface\<close>

lemma hashmap_get_lookup: "hm_inv m \<Longrightarrow> hashmap_get m k = Inr (hm_lookup m k)"
  using hashmap_get_rep hm_lookup_rep(1) by (metis hm_inv_def)

interpretation hmap: string_map hashmap_get hashmap_put hashmap_delete hm_inv hm_room
proof unfold_locales
  fix m :: "'v hashmap" and k v r
  show "hm_inv m \<Longrightarrow> \<exists>r. hashmap_get m k = Inr r"
    by (simp add: hashmap_get_lookup)
  show "\<exists>m'. hashmap_put m k v = Inr (if hashmap_get m k = Inr None then 1 else 0, m') \<and> hm_inv m' \<and>
      (\<forall>k'. hashmap_get m' k' = (if k' = k then Inr (Some v) else hashmap_get m k'))"
    if "hm_inv m" "hm_room m"
    using hashmap_put_ok [OF that, of k v] that(1) by (auto simp: hashmap_get_lookup)
  show "\<exists>m'. hashmap_delete m k = Inr (r, m') \<and> hm_inv m' \<and>
      (\<forall>k'. hashmap_get m' k' = (if k' = k then Inr None else hashmap_get m k'))"
    if "hm_inv m" "hashmap_get m k = Inr r"
  proof (cases r)
    case None
    with that have "hm_lookup m k = None" by (simp add: hashmap_get_lookup)
    with that hashmap_delete_absent [OF that(1)] None show ?thesis by auto
  next
    case (Some v)
    with that have "hm_lookup m k = Some v" by (simp add: hashmap_get_lookup)
    with that hashmap_delete_present [OF that(1)] Some show ?thesis
      by (fastforce simp: hashmap_get_lookup)
  qed
qed

section \<open>Runs of the table\<close>

datatype 'v map_op = Put string "'v option" | Del string

fun run_ops :: "'v map_op list \<Rightarrow> 'v hashmap \<Rightarrow> 'v hashmap res" where
  "run_ops [] m = Inr m"
| "run_ops (Put k v # ops) m = bind_res (hashmap_put m k v) (\<lambda>(_, m1). run_ops ops m1)"
| "run_ops (Del k # ops) m = bind_res (hashmap_delete m k) (\<lambda>(_, m1). run_ops ops m1)"

fun spec_ops :: "'v map_op list \<Rightarrow> (string \<rightharpoonup> 'v option) \<Rightarrow> (string \<rightharpoonup> 'v option)" where
  "spec_ops [] f = f"
| "spec_ops (Put k v # ops) f = spec_ops ops (f(k \<mapsto> v))"
| "spec_ops (Del k # ops) f = spec_ops ops (f(k := None))"

text \<open>The sizes a table started by \<open>hashmap_init(0)\<close> goes through.\<close>

definition hm_sized :: "'v hashmap \<Rightarrow> bool" where
  "hm_sized m \<longleftrightarrow> (\<exists>j. 2 \<le> j \<and> j \<le> 30 \<and> table_size m = 2 ^ j \<and> 4 * max_size m = 3 * table_size m)"

lemma hm_sized_room:
  assumes "hm_inv m" "hm_sized m" "count m < 3 * 2 ^ 28"
  shows "count m < max_size m \<or> 2 * table_size m \<le> 2 ^ 30"
proof (rule disjCI)
  assume big: "\<not> 2 * table_size m \<le> 2 ^ 30"
  from assms(2) obtain j where j: "j \<le> 30" "table_size m = 2 ^ j" "4 * max_size m = 3 * table_size m"
    by (auto simp: hm_sized_def)
  have "30 \<le> j"
  proof (rule ccontr)
    assume "\<not> 30 \<le> j"
    then have "(2 :: int) ^ Suc j \<le> 2 ^ 30" by (intro power_increasing) auto
    with big j(2) show False by simp
  qed
  with j have "max_size m = 3 * 2 ^ 28" by simp
  with assms(3) show "count m < max_size m" by simp
qed

lemma hm_sized_double:
  assumes "hm_sized m" "2 * table_size m \<le> 2 ^ 30"
    "table_size m' = 2 * table_size m" "max_size m' = 2 * max_size m"
  shows "hm_sized m'"
proof -
  from assms(1) obtain j where j: "2 \<le> j" "table_size m = 2 ^ j" "4 * max_size m = 3 * table_size m"
    by (auto simp: hm_sized_def)
  have "(2 :: int) ^ Suc j \<le> 2 ^ 30" using assms(2) j by simp
  then have "Suc j \<le> 30" by (rule power_le_imp_le_exp [rotated]) simp
  with j assms show ?thesis unfolding hm_sized_def by (intro exI [of _ "Suc j"]) simp
qed

lemma put_sized:
  assumes "hm_inv m" "hm_sized m" "count m < 3 * 2 ^ 28"
  obtains r m1 where "hashmap_put m k v = Inr (r, m1)" "hm_inv m1" "hm_sized m1"
    "hm_lookup m1 = (hm_lookup m)(k \<mapsto> v)" "count m1 \<le> count m + 1"
proof -
  note room = hm_sized_room [OF assms]
  then have "hm_room m" by (auto simp: hm_room_def)
  from hashmap_put_ok [OF assms(1) this, of k v] obtain r m1 where
    m1: "hashmap_put m k v = Inr (r, m1)" "hm_inv m1" "hm_lookup m1 = (hm_lookup m)(k \<mapsto> v)"
      "count m1 \<le> count m + 1"
      "table_size m1 = (if count m < max_size m then table_size m else 2 * table_size m)"
      "max_size m1 = (if count m < max_size m then max_size m else 2 * max_size m)"
    by auto
  have "hm_sized m1"
    using assms(2) room m1(5,6) hm_sized_double [OF assms(2), of m1]
    by (cases "count m < max_size m") (simp_all add: hm_sized_def)
  with m1 that show ?thesis by blast
qed

lemma delete_sized:
  assumes "hm_inv m" "hm_sized m"
  obtains r m1 where "hashmap_delete m k = Inr (r, m1)" "hm_inv m1" "hm_sized m1"
    "hm_lookup m1 = (hm_lookup m)(k := None)" "count m1 \<le> count m"
proof (cases "hm_lookup m k")
  case None
  then have "(hm_lookup m)(k := None) = hm_lookup m" by auto
  with that [of None m] hashmap_delete_absent [OF assms(1) None] assms show ?thesis by simp
next
  case (Some v)
  from hashmap_delete_present [OF assms(1) this] obtain m1 where
    "hashmap_delete m k = Inr (Some v, m1)" "hm_inv m1" "hm_lookup m1 = (hm_lookup m)(k := None)"
    "count m1 = count m - 1" "table_size m1 = table_size m" "max_size m1 = max_size m"
    by blast
  with that [of "Some v" m1] assms(2) show ?thesis by (simp add: hm_sized_def)
qed

lemma run_ops_spec:
  assumes "hm_inv m" "hm_sized m" "count m + int (length ops) \<le> 3 * 2 ^ 28"
  shows "\<exists>m'. run_ops ops m = Inr m' \<and> hm_inv m' \<and> hm_lookup m' = spec_ops ops (hm_lookup m)"
  using assms
proof (induction ops arbitrary: m)
  case Nil
  then show ?case by simp
next
  case (Cons op ops)
  show ?case
  proof (cases op)
    case (Put k v)
    have "count m < 3 * 2 ^ 28" using Cons.prems(3) by simp
    with Cons.prems(1,2) obtain r m1 where m1: "hashmap_put m k v = Inr (r, m1)" "hm_inv m1" "hm_sized m1"
      "hm_lookup m1 = (hm_lookup m)(k \<mapsto> v)" "count m1 \<le> count m + 1" by (rule put_sized)
    then have "count m1 + int (length ops) \<le> 3 * 2 ^ 28" using Cons.prems(3) by simp
    from Cons.IH [OF m1(2,3) this] show ?thesis by (simp add: Put m1(1) m1(4) [symmetric])
  next
    case (Del k)
    from Cons.prems(1,2) obtain r m1 where m1: "hashmap_delete m k = Inr (r, m1)" "hm_inv m1" "hm_sized m1"
      "hm_lookup m1 = (hm_lookup m)(k := None)" "count m1 \<le> count m" by (rule delete_sized)
    then have "count m1 + int (length ops) \<le> 3 * 2 ^ 28" using Cons.prems(3) by simp
    from Cons.IH [OF m1(2,3) this] show ?thesis by (simp add: Del m1(1) m1(4) [symmetric])
  qed
qed

section \<open>Concrete maps for the witnesses\<close>

lemma init_128:
  "\<exists>m :: 'v hashmap. hashmap_init 0 = Inr m \<and> hm_inv m \<and> hm_lookup m = Map.empty \<and>
    count m = 0 \<and> max_size m = 96 \<and> table_size m = 128"
  using hashmap_init_ok [of 0] by fastforce

lemma room_128: "table_size m = 128 \<Longrightarrow> hm_room m"
  by (simp add: hm_room_def)

lemma bidx_128:
  "snd (MurmurHash3_x64_128 (key_bytes k) (int (length k)) 0) mod 128 = i \<Longrightarrow> bidx 128 k = unat i"
  by (auto simp: bidx_def unat_mod)

lemma bidx_8_15: "bidx 128 ''8'' = 66" "bidx 128 ''15'' = 66"
proof -
  have "snd (MurmurHash3_x64_128 (key_bytes ''8'') (int (length ''8'')) 0) mod 128 = 66" by code_simp
  from bidx_128 [OF this] show "bidx 128 ''8'' = 66" by simp
  have "snd (MurmurHash3_x64_128 (key_bytes ''15'') (int (length ''15'')) 0) mod 128 = 66" by code_simp
  from bidx_128 [OF this] show "bidx 128 ''15'' = 66" by simp
qed

lemma two_clients:
  "\<exists>m :: nat hashmap. hm_inv m \<and> table_size m = 128 \<and> max_size m = 96 \<and>
    hm_lookup m = [''8'' \<mapsto> Some 2, ''15'' \<mapsto> Some 3]"
proof -
  obtain m0 :: "nat hashmap" where m0: "hm_inv m0" "hm_lookup m0 = Map.empty" "count m0 = 0"
      "max_size m0 = 96" "table_size m0 = 128"
    using init_128 by blast
  obtain m1 :: "nat hashmap" where m1: "hm_inv m1" "hm_lookup m1 = [''8'' \<mapsto> Some 2]" "table_size m1 = 128"
      "max_size m1 = 96" "count m1 = 1"
    using hashmap_put_ok [OF m0(1) room_128 [OF m0(5)], of "''8''" "Some 2"] m0 by auto
  obtain m2 :: "nat hashmap" where "hm_inv m2" "hm_lookup m2 = [''8'' \<mapsto> Some 2, ''15'' \<mapsto> Some 3]" "table_size m2 = 128"
      "max_size m2 = 96"
    using hashmap_put_ok [OF m1(1) room_128 [OF m1(3)], of "''15''" "Some 3"] m1 by auto
  then show ?thesis by blast
qed

lemma init_sized: "\<exists>m :: 'v hashmap. hashmap_init 0 = Inr m \<and> hm_inv m \<and> hm_sized m \<and>
    hm_lookup m = Map.empty \<and> count m = 0"
proof -
  from init_128 obtain m :: "'v hashmap" where m: "hashmap_init 0 = Inr m" "hm_inv m"
    "hm_lookup m = Map.empty" "count m = 0" "max_size m = 96" "table_size m = 128" by blast
  then have "hm_sized m" unfolding hm_sized_def by (intro exI [of _ 7]) simp
  with m show ?thesis by blast
qed

lemma put_fuel: "(33 :: nat) = Suc 32"
  by simp

section \<open>Clearing a table whose keys have met\<close>

lemma clear_then_put:
  assumes rep: "hm_rep m ass bss" and mx: "0 < max_size m"
    and two: "2 \<le> length (bss ! bidx (table_size m) k)"
  shows "\<exists>m1 m2. hashmap_clear m = Inr m1 \<and> hashmap_put m1 k v = Inr (1, m2) \<and>
    (\<forall>k'. k' \<noteq> k \<longrightarrow> bidx (table_size m) k' = bidx (table_size m) k \<longrightarrow> hashmap_get m2 k' = Inl Dangling)"
proof -
  let ?i = "bidx (table_size m) k"
  from rep have ts: "0 < table_size m" "table_size m \<le> INT_MAX" by (auto simp: hm_rep_def)
  have i: "?i < length bss" by (rule hm_rep_bidx [OF rep])
  from hashmap_clear_rep [OF rep] i two obtain A e a where
    A: "hashmap_clear m = Inr (m\<lparr>mem := A, count := 0\<rparr>)"
      "read_entry A (Slot ?i) = Inr e" "e_key e = None" "e_next e = Some a" "read_entry A (Node a) = Inl Dangling"
    unfolding emptied_def by blast
  let ?A2 = "upd_entry A (Slot ?i) (e\<lparr>e_key := Some k, e_value := v\<rparr>)"
  have ins: "hashmap_insert_table A (table_size m) k v True = Inr (1, ?A2)"
    using A by (simp add: hashmap_insert_table_def bucket_index_ok [OF ts] scan_fuel_def write_ok
      del: upd_entry.simps)
  let ?m2 = "m\<lparr>mem := ?A2, count := 1\<rparr>"
  have put: "hashmap_put (m\<lparr>mem := A, count := 0\<rparr>) k v = Inr (1, ?m2)"
  proof -
    have "put_rec (Suc 32) (m\<lparr>mem := A, count := 0\<rparr>) k v = Inr (1, ?m2)"
      unfolding put_rec.simps(2) using mx ins by (simp del: upd_entry.simps)
    then show ?thesis by (simp only: hashmap_put_def put_fuel)
  qed
  have "hashmap_get ?m2 k' = Inl Dangling" if "k' \<noteq> k" "bidx (table_size m) k' = ?i" for k'
  proof -
    have "read_entry ?A2 (Slot ?i) = Inr (e\<lparr>e_key := Some k, e_value := v\<rparr>)"
      "read_entry ?A2 (Node a) = Inl Dangling"
      by (simp_all only: read_upd [OF A(2)] A(5) eref.simps if_True if_False simp_thms)
    with that A(4) show ?thesis
      by (simp add: hashmap_get_def bucket_index_ok [OF ts] scan_fuel_def next_ref_def del: upd_entry.simps)
  qed
  with A(1) put show ?thesis by blast
qed

lemma met_keys_length:
  assumes "hm_rep m ass bss" "k1 \<noteq> k2" "hm_lookup m k1 \<noteq> None" "hm_lookup m k2 \<noteq> None"
    "bidx (table_size m) k2 = bidx (table_size m) k1"
  shows "2 \<le> length (bss ! bidx (table_size m) k1)"
proof -
  let ?b = "bss ! bidx (table_size m) k1"
  have "k1 \<in> fst ` set ?b" "k2 \<in> fst ` set ?b"
    using assms(3-5) by (auto simp: hm_lookup_rep(1) [OF assms(1)] map_of_eq_None_iff)
  then have "card {k1, k2} \<le> card (fst ` set ?b)" by (intro card_mono) auto
  also have "\<dots> \<le> length ?b" by (metis card_length length_map set_map)
  finally show ?thesis using assms(2) by simp
qed

section \<open>Sizes\<close>

lemma hm_inv_count: "hm_inv m \<Longrightarrow> count m = int (card (dom (hm_lookup m)))"
proof -
  assume "hm_inv m"
  then obtain ass bss where rep: "hm_rep m ass bss" by (auto simp: hm_inv_def)
  then have d: "distinct (map fst (concat bss))" using bss_ok_concat(1) by (auto simp: hm_rep_def)
  have "card (dom (hm_lookup m)) = length (concat bss)"
    using d distinct_card [of "map fst (concat bss)"]
    by (simp add: hm_lookup_rep(2) [OF rep] dom_map_of_conv_image_fst)
  with rep show ?thesis by (simp add: hm_rep_def length_concat)
qed

section \<open>Properties\<close>

text \<open>C2. Any sequence of at most \<open>3 * 2 ^ 28\<close> puts and deletes on a map made by
  \<open>hashmap_init(0)\<close> succeeds (no overflow, no bad access, no endless walk), whatever the keys
  collide and however often the table is doubled; afterwards \<open>hashmap_get\<close> finds exactly what the
  abstract map holds and \<open>hashmap_size\<close> is the number of its keys.\<close>

theorem hashmap_runs_as_map:
  fixes ops :: "'v map_op list"
  assumes "int (length ops) \<le> 3 * 2 ^ 28"
  shows "\<exists>m m'. hashmap_init 0 = Inr m \<and> run_ops ops m = Inr m' \<and>
    (\<forall>k. hashmap_get m' k = Inr (spec_ops ops Map.empty k)) \<and>
    hashmap_size m' = int (card (dom (spec_ops ops Map.empty)))"
proof -
  obtain m :: "'v hashmap" where m: "hashmap_init 0 = Inr m" "hm_inv m" "hm_sized m"
    "hm_lookup m = Map.empty" "count m = 0"
    using init_sized by blast
  from run_ops_spec [OF m(2,3), of ops] assms m(4,5) obtain m' where
    "run_ops ops m = Inr m'" "hm_inv m'" "hm_lookup m' = spec_ops ops Map.empty"
    by auto
  with m(1) hm_inv_count [of m'] show ?thesis
    by (auto simp: hashmap_get_lookup hashmap_size_def)
qed

lemma hashmap_runs_as_map_witness:
  "\<exists>m m'. hashmap_init 0 = Inr m \<and>
    run_ops [Put ''8'' (Some (2 :: nat)), Put ''15'' (Some 3), Del ''8''] m = Inr m' \<and>
    hashmap_get m' ''15'' = Inr (Some (Some 3)) \<and> hashmap_get m' ''8'' = Inr None \<and> hashmap_size m' = 1"
proof -
  let ?ops = "[Put ''8'' (Some (2 :: nat)), Put ''15'' (Some 3), Del ''8'']"
  obtain m m' where m: "hashmap_init 0 = Inr m" "run_ops ?ops m = Inr m'"
      "\<And>k. hashmap_get m' k = Inr (spec_ops ?ops Map.empty k)"
      "hashmap_size m' = int (card (dom (spec_ops ?ops Map.empty)))"
    using hashmap_runs_as_map [of ?ops] by auto
  have "dom (spec_ops ?ops Map.empty) = {''15''}" by (auto split: if_splits)
  with m show ?thesis by (intro exI [of _ m] exI [of _ m'] conjI) (simp_all only: m, simp_all)
qed

text \<open>C23. \<open>hashmap_put\<close> on a well-formed map with room binds the key to the value and leaves
  every other key alone; it returns 1 and counts one more exactly if the key was new, and it
  doubles the table exactly if the map was full.\<close>

theorem hashmap_put_spec:
  assumes "hm_inv m" "hm_room m"
  shows "\<exists>m'. hashmap_put m k v = Inr (if hashmap_get m k = Inr None then 1 else 0, m') \<and> hm_inv m' \<and>
    (\<forall>k'. hashmap_get m' k' = (if k' = k then Inr (Some v) else hashmap_get m k')) \<and>
    hashmap_size m' = hashmap_size m + (if hashmap_get m k = Inr None then 1 else 0) \<and>
    table_size m' = (if count m < max_size m then table_size m else 2 * table_size m)"
  using hashmap_put_ok [OF assms, of k v] assms(1)
  by (auto simp: hashmap_get_lookup hashmap_size_def)

lemma hashmap_put_spec_witness:
  "\<exists>m m'. hashmap_init 0 = Inr m \<and> hashmap_put m ''8'' (Some (2 :: nat)) = Inr (1, m') \<and>
    hashmap_get m' ''8'' = Inr (Some (Some 2)) \<and> hashmap_get m' ''15'' = Inr None \<and>
    hashmap_size m' = 1 \<and> table_size m' = 128"
proof -
  obtain m :: "nat hashmap" where m: "hashmap_init 0 = Inr m" "hm_inv m" "hm_lookup m = Map.empty"
    "count m = 0" "max_size m = 96" "table_size m = 128" using init_128 by blast
  then have "hashmap_get m k = Inr None" for k by (simp add: hashmap_get_lookup)
  with hashmap_put_spec [OF m(2) room_128 [OF m(6)], of "''8''" "Some 2"] m show ?thesis
    by (auto simp: hashmap_size_def)
qed

text \<open>C24. \<open>hashmap_delete\<close> of a bound key returns 0, frees exactly the value bound to it, and
  afterwards only that key is gone; of an unbound key it returns -1 and changes nothing, not even
  the memory.\<close>

theorem hashmap_delete_spec:
  assumes "hm_inv m"
  shows "hashmap_get m k = Inr None \<and> hashmap_delete m k = Inr (None, m) \<or>
    (\<exists>v m'. hashmap_get m k = Inr (Some v) \<and> hashmap_delete m k = Inr (Some v, m') \<and> hm_inv m' \<and>
      (\<forall>k'. hashmap_get m' k' = (if k' = k then Inr None else hashmap_get m k')) \<and>
      hashmap_size m' = hashmap_size m - 1)"
proof (cases "hm_lookup m k")
  case None
  with assms hashmap_delete_absent [OF assms None] show ?thesis by (simp add: hashmap_get_lookup)
next
  case (Some v)
  with hashmap_delete_present [OF assms Some] assms show ?thesis
    by (auto simp: hashmap_get_lookup hashmap_size_def)
qed

lemma hashmap_delete_spec_witness:
  "\<exists>m m'. hashmap_get m ''15'' = Inr (Some (Some (3 :: nat))) \<and> hashmap_delete m ''15'' = Inr (Some (Some 3), m') \<and>
    hashmap_get m' ''8'' = Inr (Some (Some 2)) \<and> hashmap_delete m' ''15'' = Inr (None, m')"
proof -
  obtain m :: "nat hashmap" where m: "hm_inv m" "hm_lookup m = [''8'' \<mapsto> Some 2, ''15'' \<mapsto> Some 3]"
    using two_clients by blast
  then have g: "hashmap_get m ''15'' = Inr (Some (Some 3))" "hashmap_get m ''8'' = Inr (Some (Some 2))"
    by (simp_all add: hashmap_get_lookup)
  then obtain m' where m': "hashmap_delete m ''15'' = Inr (Some (Some 3), m')" "hm_inv m'"
      "\<And>k'. hashmap_get m' k' = (if k' = ''15'' then Inr None else hashmap_get m k')"
    using hashmap_delete_spec [OF m(1), of "''15''"] by auto
  then have "hashmap_get m' ''15'' = Inr None" "hashmap_get m' ''8'' = Inr (Some (Some 2))"
    using g by simp_all
  with hashmap_delete_spec [OF m'(2), of "''15''"] g m'(1) show ?thesis by auto
qed

text \<open>Removing a binding that was just added undoes the addition, for every key of the
  map, even if the addition doubled the table.\<close>

theorem hashmap_put_delete_roundtrip:
  assumes "hm_inv m" "hm_room m" "hashmap_get m k = Inr None"
  shows "\<exists>m1 m2. hashmap_put m k v = Inr (1, m1) \<and> hashmap_delete m1 k = Inr (Some v, m2) \<and> hm_inv m2 \<and>
    (\<forall>k'. hashmap_get m2 k' = hashmap_get m k')"
  by (rule hmap.del_after_put [OF assms])

lemma hashmap_put_delete_roundtrip_witness:
  "\<exists>m m1 m2. hashmap_get m ''15'' = Inr (Some (Some (3 :: nat))) \<and>
    hashmap_put m ''25'' (Some 7) = Inr (1, m1) \<and> hashmap_delete m1 ''25'' = Inr (Some (Some 7), m2) \<and>
    hashmap_get m2 ''15'' = Inr (Some (Some 3))"
proof -
  obtain m :: "nat hashmap" where m: "hm_inv m" "table_size m = 128"
      "hm_lookup m = [''8'' \<mapsto> Some 2, ''15'' \<mapsto> Some 3]"
    using two_clients by blast
  then have "hashmap_get m ''25'' = Inr None" "hashmap_get m ''15'' = Inr (Some (Some 3))"
    by (simp_all add: hashmap_get_lookup)
  with hashmap_put_delete_roundtrip [OF m(1) room_128 [OF m(2)], of "''25''" "Some 7"] show ?thesis
    by metis
qed

text \<open>C30. Iterating with a callback that leaves the map alone calls it exactly once for every
  binding, with the key and the value bound to it, one after the other, and stops at the first
  call that returns a nonzero value, which is then the result.\<close>

theorem hashmap_iter_visits_once:
  assumes "keeps_map getm cb" "hm_inv (getm s)"
  shows "\<exists>kvs. distinct (map fst kvs) \<and> (\<forall>k. hashmap_get (getm s) k = Inr (map_of kvs k)) \<and>
    int (length kvs) = hashmap_size (getm s) \<and> hashmap_iter getm cb s = run_cb cb kvs s"
  using hashmap_iter_run_cb [OF assms] assms(2)
  by (auto simp: hashmap_get_lookup hashmap_size_def)

lemma hashmap_iter_visits_once_witness:
  "\<exists>m kvs. distinct (map fst kvs) \<and> map_of kvs ''15'' = Some (Some (3 :: nat)) \<and>
    hashmap_iter fst (\<lambda>(m, l) k v. Inr (0, (m, l @ [v]))) (m, [])
      = run_cb (\<lambda>(m, l) k v. Inr (0, (m, l @ [v]))) kvs (m, [])"
proof -
  obtain m :: "nat hashmap" where m: "hm_inv m" "hm_lookup m = [''8'' \<mapsto> Some 2, ''15'' \<mapsto> Some 3]"
    using two_clients by blast
  have k: "keeps_map fst (\<lambda>(m :: nat hashmap, l) k v. Inr (0, (m, l @ [v])))"
    by (auto simp: keeps_map_def)
  from m have "hashmap_get m ''15'' = Inr (Some (Some 3))" by (simp add: hashmap_get_lookup)
  with hashmap_iter_visits_once [OF k, of "(m, [])"] m(1) show ?thesis by fastforce
qed

text \<open>\<open>hashmap_destroy\<close> frees the value of every binding exactly once and never frees or
  reads a freed entry.\<close>

theorem hashmap_destroy_frees_once:
  assumes "hm_inv m"
  shows "\<exists>kvs left. hashmap_destroy m = Inr (map snd kvs, left) \<and> distinct (map fst kvs) \<and>
    (\<forall>k. hashmap_get m k = Inr (map_of kvs k)) \<and> int (length kvs) = hashmap_size m"
proof -
  from hashmap_destroy_values [OF assms] obtain kvs N where
    kvs: "hashmap_destroy m = Inr (map snd kvs, N)" "distinct (map fst kvs)" "map_of kvs = hm_lookup m"
    by blast
  then have "card (dom (hm_lookup m)) = length kvs"
    using distinct_card [of "map fst kvs"] by (simp flip: kvs(3) add: dom_map_of_conv_image_fst)
  with kvs hm_inv_count [OF assms] assms show ?thesis
    by (intro exI [of _ kvs] exI [of _ N]) (simp add: hashmap_get_lookup hashmap_size_def)
qed

lemma hashmap_destroy_frees_once_witness:
  "\<exists>(m :: nat hashmap) vs left. hashmap_destroy m = Inr (vs, left) \<and> Some 3 \<in> set vs"
proof -
  obtain m :: "nat hashmap" where m: "hm_inv m" "hm_lookup m = [''8'' \<mapsto> Some 2, ''15'' \<mapsto> Some 3]"
    using two_clients by blast
  then have g: "hashmap_get m ''15'' = Inr (Some (Some 3))" by (simp add: hashmap_get_lookup)
  from hashmap_destroy_frees_once [OF m(1)] obtain kvs N where
    "hashmap_destroy m = Inr (map snd kvs, N)" "hashmap_get m ''15'' = Inr (map_of kvs ''15'')" by blast
  with g show ?thesis by (force dest: map_of_SomeD)
qed

text \<open>C38. \<open>hashmap_init\<close>: for 0 or a negative size an empty map of the default capacity (128; not the 64 that the comments
  give), for a size of at
  least 2 (and at most \<open>2 ^ 30\<close>) an empty map whose table is the size rounded up to less than
  twice it; the resize threshold is three quarters of the table.\<close>

theorem hashmap_init_spec:
  assumes "n \<noteq> 1" "n \<le> 2 ^ 30"
  shows "\<exists>m :: 'v hashmap. hashmap_init n = Inr m \<and> hm_inv m \<and> (\<forall>k. hashmap_get m k = Inr None) \<and>
    hashmap_size m = 0 \<and> max_size m = 3 * table_size m div 4 \<and>
    (if n \<le> 0 then table_size m = DEFAULT_CAPACITY else n \<le> table_size m \<and> table_size m < 2 * n)"
  using hashmap_init_ok [OF assms] by (auto simp: hashmap_get_lookup hashmap_size_def)

lemma hashmap_init_spec_witness:
  "\<exists>m :: nat hashmap. hashmap_init 100 = Inr m \<and> 100 \<le> table_size m \<and> table_size m < 200 \<and> hashmap_size m = 0"
  using hashmap_init_spec [of 100] by auto

text \<open>C37. \<open>hashmap_put\<close>, which calls itself after every doubling of the table, returns: on a valid map
  two calls are as good as any number of them, so the table is doubled at most once; it succeeds exactly if there is
  room, and otherwise the doubled size leaves the range of \<open>int\<close>.\<close>

theorem hashmap_put_terminates:
  assumes "hm_inv m" "2 \<le> n"
  shows "put_rec n m k v = hashmap_put m k v \<and>
    (if hm_room m then \<exists>r. hashmap_put m k v = Inr r else hashmap_put m k v = Inl IntOverflow)"
proof -
  have "put_rec 2 m k v \<noteq> Inl NoReturn \<and> (if hm_room m then \<exists>r. put_rec 2 m k v = Inr r else put_rec 2 m k v = Inl IntOverflow)"
    using put_rec_ok [OF assms(1), of 0 k v] put_no_room [OF assms(1), of 1 k v]
    unfolding numeral_2_eq_2 by (force simp del: put_rec.simps)
  with put_rec_mono [of 2 m k v n] put_rec_mono [of 2 m k v 33] assms(2) show ?thesis
    unfolding hashmap_put_def by (auto simp del: put_rec.simps split: if_splits)
qed

lemma hashmap_put_terminates_witness:
  "\<exists>m :: nat hashmap. hashmap_init 0 = Inr m \<and> (\<exists>r. put_rec 2 m ''8'' (Some 3) = Inr r \<and> hashmap_put m ''8'' (Some 3) = Inr r)"
proof -
  obtain m :: "nat hashmap" where m: "hashmap_init 0 = Inr m" "hm_inv m" "table_size m = 128" using init_128 by blast
  have "(2 :: nat) \<le> 2" by simp
  from hashmap_put_terminates [OF m(2) this, of "''8''" "Some 3"] room_128 [OF m(3)] m(1) show ?thesis
    by (auto simp del: put_rec.simps)
qed

text \<open>A map made with \<open>hashmap_init(1)\<close> has a resize threshold of 0 that doubling never
  raises: every \<open>hashmap_put\<close> doubles the table until its size leaves the range of \<open>int\<close>.\<close>

theorem hashmap_init_1_never_puts:
  "\<exists>m :: 'v hashmap. hashmap_init 1 = Inr m \<and> (\<forall>k v. hashmap_put m k v = Inl IntOverflow)"
  by (rule hashmap_init_1_stuck)

text \<open>C36. \<open>hashmap_clear\<close> frees the colliding entries of a chain and leaves the link to them in
  the slot: if two keys met in a slot, then after clearing and putting the first one back, every
  lookup of another key of that slot reads freed memory.\<close>

theorem hashmap_clear_use_after_free:
  assumes "hm_inv m" "k1 \<noteq> k2" "hashmap_get m k1 \<noteq> Inr None" "hashmap_get m k2 \<noteq> Inr None"
    and "bucket_index (table_size m) k1 = bucket_index (table_size m) k2"
  shows "\<exists>m1 m2. hashmap_clear m = Inr m1 \<and> hashmap_size m1 = 0 \<and> hashmap_put m1 k1 v = Inr (1, m2) \<and>
    hashmap_get m2 k2 = Inl Dangling"
proof -
  from assms(1) obtain ass bss where rep: "hm_rep m ass bss" and mx: "0 < max_size m"
    by (auto simp: hm_inv_def)
  then have ts: "0 < table_size m" "table_size m \<le> INT_MAX" by (auto simp: hm_rep_def)
  from assms(5) have same: "bidx (table_size m) k2 = bidx (table_size m) k1"
    by (simp add: bucket_index_ok [OF ts])
  have "hm_lookup m k1 \<noteq> None" "hm_lookup m k2 \<noteq> None"
    using assms(3,4) by (simp_all add: hashmap_get_lookup [OF assms(1)])
  from clear_then_put [OF rep mx met_keys_length [OF rep assms(2) this same], of v]
  obtain m1 m2 where m12: "hashmap_clear m = Inr m1" "hashmap_put m1 k1 v = Inr (1, m2)"
      "\<forall>k'. k' \<noteq> k1 \<longrightarrow> bidx (table_size m) k' = bidx (table_size m) k1 \<longrightarrow> hashmap_get m2 k' = Inl Dangling"
    by (elim exE conjE)
  from m12(3) same assms(2) have "hashmap_get m2 k2 = Inl Dangling" by metis
  moreover from m12(1) hashmap_clear_rep [OF rep] have "hashmap_size m1 = 0"
    by (auto simp: hashmap_size_def)
  ultimately show ?thesis using m12(1,2) by (intro exI [of _ m1] exI [of _ m2]) simp
qed

lemma hashmap_clear_use_after_free_witness:
  "\<exists>m m1 m2. hashmap_get m ''15'' = Inr (Some (Some (3 :: nat))) \<and> hashmap_clear m = Inr m1 \<and>
    hashmap_put m1 ''8'' (Some 4) = Inr (1, m2) \<and> hashmap_get m2 ''15'' = Inl Dangling"
proof -
  obtain m :: "nat hashmap" where m: "hm_inv m" "table_size m = 128"
      "hm_lookup m = [''8'' \<mapsto> Some 2, ''15'' \<mapsto> Some 3]"
    using two_clients by blast
  then have g: "hashmap_get m ''15'' = Inr (Some (Some 3))" "hashmap_get m ''8'' = Inr (Some (Some 2))"
    by (simp_all add: hashmap_get_lookup)
  moreover have "bucket_index (table_size m) ''8'' = bucket_index (table_size m) ''15''"
    by (simp add: m(2) bucket_index_ok bidx_8_15)
  ultimately show ?thesis
    using hashmap_clear_use_after_free [OF m(1), of "''8''" "''15''" "Some 4"] by auto
qed

text \<open>C31. \<open>hashmap_double_size\<close> keeps every binding: the moved entries are found in the table
  of twice the size exactly as before.\<close>

theorem hashmap_double_size_same_map:
  assumes "hm_inv m" "2 * table_size m \<le> INT_MAX"
  shows "\<exists>m'. hashmap_double_size m = Inr m' \<and> hm_inv m' \<and> table_size m' = 2 * table_size m \<and>
    max_size m' = 2 * max_size m \<and> hashmap_size m' = hashmap_size m \<and>
    (\<forall>k. hashmap_get m' k = hashmap_get m k)"
proof -
  from assms(1) obtain ass bss where rep: "hm_rep m ass bss" "0 < max_size m" by (auto simp: hm_inv_def)
  from double_size_rep [OF rep(1) assms(2)] obtain m' ass' bss' where
    m': "hashmap_double_size m = Inr m'" "hm_rep m' ass' bss'" "table_size m' = 2 * table_size m"
      "max_size m' = 2 * max_size m" "count m' = count m"
      "\<forall>k. map_of (bss' ! bidx (table_size m') k) k = map_of (bss ! bidx (table_size m) k) k"
    by blast
  have "hm_inv m'" by (rule hm_invI [OF _ m'(2)]) (simp add: m'(4) rep(2))
  with m' hashmap_get_rep [OF rep(1)] hashmap_get_rep [OF m'(2)] show ?thesis
    by (intro exI [of _ m']) (simp add: hashmap_size_def)
qed

lemma hashmap_double_size_same_map_witness:
  "\<exists>m m'. hashmap_double_size m = Inr m' \<and> table_size m' = 256 \<and>
    hashmap_get m' ''15'' = Inr (Some (Some (3 :: nat)))"
proof -
  obtain m :: "nat hashmap" where m: "hm_inv m" "table_size m = 128"
      "hm_lookup m = [''8'' \<mapsto> Some 2, ''15'' \<mapsto> Some 3]"
    using two_clients by blast
  then have "hashmap_get m ''15'' = Inr (Some (Some 3))" by (simp add: hashmap_get_lookup)
  with hashmap_double_size_same_map [OF m(1)] m(2) show ?thesis by fastforce
qed

text \<open>C32. The hash equals the form in which every 16-byte block, the last one padded with zero
  bytes included, is read as two little-endian words: the unrolled tail of the source computes
  the same as padding.\<close>

theorem murmur3_padded_reference:
  "MurmurHash3_x64_128 key (int (length key)) seed = murmur_ref key seed"
  by (rule murmur_eq_ref)

text \<open>The hash is a function of the first \<open>len\<close> bytes only: it never reads behind the end
  of the key.\<close>

theorem murmur3_reads_only_key:
  "MurmurHash3_x64_128 (key @ xs) (int (length key)) seed = MurmurHash3_x64_128 (key @ ys) (int (length key)) seed"
  by (rule murmur_reads_len) simp_all

text \<open>C33. Two different keys of the same length of at most 15 bytes never have the same 128-bit
  hash: every client key of the server is of that kind.\<close>

theorem murmur3_injective_on_short_keys:
  assumes "length xs = length ys" "length xs < 16"
  shows "MurmurHash3_x64_128 xs (int (length xs)) seed = MurmurHash3_x64_128 ys (int (length ys)) seed
    \<longleftrightarrow> xs = ys"
  using murmur_short_inject [OF assms] by blast

lemma murmur3_injective_on_short_keys_witness:
  "MurmurHash3_x64_128 [49, 50] 2 0 \<noteq> MurmurHash3_x64_128 [49, 51] 2 0"
proof -
  have l: "length [49, 50 :: byte] = length [49, 51 :: byte]" "length [49, 50 :: byte] < 16" by simp_all
  have i: "int (length [49, 50 :: byte]) = 2" "int (length [49, 51 :: byte]) = 2" by simp_all
  have "[49, 50] \<noteq> [49, 51 :: byte]" by simp
  then show ?thesis unfolding murmur3_injective_on_short_keys [OF l, of 0, unfolded i] .
qed

end
