(* ===== verification/Hashmap_Sweep.thy ===== *)
theory Hashmap_Sweep
  imports Hashmap_Iter
begin

text \<open>
  Iteration with callbacks that delete the binding they are called on.  Deleting moves the next
  binding of the chain into the entry the iteration stands on, and the iteration then goes on to
  the entry behind it: the moved binding is never visited.  \<open>sweep\<close> is this walk on the contents
  of one bucket, and \<open>hashmap_iter\<close> is shown to be exactly the sweep of all buckets.
\<close>

section \<open>The walk on the contents\<close>

fun sweep ::
  "('s \<Rightarrow> 'v hashmap) \<Rightarrow> ('s \<Rightarrow> string \<Rightarrow> 'v option \<Rightarrow> (int \<times> 's) res) \<Rightarrow>
   (string \<times> 'v option) list \<Rightarrow> 's \<Rightarrow> (int \<times> 's) res"
where
  "sweep getm cb [] s = Inr (0, s)"
| "sweep getm cb (kv # kvs) s =
    bind_res (cb s (fst kv) (snd kv)) (\<lambda>(b, s1).
      if b \<noteq> 0 then Inr (b, s1)
      else sweep getm cb (if hm_lookup (getm s1) (fst kv) = None then tl kvs else kvs) s1)"

fun sweep_all ::
  "('s \<Rightarrow> 'v hashmap) \<Rightarrow> ('s \<Rightarrow> string \<Rightarrow> 'v option \<Rightarrow> (int \<times> 's) res) \<Rightarrow>
   (string \<times> 'v option) list list \<Rightarrow> 's \<Rightarrow> (int \<times> 's) res"
where
  "sweep_all getm cb [] s = Inr (0, s)"
| "sweep_all getm cb (kvs # bss) s =
    bind_res (sweep getm cb kvs s) (\<lambda>(b, s1). if b \<noteq> 0 then Inr (b, s1) else sweep_all getm cb bss s1)"

text \<open>In states with \<open>P\<close>, which every call keeps, a call leaves the map alone or deletes its own key.\<close>

definition deletes_current ::
  "('s \<Rightarrow> bool) \<Rightarrow> ('s \<Rightarrow> 'v hashmap) \<Rightarrow> ('s \<Rightarrow> string \<Rightarrow> 'v option \<Rightarrow> (int \<times> 's) res) \<Rightarrow> bool"
where
  "deletes_current P getm cb \<longleftrightarrow>
    (\<forall>s k v b s1. P s \<longrightarrow> hm_lookup (getm s) k = Some v \<longrightarrow> cb s k v = Inr (b, s1) \<longrightarrow>
      P s1 \<and> (getm s1 = getm s \<or> (\<exists>r. hashmap_delete (getm s) k = Inr (r, getm s1))))"

section \<open>Positions in a chain\<close>

definition nth_ref :: "eref \<Rightarrow> addr list \<Rightarrow> nat \<Rightarrow> eref" where
  "nth_ref p as j = (if j = 0 then p else Node (as ! (j - 1)))"

lemma chain_nth:
  assumes "chain A p as kvs" "j \<le> length as"
  shows "\<exists>e. read_entry A (nth_ref p as j) = Inr e \<and>
    e_next e = (if j < length as then Some (as ! j) else None) \<and>
    (if j < length kvs then e_key e = Some (fst (kvs ! j)) \<and> e_value e = snd (kvs ! j) else e_key e = None)"
  using assms
proof (induction as arbitrary: p kvs j)
  case Nil
  then show ?case by (auto simp: nth_ref_def split: option.splits)
next
  case (Cons a as)
  from Cons.prems(1) obtain e k kvs' where e: "read_entry A p = Inr e" "e_next e = Some a" "e_key e = Some k"
    "kvs = (k, e_value e) # kvs'" "chain A (Node a) as kvs'" by auto
  show ?case
  proof (cases j)
    case 0
    with e show ?thesis by (simp add: nth_ref_def)
  next
    case (Suc j')
    have "nth_ref p (a # as) j = nth_ref (Node a) as j'" using Suc by (simp add: nth_ref_def)
    moreover obtain e' where "read_entry A (nth_ref (Node a) as j') = Inr e'"
      "e_next e' = (if j' < length as then Some (as ! j') else None)"
      "if j' < length kvs' then e_key e' = Some (fst (kvs' ! j')) \<and> e_value e' = snd (kvs' ! j') else e_key e' = None"
      using Cons.IH [OF e(5), of j'] Cons.prems(2) Suc by auto
    ultimately show ?thesis using Suc e(4) by (intro exI [of _ e']) simp
  qed
qed

lemma chain_lengths: "chain A p as kvs \<Longrightarrow> length kvs \<le> length as + 1"
  by (induction as arbitrary: p kvs) (auto split: option.splits)

lemma nth_ref_take: "take j as' = take j as \<Longrightarrow> j \<le> length as \<Longrightarrow> nth_ref p as' j = nth_ref p as j"
proof (cases j)
  case (Suc j')
  assume "take j as' = take j as" "j \<le> length as"
  then have "take j as' ! j' = take j as ! j'" "length (take j as') = length (take j as)" by simp_all
  with Suc \<open>j \<le> length as\<close> show ?thesis by (simp add: nth_ref_def)
qed (simp add: nth_ref_def)

lemma position_nth: "distinct (map fst kvs) \<Longrightarrow> j < length kvs \<Longrightarrow> position (fst (kvs ! j)) kvs = j"
proof (induction kvs arbitrary: j)
  case Nil
  then show ?case by simp
next
  case (Cons kv kvs)
  then show ?case by (cases j) (auto simp: position_def)
qed

lemma remove_first_nth:
  "distinct (map fst kvs) \<Longrightarrow> j < length kvs \<Longrightarrow>
    remove_first (fst (kvs ! j)) kvs = take j kvs @ drop (Suc j) kvs"
proof (induction kvs arbitrary: j)
  case Nil
  then show ?case by simp
next
  case (Cons kv kvs)
  then show ?case by (cases j) auto
qed

section \<open>One chain\<close>

text \<open>What a call of the callback does to the representation.\<close>

lemma deletes_current_rep:
  assumes "deletes_current P getm cb" "P s" "hm_rep (getm s) ass bss" "i < length bss" "j < length (bss ! i)"
    "cb s (fst (bss ! i ! j)) (snd (bss ! i ! j)) = Inr (b, s1)"
  shows "P s1 \<and> (if hm_lookup (getm s1) (fst (bss ! i ! j)) = None
    then \<exists>as'. length as' \<le> length (ass ! i) \<and> take j as' = take j (ass ! i) \<and> table_size (getm s1) = table_size (getm s) \<and>
      hm_rep (getm s1) (ass[i := as']) (bss[i := take j (bss ! i) @ drop (Suc j) (bss ! i)])
    else getm s1 = getm s)"
proof -
  let ?k = "fst (bss ! i ! j)" and ?m = "getm s"
  from assms(3) have ok: "bss_ok (table_size ?m) bss" by (simp add: hm_rep_def)
  have kv: "bss ! i ! j \<in> set (bss ! i)" using assms(5) by simp
  with ok assms(4) have i: "bidx (table_size ?m) ?k = i" and d: "distinct (map fst (bss ! i))"
    by (auto simp: bss_ok_def)
  then have l: "hm_lookup ?m ?k = Some (snd (bss ! i ! j))"
    using kv by (simp add: hm_lookup_rep(1) [OF assms(3)] map_of_is_SomeI)
  from delete_present_rep [OF assms(3) l, unfolded i] obtain m' as' where
    m': "hashmap_delete ?m ?k = Inr (Some (snd (bss ! i ! j)), m')" "length as' \<le> length (ass ! i)"
      "take (position ?k (bss ! i)) as' = take (position ?k (bss ! i)) (ass ! i)"
      "hm_rep m' (ass[i := as']) (bss[i := remove_first ?k (bss ! i)])"
      "hm_lookup m' = (hm_lookup ?m)(?k := None)" "table_size m' = table_size ?m"
    by blast
  from assms(1,2,6) l have P1: "P s1" and "getm s1 = ?m \<or> (\<exists>r. hashmap_delete ?m ?k = Inr (r, getm s1))"
    unfolding deletes_current_def by blast+
  then have "getm s1 = ?m \<or> getm s1 = m'" using m'(1) by auto
  then show ?thesis
  proof
    assume "getm s1 = ?m"
    with l P1 show ?thesis by simp
  next
    assume "getm s1 = m'"
    with m' d assms(5) P1 show ?thesis by (auto simp: position_nth remove_first_nth)
  qed
qed

text \<open>After the callback the entry under the iteration is still there, and its link leads to what the sweep visits next.\<close>

lemma deletes_current_next:
  assumes dc: "deletes_current P getm cb" "P s" and rep: "hm_rep (getm s) ass bss" and i: "i < length bss"
    and j: "j < length (bss ! i)" "j \<le> length (ass ! i)"
    and cb: "cb s (fst (bss ! i ! j)) (snd (bss ! i ! j)) = Inr (b, s1)"
  obtains ass1 bss1 e1 where "hm_rep (getm s1) ass1 bss1" "bss1 = bss[i := bss1 ! i]" "length bss1 = length bss"
    "table_size (getm s1) = table_size (getm s)" "read_entry (mem (getm s1)) (nth_ref (Slot i) (ass ! i) j) = Inr e1"
    "next_ref e1 = (if j < length (ass1 ! i) then Some (nth_ref (Slot i) (ass1 ! i) (Suc j)) else None)"
    "length (ass1 ! i) \<le> length (ass ! i)" "j \<le> length (ass1 ! i)"
    "drop (Suc j) (bss1 ! i) =
      (if hm_lookup (getm s1) (fst (bss ! i ! j)) = None then tl (drop (Suc j) (bss ! i)) else drop (Suc j) (bss ! i))"
proof -
  note st = conjunct2 [OF deletes_current_rep [OF dc rep i j(1) cb]]
  let ?as = "ass ! i" and ?kvs = "bss ! i"
  have chain_at: "chain (mem (getm s')) (Slot i) (ass' ! i) (bss' ! i)"
    if "hm_rep (getm s') ass' bss'" "i < length bss'" for s' ass' bss'
    using that arena_rep_nth(1) by (auto simp: hm_rep_def)
  show ?thesis
  proof (cases "hm_lookup (getm s1) (fst (?kvs ! j)) = None")
    case False
    from chain_nth [OF chain_at [OF rep i] j(2)] obtain e where
      "read_entry (mem (getm s)) (nth_ref (Slot i) ?as j) = Inr e" "e_next e = (if j < length ?as then Some (?as ! j) else None)"
      by blast
    moreover have "getm s1 = getm s" using st False by simp
    ultimately show ?thesis using rep False j(2)
      by (intro that [of ass bss e]) (auto simp: next_ref_def nth_ref_def)
  next
    case gone: True
    with st obtain as' where as': "length as' \<le> length ?as" "take j as' = take j ?as"
      "table_size (getm s1) = table_size (getm s)"
      "hm_rep (getm s1) (ass[i := as']) (bss[i := take j ?kvs @ drop (Suc j) ?kvs])" by auto
    let ?bss1 = "bss[i := take j ?kvs @ drop (Suc j) ?kvs]"
    have ia: "i < length ass" using i hm_rep_lengths [OF rep] by simp
    have ja: "j \<le> length as'" using as'(2) j(2) by (metis length_take min.absorb2 min.cobounded1)
    have "chain (mem (getm s1)) (Slot i) as' (?bss1 ! i)" using chain_at [OF as'(4)] i ia by simp
    from chain_nth [OF this ja] obtain e1 where e1: "read_entry (mem (getm s1)) (nth_ref (Slot i) as' j) = Inr e1"
      "e_next e1 = (if j < length as' then Some (as' ! j) else None)" by blast
    have "drop (Suc j) (take j ?kvs @ drop (Suc j) ?kvs) = tl (drop (Suc j) ?kvs)"
      using j(1) by (simp add: drop_append drop_Suc tl_drop min_def)
    with e1 as' ia ja gone i nth_ref_take [OF as'(2) j(2)] show ?thesis
      by (intro that [of "ass[i := as']" ?bss1 e1]) (auto simp: next_ref_def nth_ref_def)
  qed
qed

text \<open>One entry: walk and sweep visit it, and go on in the same way.\<close>

lemma iter_chain_entry:
  assumes "chain (mem (getm s)) (Slot i) as kvs" "j \<le> length as"
  shows "j < length kvs \<Longrightarrow> iter_chain (Suc n) getm cb s (Some (nth_ref (Slot i) as j)) =
      bind_res (cb s (fst (kvs ! j)) (snd (kvs ! j))) (\<lambda>(b, s1).
        bind_res (read_entry (mem (getm s1)) (nth_ref (Slot i) as j)) (\<lambda>e1.
          if b \<noteq> 0 then Inr (b, s1) else iter_chain n getm cb s1 (next_ref e1)))"
    and "\<not> j < length kvs \<Longrightarrow> iter_chain (Suc n) getm cb s (Some (nth_ref (Slot i) as j)) = Inr (0, s)"
  using chain_nth [OF assms] by auto

lemma iter_chain_visit:
  assumes dc: "deletes_current P getm cb" "P s" and rep: "hm_rep (getm s) ass bss" and i: "i < length bss"
    and j: "j < length (bss ! i)" "j \<le> length (ass ! i)"
    and cb: "cb s (fst (bss ! i ! j)) (snd (bss ! i ! j)) = Inr (b, s1)"
  obtains ass1 bss1 where "hm_rep (getm s1) ass1 bss1" "bss1 = bss[i := bss1 ! i]" "length bss1 = length bss"
    "table_size (getm s1) = table_size (getm s)" "length (ass1 ! i) \<le> length (ass ! i)" "j \<le> length (ass1 ! i)"
    "sweep getm cb (drop j (bss ! i)) s = (if b \<noteq> 0 then Inr (b, s1) else sweep getm cb (drop (Suc j) (bss1 ! i)) s1)"
    "\<forall>n. iter_chain (Suc n) getm cb s (Some (nth_ref (Slot i) (ass ! i) j)) =
      (if b \<noteq> 0 then Inr (b, s1) else iter_chain n getm cb s1
        (if j < length (ass1 ! i) then Some (nth_ref (Slot i) (ass1 ! i) (Suc j)) else None))"
proof -
  have "arena_rep (mem (getm s)) ass bss" using rep by (simp add: hm_rep_def)
  note it = iter_chain_entry(1) [where getm = getm, OF arena_rep_nth(1) [OF this i] j(2,1), of _ cb]
  have dr: "drop j (bss ! i) = bss ! i ! j # drop (Suc j) (bss ! i)" using j(1) by (simp add: Cons_nth_drop_Suc)
  from dc rep i j cb obtain ass1 bss1 e1 where r1: "hm_rep (getm s1) ass1 bss1" "bss1 = bss[i := bss1 ! i]" "length bss1 = length bss"
    "table_size (getm s1) = table_size (getm s)" "read_entry (mem (getm s1)) (nth_ref (Slot i) (ass ! i) j) = Inr e1"
    "next_ref e1 = (if j < length (ass1 ! i) then Some (nth_ref (Slot i) (ass1 ! i) (Suc j)) else None)"
    "length (ass1 ! i) \<le> length (ass ! i)" "j \<le> length (ass1 ! i)"
    "drop (Suc j) (bss1 ! i) =
      (if hm_lookup (getm s1) (fst (bss ! i ! j)) = None then tl (drop (Suc j) (bss ! i)) else drop (Suc j) (bss ! i))"
    by (rule deletes_current_next)
  show ?thesis
    by (rule that [OF r1(1-4,7,8)]) (simp_all add: it cb dr r1(5,6,9) del: iter_chain.simps(3))
qed

text \<open>What holds of the result of a walk along bucket \<open>i\<close>.\<close>

definition swept ::
  "('s \<Rightarrow> bool) \<Rightarrow> ('s \<Rightarrow> 'v hashmap) \<Rightarrow> int \<Rightarrow> (string \<times> 'v option) list list \<Rightarrow> nat \<Rightarrow> (int \<times> 's) res \<Rightarrow> bool"
where
  "swept P getm ts bss i r \<longleftrightarrow> (\<forall>b s'. r = Inr (b, s') \<longrightarrow>
    P s' \<and> table_size (getm s') = ts \<and> (\<exists>ass' kvs'. hm_rep (getm s') ass' (bss[i := kvs'])))"

lemma sweptI: "P s \<Longrightarrow> table_size (getm s) = ts \<Longrightarrow> hm_rep (getm s) ass bss' \<Longrightarrow> bss' = bss[i := bss' ! i] \<Longrightarrow>
    swept P getm ts bss i (Inr (b, s))"
  unfolding swept_def by (metis Inr_inject Pair_inject)

lemma iter_chain_sweep:
  assumes "deletes_current P getm cb" "P s" "hm_rep (getm s) ass bss" "i < length bss" "j \<le> length (ass ! i)"
    "length (ass ! i) - j + 2 \<le> n"
  shows "iter_chain n getm cb s (Some (nth_ref (Slot i) (ass ! i) j)) = sweep getm cb (drop j (bss ! i)) s \<and>
    swept P getm (table_size (getm s)) bss i (sweep getm cb (drop j (bss ! i)) s)"
  using assms(2-)
proof (induction "length (ass ! i) - j" arbitrary: s ass bss j n rule: less_induct)
  case less
  note rep = less.prems(2)
  have ch: "chain (mem (getm s)) (Slot i) (ass ! i) (bss ! i)" if "hm_rep (getm s) ass bss" "i < length bss" for s ass bss
    using that arena_rep_nth(1) by (auto simp: hm_rep_def)
  obtain n' where n: "n = Suc n'" "length (ass ! i) - j + 1 \<le> n'" using less.prems(5) by (cases n) auto
  show ?case
  proof (cases "j < length (bss ! i)")
    case False
    then show ?thesis
      using iter_chain_entry(2) [where getm = getm, OF ch [OF rep less.prems(3)] less.prems(4) False] n(1) less.prems(1) rep
      by (auto intro: sweptI)
  next
    case j: True
    let ?kv = "bss ! i ! j"
    show ?thesis
    proof (cases "cb s (fst ?kv) (snd ?kv)")
      case (Inl x)
      then have "sweep getm cb (drop j (bss ! i)) s = Inl x" using j by (simp add: Cons_nth_drop_Suc [symmetric])
      then show ?thesis using iter_chain_entry(1) [where getm = getm, OF ch [OF rep less.prems(3)] less.prems(4) j] Inl n(1)
        by (simp add: swept_def)
    next
      case (Inr bs)
      obtain b s1 where cb: "cb s (fst ?kv) (snd ?kv) = Inr (b, s1)" using Inr by (cases bs) simp
      have P1: "P s1" using deletes_current_rep [OF assms(1) less.prems(1) rep less.prems(3) j cb] by simp
      obtain ass1 bss1 where r1: "hm_rep (getm s1) ass1 bss1" "bss1 = bss[i := bss1 ! i]" "length bss1 = length bss"
        "table_size (getm s1) = table_size (getm s)" "length (ass1 ! i) \<le> length (ass ! i)" "j \<le> length (ass1 ! i)"
        and sw: "sweep getm cb (drop j (bss ! i)) s = (if b \<noteq> 0 then Inr (b, s1) else sweep getm cb (drop (Suc j) (bss1 ! i)) s1)"
        and it: "\<forall>n. iter_chain (Suc n) getm cb s (Some (nth_ref (Slot i) (ass ! i) j)) =
          (if b \<noteq> 0 then Inr (b, s1) else iter_chain n getm cb s1
            (if j < length (ass1 ! i) then Some (nth_ref (Slot i) (ass1 ! i) (Suc j)) else None))"
        by (rule iter_chain_visit [OF assms(1) less.prems(1) rep less.prems(3) j less.prems(4) cb])
      have end_here: "swept P getm (table_size (getm s)) bss i (Inr (b', s1))" for b' by (rule sweptI [where getm = getm and P = P, OF P1 r1(4,1,2)])
      have i1: "i < length bss1" using r1(3) less.prems(3) by simp
      show ?thesis
      proof (cases "b = 0 \<and> j < length (ass1 ! i)")
        case True
        then have "length (ass1 ! i) - Suc j < length (ass ! i) - j" "Suc j \<le> length (ass1 ! i)"
          "length (ass1 ! i) - Suc j + 2 \<le> n'" using r1(5) n(2) by linarith+
        from less.hyps [OF this(1) P1 r1(1) i1 this(2,3)] True sw it n(1) r1(2,4) show ?thesis
          by (simp add: swept_def) (metis list_update_overwrite)
      next
        case False
        have "drop (Suc j) (bss1 ! i) = []" if "\<not> j < length (ass1 ! i)"
          using chain_lengths [OF ch [OF r1(1) i1]] that by simp
        moreover have "n' = Suc (n' - 1)" using n(2) by simp
        ultimately show ?thesis using False sw it n(1) end_here by (cases "b = 0") (simp_all, metis iter_chain.simps(2))
      qed
    qed
  qed
qed

section \<open>The whole table\<close>

lemma iter_slots_sweep:
  assumes "deletes_current P getm cb" "P s" "hm_rep (getm s) ass bss" "i \<le> length bss"
  shows "iter_slots getm cb (int i) s = sweep_all getm cb (drop i bss) s \<and>
    (\<forall>b s'. sweep_all getm cb (drop i bss) s = Inr (b, s') \<longrightarrow>
      P s' \<and> table_size (getm s') = table_size (getm s) \<and> (\<exists>ass' bss'. hm_rep (getm s') ass' bss'))"
  using assms(2-)
proof (induction "length bss - i" arbitrary: s ass bss i)
  case 0
  then have "i = length bss" by simp
  moreover have "int (length bss) = table_size (getm s)"
    using hm_rep_lengths(1) [OF 0(3)] 0(3) by (simp add: hm_rep_def)
  ultimately show ?case using 0(2,3) by (auto simp: iter_slots.simps)
next
  case (Suc d)
  then have i: "i < length bss" by simp
  note rep = Suc.prems(2)
  have len: "int (length bss) = table_size (getm s)" and ts: "table_size (getm s) \<le> INT_MAX"
    and ar: "arena_rep (mem (getm s)) ass bss"
    using hm_rep_lengths(1) [OF rep] rep by (simp_all add: hm_rep_def)
  have "length (ass ! i) - 0 + 2 \<le> scan_fuel (mem (getm s))"
    using chain_ok_fuel [OF arena_rep_nth(2) [OF ar i]] by simp
  from iter_chain_sweep [OF assms(1) Suc.prems(1) rep i _ this]
  have ch: "iter_chain (scan_fuel (mem (getm s))) getm cb s (Some (Slot i)) = sweep getm cb (bss ! i) s"
    "\<And>b s'. sweep getm cb (bss ! i) s = Inr (b, s') \<Longrightarrow>
      P s' \<and> table_size (getm s') = table_size (getm s) \<and> (\<exists>ass' kvs'. hm_rep (getm s') ass' (bss[i := kvs']))"
    by (auto simp: nth_ref_def swept_def)
  have lt: "int i < table_size (getm s)" "\<not> INT_MAX \<le> int i" using i len ts by linarith+
  have suc: "int i + 1 = int (Suc i)" by simp
  have body: "iter_slots getm cb (int i) s = bind_res (sweep getm cb (bss ! i) s) (\<lambda>(b, s1).
      if b \<noteq> 0 then Inr (b, s1) else iter_slots getm cb (int i + 1) s1)"
    by (subst iter_slots.simps) (use lt in \<open>simp add: ch(1)\<close>)
  note body = body [unfolded suc]
  have dr: "drop i bss = bss ! i # drop (Suc i) bss" using i by (simp add: Cons_nth_drop_Suc)
  show ?case
  proof (cases "sweep getm cb (bss ! i) s")
    case (Inl x)
    then show ?thesis by (simp add: body dr)
  next
    case (Inr bs)
    obtain b s1 where bs: "sweep getm cb (bss ! i) s = Inr (b, s1)" using Inr by (cases bs) auto
    from ch(2) [OF bs] obtain ass' kvs' where P1: "P s1" and r1: "table_size (getm s1) = table_size (getm s)"
      "hm_rep (getm s1) ass' (bss[i := kvs'])" by blast
    have "d = length (bss[i := kvs']) - Suc i" "Suc i \<le> length (bss[i := kvs'])" using Suc.hyps(2) i by simp_all
    from Suc.hyps(1) [OF this(1) P1 r1(2) this(2)] bs r1 P1 show ?thesis by (auto simp: body dr)
  qed
qed

lemma hashmap_iter_sweep:
  assumes "deletes_current P getm cb" "P s" "hm_rep (getm s) ass bss"
  shows "hashmap_iter getm cb s = sweep_all getm cb bss s"
    and "sweep_all getm cb bss s = Inr (b, s') \<Longrightarrow> P s' \<and> (\<exists>ass' bss'. hm_rep (getm s') ass' bss')"
  using iter_slots_sweep [OF assms, of 0] by (auto simp: hashmap_iter_def)

text \<open>
  A rule for such iterations: a state predicate that every call on a bound key keeps, and a
  transitive relation between the states before and after.
\<close>

lemma sweep_rule:
  assumes "distinct (map fst kvs)" "P s" "\<forall>kv \<in> set kvs. hm_lookup (getm s) (fst kv) = Some (snd kv)"
    and "\<forall>s k v. P s \<longrightarrow> hm_lookup (getm s) k = Some v \<longrightarrow> (\<exists>s1. cb s k v = Inr (0, s1) \<and> P s1 \<and> R s s1 \<and>
      (\<forall>k'. k' \<noteq> k \<longrightarrow> hm_lookup (getm s1) k' = hm_lookup (getm s) k'))"
    and "reflp R" "transp R"
  shows "\<exists>s'. sweep getm cb kvs s = Inr (0, s') \<and> P s' \<and> R s s' \<and>
    (\<forall>k. k \<notin> fst ` set kvs \<longrightarrow> hm_lookup (getm s') k = hm_lookup (getm s) k)"
  using assms(1-3)
proof (induction "length kvs" arbitrary: kvs s rule: less_induct)
  case less
  show ?case
  proof (cases kvs)
    case Nil
    with less.prems(2) assms(5) show ?thesis by (auto dest: reflpD)
  next
    case (Cons kv kvs')
    with less.prems(3) have "hm_lookup (getm s) (fst kv) = Some (snd kv)" by simp
    with assms(4) less.prems(2) obtain s1 where s1: "cb s (fst kv) (snd kv) = Inr (0, s1)" "P s1" "R s s1"
      "\<forall>k'. k' \<noteq> fst kv \<longrightarrow> hm_lookup (getm s1) k' = hm_lookup (getm s) k'" by blast
    define rest where "rest = (if hm_lookup (getm s1) (fst kv) = None then tl kvs' else kvs')"
    have sub: "set rest \<subseteq> set kvs'" by (cases kvs') (auto simp: rest_def)
    have "distinct (map fst rest)" using less.prems(1) Cons by (auto simp: rest_def map_tl distinct_tl)
    moreover have "\<forall>kv' \<in> set rest. hm_lookup (getm s1) (fst kv') = Some (snd kv')"
    proof
      fix kv' assume "kv' \<in> set rest"
      then have "kv' \<in> set kvs'" using sub by blast
      then have "kv' \<in> set kvs" "fst kv' \<noteq> fst kv" using less.prems(1) Cons by (auto simp: image_iff)
      with less.prems(3) s1(4) show "hm_lookup (getm s1) (fst kv') = Some (snd kv')" by simp
    qed
    moreover have "length rest < length kvs" using Cons by (auto simp: rest_def)
    ultimately obtain s' where s': "sweep getm cb rest s1 = Inr (0, s')" "P s'" "R s1 s'"
      "\<forall>k. k \<notin> fst ` set rest \<longrightarrow> hm_lookup (getm s') k = hm_lookup (getm s1) k"
      using less.hyps [of rest s1] s1(2) by blast
    have "sweep getm cb kvs s = Inr (0, s')" using Cons s1(1) s'(1) by (simp add: rest_def)
    moreover have "R s s'" using assms(6) s1(3) s'(3) by (rule transpD)
    moreover have "hm_lookup (getm s') k = hm_lookup (getm s) k" if "k \<notin> fst ` set kvs" for k
    proof -
      have "k \<notin> fst ` set rest" "k \<noteq> fst kv" using that sub Cons by auto
      with s'(4) s1(4) show ?thesis by simp
    qed
    ultimately show ?thesis using s'(2) by blast
  qed
qed

lemma sweep_all_rule:
  assumes "distinct (map fst (concat bss))" "P s"
    "\<forall>kv \<in> set (concat bss). hm_lookup (getm s) (fst kv) = Some (snd kv)"
    and "\<forall>s k v. P s \<longrightarrow> hm_lookup (getm s) k = Some v \<longrightarrow> (\<exists>s1. cb s k v = Inr (0, s1) \<and> P s1 \<and> R s s1 \<and>
      (\<forall>k'. k' \<noteq> k \<longrightarrow> hm_lookup (getm s1) k' = hm_lookup (getm s) k'))"
    and "reflp R" "transp R"
  shows "\<exists>s'. sweep_all getm cb bss s = Inr (0, s') \<and> P s' \<and> R s s'"
  using assms(1-3)
proof (induction bss arbitrary: s)
  case Nil
  then show ?case using assms(5) by (auto dest: reflpD)
next
  case (Cons kvs bss)
  have d: "distinct (map fst kvs)" and b: "\<forall>kv \<in> set kvs. hm_lookup (getm s) (fst kv) = Some (snd kv)"
    using Cons.prems(1,3) by auto
  from sweep_rule [OF d Cons.prems(2) b assms(4-6)] obtain s1 where
    s1: "sweep getm cb kvs s = Inr (0, s1)" "P s1" "R s s1"
      "\<forall>k. k \<notin> fst ` set kvs \<longrightarrow> hm_lookup (getm s1) k = hm_lookup (getm s) k" by blast
  have "\<forall>kv \<in> set (concat bss). hm_lookup (getm s1) (fst kv) = Some (snd kv)"
  proof
    fix kv assume kv: "kv \<in> set (concat bss)"
    then have "fst kv \<in> fst ` set (concat bss)" by (rule imageI)
    then have "fst kv \<notin> fst ` set kvs"
      using Cons.prems(1) unfolding concat.simps map_append distinct_append set_map by blast
    with s1(4) Cons.prems(3) kv show "hm_lookup (getm s1) (fst kv) = Some (snd kv)" by simp
  qed
  from Cons.IH [OF _ s1(2) this] Cons.prems(1) obtain s' where "sweep_all getm cb bss s1 = Inr (0, s')" "P s'" "R s1 s'"
    by auto
  with s1 assms(6) show ?case by (auto dest: transpD)
qed

lemma hashmap_iter_rule:
  assumes "deletes_current P getm cb" "hm_inv (getm s)" "P s"
    and "\<forall>s k v. P s \<longrightarrow> hm_lookup (getm s) k = Some v \<longrightarrow> (\<exists>s1. cb s k v = Inr (0, s1) \<and> P s1 \<and> R s s1 \<and>
      (\<forall>k'. k' \<noteq> k \<longrightarrow> hm_lookup (getm s1) k' = hm_lookup (getm s) k'))"
    and "reflp R" "transp R"
  shows "\<exists>s'. hashmap_iter getm cb s = Inr (0, s') \<and> P s' \<and> R s s'"
proof -
  from assms(2) obtain ass bss where rep: "hm_rep (getm s) ass bss" by (auto simp: hm_inv_def)
  then have d: "distinct (map fst (concat bss))" using bss_ok_concat(1) by (auto simp: hm_rep_def)
  then have "\<forall>kv \<in> set (concat bss). hm_lookup (getm s) (fst kv) = Some (snd kv)"
    by (auto simp: hm_lookup_rep(2) [OF rep])
  from sweep_all_rule [OF d assms(3) this assms(4-6)] hashmap_iter_sweep(1) [OF assms(1,3) rep]
  show ?thesis by simp
qed

end
