(* ===== verification/Message.thy ===== *)
theory Message
  imports CMem
begin

text \<open>
  \<^verbatim>\<open>message.h\<close>: the messages both programs exchange.  A message is sent as the 48 bytes of
  \<open>struct message\<close>: the type (an enum, four bytes, unsigned), four bytes of padding before the
  eight-byte aligned union, and the 40 bytes of the union, which each member overlays from
  offset 0.  A member access is a load or a store at its offset in those 40 bytes.
\<close>

section \<open>Types of messages\<close>

datatype e_message_type =
    random_access_request
  | random_access_response
  | rrc_request
  | rrc_setup
  | rrc_complete
  | ue_battery_low
  | ue_battery_high
  | ping
  | pong
  | ue_off
  | enb_off
  | measurement_control_request
  | measurement_report
  | data_start
  | data
  | data_end

definition message_types :: "e_message_type list" where
  "message_types =
    [random_access_request, random_access_response, rrc_request, rrc_setup, rrc_complete,
     ue_battery_low, ue_battery_high, ping, pong, ue_off, enb_off, measurement_control_request,
     measurement_report, data_start, data, data_end]"

text \<open>The value of an enumerator is its position.\<close>

fun msg_code :: "e_message_type \<Rightarrow> int" where
  "msg_code random_access_request = 0"
| "msg_code random_access_response = 1"
| "msg_code rrc_request = 2"
| "msg_code rrc_setup = 3"
| "msg_code rrc_complete = 4"
| "msg_code ue_battery_low = 5"
| "msg_code ue_battery_high = 6"
| "msg_code ping = 7"
| "msg_code pong = 8"
| "msg_code ue_off = 9"
| "msg_code enb_off = 10"
| "msg_code measurement_control_request = 11"
| "msg_code measurement_report = 12"
| "msg_code data_start = 13"
| "msg_code data = 14"
| "msg_code data_end = 15"

text \<open>The label a \<open>switch\<close> on a type value jumps to; \<open>None\<close> is \<open>default\<close>.\<close>

definition msg_label :: "int \<Rightarrow> e_message_type option" where
  "msg_label c = (if 0 \<le> c \<and> c < 16 then Some (message_types ! nat c) else None)"

lemma msg_label_code [simp]: "msg_label (msg_code t) = Some t"
  by (cases t) (simp_all add: msg_label_def message_types_def)

lemma msg_code_range: "0 \<le> msg_code t \<and> msg_code t < 16"
  by (cases t) simp_all

lemma msg_code_inject [simp]: "msg_code s = msg_code t \<longleftrightarrow> s = t"
  by (metis msg_label_code option.inject)

lemma msg_label_Some: "msg_label c = Some t \<longleftrightarrow> c = msg_code t"
proof
  assume "msg_label c = Some t"
  then have c: "c \<in> {0..<16}" and t: "message_types ! nat c = t" by (auto simp: msg_label_def split: if_splits)
  have "{0..<16 :: int} = set [0..15]" by auto
  with c have "c \<in> set [0..15]" by simp
  then have "c \<in> {0, 1, 2, 3, 4, 5, 6, 7, 8, 9, 10, 11, 12, 13, 14, 15}" by (simp add: upto.simps)
  then show "c = msg_code t" unfolding t [symmetric] message_types_def by auto
qed simp

text \<open>The enumerators are ordered as the C enum orders them.\<close>

instantiation e_message_type :: linorder
begin

definition less_eq_e_message_type :: "e_message_type \<Rightarrow> e_message_type \<Rightarrow> bool" where
  "s \<le> t \<longleftrightarrow> msg_code s \<le> msg_code t"

definition less_e_message_type :: "e_message_type \<Rightarrow> e_message_type \<Rightarrow> bool" where
  "s < t \<longleftrightarrow> msg_code s < msg_code t"

instance
  by standard (auto simp: less_eq_e_message_type_def less_e_message_type_def)

end

datatype e_ec = EMERGENCY | HIGH_PRIORITY_ACCESS | MT_ACCESS | MO_SIGNALING | MO_DATA

datatype e_CyclicPrefix = Normal | Abnormal

datatype e_Hopping = Off | On

datatype s_event = a1 | a2 | a3 | a4 | def

fun ec_code :: "e_ec \<Rightarrow> int" where
  "ec_code EMERGENCY = 0"
| "ec_code HIGH_PRIORITY_ACCESS = 1"
| "ec_code MT_ACCESS = 2"
| "ec_code MO_SIGNALING = 3"
| "ec_code MO_DATA = 4"

fun cp_code :: "e_CyclicPrefix \<Rightarrow> int" where
  "cp_code Normal = 0"
| "cp_code Abnormal = 1"

fun hopping_code :: "e_Hopping \<Rightarrow> int" where
  "hopping_code Off = 0"
| "hopping_code On = 1"

fun event_code :: "s_event \<Rightarrow> int" where
  "event_code a1 = 0"
| "event_code a2 = 1"
| "event_code a3 = 2"
| "event_code a4 = 3"
| "event_code def = 4"

section \<open>Messages as bytes\<close>

record s_message =
  message_type :: int
  message_padding :: "byte list"
  message_value :: "byte list"

definition sizeof_value :: nat where "sizeof_value = 40"
definition sizeof_message :: nat where "sizeof_message = 48"

definition wf_message :: "s_message \<Rightarrow> bool" where
  "wf_message m \<longleftrightarrow> 0 \<le> message_type m \<and> message_type m < 2 ^ 32 \<and>
    length (message_padding m) = 4 \<and> length (message_value m) = sizeof_value"

definition msg_bytes :: "s_message \<Rightarrow> byte list" where
  "msg_bytes m = le_bytes 4 (message_type m) @ message_padding m @ message_value m"

definition msg_of_bytes :: "byte list \<Rightarrow> s_message" where
  "msg_of_bytes bs =
    \<lparr>message_type = load_u bs 0 4, message_padding = take 4 (drop 4 bs), message_value = drop 8 bs\<rparr>"

text \<open>\<open>memset(&m, 0, sizeof(m))\<close>.\<close>

definition zero_message :: s_message where
  "zero_message = \<lparr>message_type = 0, message_padding = replicate 4 0, message_value = replicate sizeof_value 0\<rparr>"

text \<open>Receiving \<open>bs\<close> (at most 48 bytes) into a message overwrites its first bytes.\<close>

definition recv_into :: "s_message \<Rightarrow> byte list \<Rightarrow> s_message" where
  "recv_into m bs = msg_of_bytes (bs @ drop (length bs) (msg_bytes m))"

text \<open>An assignment to \<open>m->message_type\<close>.\<close>

definition set_type :: "s_message \<Rightarrow> e_message_type \<Rightarrow> s_message" where
  "set_type m t = m\<lparr>message_type := msg_code t\<rparr>"

section \<open>Members of the union\<close>

record preamble =
  ra_rnti :: int

record s_stmsi =
  mme_code :: int
  mtmsi :: int

record rrc_config =
  NULRB :: int
  NSubframe :: int
  NCellID :: int
  RNTI :: int
  cyclic_prefix :: e_CyclicPrefix
  hopping :: e_Hopping
  SegGroup :: int
  CyclicShift :: int
  ShortEnd :: int

definition BUFFER_SIZE :: nat where "BUFFER_SIZE = 16"

text \<open>Updating the union of a message.\<close>

definition upd_value :: "(byte list \<Rightarrow> byte list) \<Rightarrow> s_message \<Rightarrow> s_message" where
  "upd_value f m = m\<lparr>message_value := f (message_value m)\<rparr>"

text \<open>\<open>struct prach_preamble\<close>: \<open>int16_t ra_rnti\<close> at 0.\<close>

definition get_preamble :: "s_message \<Rightarrow> preamble" where
  "get_preamble m = \<lparr>ra_rnti = load_s (message_value m) 0 2\<rparr>"

definition set_preamble :: "preamble \<Rightarrow> s_message \<Rightarrow> s_message" where
  "set_preamble p = upd_value (\<lambda>v. store_int v 0 2 (ra_rnti p))"

text \<open>\<open>struct prach_response\<close>: \<open>int8_t rapid\<close> at 0, \<open>time_t\<close> at 8.\<close>

definition get_rapid :: "s_message \<Rightarrow> int" where
  "get_rapid m = load_s (message_value m) 0 1"

definition set_rapid :: "int \<Rightarrow> s_message \<Rightarrow> s_message" where
  "set_rapid x = upd_value (\<lambda>v. store_int v 0 1 x)"

definition get_timestamp :: "s_message \<Rightarrow> int" where
  "get_timestamp m = load_s (message_value m) 8 8"

definition set_timestamp :: "int \<Rightarrow> s_message \<Rightarrow> s_message" where
  "set_timestamp x = upd_value (\<lambda>v. store_int v 8 8 x)"

text \<open>\<open>struct rrc_req\<close>: \<open>int8_t c_rnti\<close> at 0, \<open>s_stmsi ue_identity\<close> at 4 (\<open>u_int8_t mme_code\<close>
  at 4, \<open>u_int32_t mtmsi\<close> at 8), \<open>e_ec establishment_cause\<close> at 12.\<close>

definition get_c_rnti :: "s_message \<Rightarrow> int" where
  "get_c_rnti m = load_s (message_value m) 0 1"

definition set_c_rnti :: "int \<Rightarrow> s_message \<Rightarrow> s_message" where
  "set_c_rnti x = upd_value (\<lambda>v. store_int v 0 1 x)"

definition get_ue_identity :: "s_message \<Rightarrow> s_stmsi" where
  "get_ue_identity m = \<lparr>mme_code = load_u (message_value m) 4 1, mtmsi = load_u (message_value m) 8 4\<rparr>"

definition set_ue_identity :: "s_stmsi \<Rightarrow> s_message \<Rightarrow> s_message" where
  "set_ue_identity u = upd_value (\<lambda>v. store_int (store_int v 4 1 (mme_code u)) 8 4 (mtmsi u))"

definition get_establishment_cause :: "s_message \<Rightarrow> int" where
  "get_establishment_cause m = load_u (message_value m) 12 4"

definition set_establishment_cause :: "e_ec \<Rightarrow> s_message \<Rightarrow> s_message" where
  "set_establishment_cause c = upd_value (\<lambda>v. store_int v 12 4 (ec_code c))"

text \<open>\<open>struct rrc_config\<close>: nine four-byte members from 0.\<close>

definition rrc_config_words :: "rrc_config \<Rightarrow> int list" where
  "rrc_config_words c =
    [NULRB c, NSubframe c, NCellID c, RNTI c, cp_code (cyclic_prefix c), hopping_code (hopping c),
     SegGroup c, CyclicShift c, ShortEnd c]"

definition set_rrc_response :: "rrc_config \<Rightarrow> s_message \<Rightarrow> s_message" where
  "set_rrc_response c = upd_value (\<lambda>v. store v 0 (concat (map (le_bytes 4) (rrc_config_words c))))"

text \<open>The \<open>int\<close> member at position \<open>i\<close>.\<close>

definition get_rrc_response :: "s_message \<Rightarrow> nat \<Rightarrow> int" where
  "get_rrc_response m i = load_s (message_value m) (4 * i) 4"

text \<open>\<open>struct rrc_setup_complete\<close>: \<open>int16_t mcc\<close> at 0, \<open>int16_t mnc\<close> at 2.\<close>

definition get_mcc :: "s_message \<Rightarrow> int" where
  "get_mcc m = load_s (message_value m) 0 2"

definition get_mnc :: "s_message \<Rightarrow> int" where
  "get_mnc m = load_s (message_value m) 2 2"

definition set_mcc :: "int \<Rightarrow> s_message \<Rightarrow> s_message" where
  "set_mcc x = upd_value (\<lambda>v. store_int v 0 2 x)"

definition set_mnc :: "int \<Rightarrow> s_message \<Rightarrow> s_message" where
  "set_mnc x = upd_value (\<lambda>v. store_int v 2 2 x)"

text \<open>\<open>unsigned char buffer[16]\<close> and \<open>s_event events\<close>, both at 0.\<close>

definition get_buffer :: "s_message \<Rightarrow> byte list" where
  "get_buffer m = take BUFFER_SIZE (message_value m)"

definition set_buffer :: "byte list \<Rightarrow> s_message \<Rightarrow> s_message" where
  "set_buffer bs = upd_value (\<lambda>v. store v 0 bs)"

definition get_events :: "s_message \<Rightarrow> int" where
  "get_events m = load_u (message_value m) 0 4"

definition set_events :: "s_event \<Rightarrow> s_message \<Rightarrow> s_message" where
  "set_events e = upd_value (\<lambda>v. store_int v 0 4 (event_code e))"

section \<open>Round trips\<close>

lemma sizeof_simps [simp]: "sizeof_value = 40" "sizeof_message = 48" "BUFFER_SIZE = 16"
  by (simp_all add: sizeof_value_def sizeof_message_def BUFFER_SIZE_def)

lemma length_msg_bytes [simp]: "wf_message m \<Longrightarrow> length (msg_bytes m) = 48"
  by (simp add: wf_message_def msg_bytes_def)

lemma load_u_append: "length bs = n \<Longrightarrow> load_u (bs @ xs) 0 n = le_val bs"
  by (simp add: load_u_def)

lemma msg_of_bytes_msg_bytes: "wf_message m \<Longrightarrow> msg_of_bytes (msg_bytes m) = m"
  by (simp add: wf_message_def msg_bytes_def msg_of_bytes_def load_u_append le_val_le_bytes)

lemma msg_bytes_msg_of_bytes:
  assumes "length bs = 48"
  shows "msg_bytes (msg_of_bytes bs) = bs"
proof -
  have "le_bytes 4 (load_u bs 0 4) = take 4 bs"
    using assms le_bytes_le_val [of "take 4 bs"] by (simp add: load_u_def)
  moreover have "bs = take 4 bs @ take 4 (drop 4 bs) @ drop 8 bs"
    by (metis append_take_drop_id drop_drop numeral_Bit0)
  ultimately show ?thesis by (simp add: msg_bytes_def msg_of_bytes_def)
qed

lemma wf_msg_of_bytes: "length bs = 48 \<Longrightarrow> wf_message (msg_of_bytes bs)"
  using load_u_bounds [of bs 0 4] by (simp add: wf_message_def msg_of_bytes_def)

lemma wf_recv_into: "wf_message m \<Longrightarrow> length bs \<le> 48 \<Longrightarrow> wf_message (recv_into m bs)"
  unfolding recv_into_def by (rule wf_msg_of_bytes) simp

lemma recv_into_whole [simp]: "wf_message m \<Longrightarrow> wf_message x \<Longrightarrow> recv_into m (msg_bytes x) = x"
  by (simp add: recv_into_def msg_of_bytes_msg_bytes)

lemma recv_into_nothing [simp]: "wf_message m \<Longrightarrow> recv_into m [] = m"
  by (simp add: recv_into_def msg_of_bytes_msg_bytes)

section \<open>Well-formedness of the accessors\<close>

lemma wf_zero_message [simp]: "wf_message zero_message"
  by (simp add: wf_message_def zero_message_def)

lemma wf_set_type [simp]: "wf_message m \<Longrightarrow> wf_message (set_type m t)"
  using msg_code_range [of t] by (auto simp: wf_message_def set_type_def)

lemma wf_upd_value: "wf_message m \<Longrightarrow> length (f (message_value m)) = 40 \<Longrightarrow> wf_message (upd_value f m)"
  by (simp add: wf_message_def upd_value_def)

lemma type_upd_value [simp]: "message_type (upd_value f m) = message_type m"
  by (simp add: upd_value_def)

lemma type_set_type [simp]: "message_type (set_type m t) = msg_code t"
  by (simp add: set_type_def)

lemma value_set_type [simp]: "message_value (set_type m t) = message_value m"
  by (simp add: set_type_def)

named_theorems msg_access \<open>definitions of the accessors of the union\<close>

lemmas [msg_access] = get_preamble_def set_preamble_def get_rapid_def set_rapid_def
  get_timestamp_def set_timestamp_def get_c_rnti_def set_c_rnti_def get_ue_identity_def
  set_ue_identity_def get_establishment_cause_def set_establishment_cause_def
  set_rrc_response_def get_rrc_response_def get_mcc_def get_mnc_def set_mcc_def set_mnc_def
  get_buffer_def set_buffer_def get_events_def set_events_def

lemma wf_setters [simp]:
  assumes "wf_message m"
  shows "wf_message (set_preamble p m)" "wf_message (set_rapid x m)" "wf_message (set_timestamp x m)"
    "wf_message (set_c_rnti x m)" "wf_message (set_ue_identity u m)" "wf_message (set_establishment_cause c m)"
    "wf_message (set_rrc_response r m)" "wf_message (set_mcc x m)" "wf_message (set_mnc x m)"
    "length bs \<le> 40 \<Longrightarrow> wf_message (set_buffer bs m)" "wf_message (set_events e m)"
  using assms by (auto simp: msg_access wf_message_def upd_value_def rrc_config_words_def)

lemma type_setters [simp]:
  "message_type (set_preamble p m) = message_type m" "message_type (set_rapid x m) = message_type m"
  "message_type (set_timestamp x m) = message_type m" "message_type (set_c_rnti x m) = message_type m"
  "message_type (set_ue_identity u m) = message_type m"
  "message_type (set_establishment_cause c m) = message_type m"
  "message_type (set_rrc_response r m) = message_type m" "message_type (set_mcc x m) = message_type m"
  "message_type (set_mnc x m) = message_type m" "message_type (set_buffer bs m) = message_type m"
  "message_type (set_events e m) = message_type m"
  by (simp_all add: msg_access)

lemma value_length: "wf_message m \<Longrightarrow> length (message_value m) = 40"
  by (simp add: wf_message_def)

section \<open>What is stored is read back\<close>

lemma get_set_type [simp]:
  "get_preamble (set_type m t) = get_preamble m" "get_rapid (set_type m t) = get_rapid m"
  "get_timestamp (set_type m t) = get_timestamp m" "get_c_rnti (set_type m t) = get_c_rnti m"
  "get_ue_identity (set_type m t) = get_ue_identity m" "get_mcc (set_type m t) = get_mcc m"
  "get_mnc (set_type m t) = get_mnc m" "get_buffer (set_type m t) = get_buffer m"
  "get_events (set_type m t) = get_events m" "get_rrc_response (set_type m t) i = get_rrc_response m i"
  "get_establishment_cause (set_type m t) = get_establishment_cause m"
  by (simp_all add: msg_access)

lemma get_set_preamble:
  "wf_message m \<Longrightarrow> ra_rnti (get_preamble (set_preamble p m)) = to_int16 (ra_rnti p)"
  by (simp add: msg_access upd_value_def load_s_store_same value_length to_int16_def)

lemma get_set_response:
  assumes "wf_message m"
  shows "get_rapid (set_rapid x m) = to_int8 x" "get_timestamp (set_rapid x m) = get_timestamp m"
    "get_rapid (set_timestamp t m) = get_rapid m"
    "get_timestamp (set_timestamp t m) = signed_take_bit 63 t"
  using value_length [OF assms]
  by (simp_all add: msg_access upd_value_def load_s_store_same load_s_store_other to_int8_def)

lemma get_set_request:
  assumes "wf_message m"
  shows "get_c_rnti (set_c_rnti x m) = to_int8 x" "get_c_rnti (set_ue_identity u m) = get_c_rnti m"
    "get_c_rnti (set_establishment_cause c m) = get_c_rnti m"
    "get_ue_identity (set_ue_identity u m) = \<lparr>mme_code = to_uint8 (mme_code u), mtmsi = to_uint32 (mtmsi u)\<rparr>"
    "get_ue_identity (set_establishment_cause c m) = get_ue_identity m"
    "get_establishment_cause (set_establishment_cause c m) = ec_code c"
proof -
  have c: "ec_code c mod 4294967296 = ec_code c" by (cases c) simp_all
  show "get_c_rnti (set_c_rnti x m) = to_int8 x" "get_c_rnti (set_ue_identity u m) = get_c_rnti m"
    "get_c_rnti (set_establishment_cause c m) = get_c_rnti m"
    "get_ue_identity (set_ue_identity u m) = \<lparr>mme_code = to_uint8 (mme_code u), mtmsi = to_uint32 (mtmsi u)\<rparr>"
    "get_ue_identity (set_establishment_cause c m) = get_ue_identity m"
    "get_establishment_cause (set_establishment_cause c m) = ec_code c"
    using value_length [OF assms]
    by (simp_all add: msg_access upd_value_def load_s_store_same load_s_store_other load_u_store_same
        load_u_store_other to_int8_def to_uint8_def to_uint32_def take_bit_eq_mod c)
qed

lemma get_set_complete:
  assumes "wf_message m"
  shows "get_mcc (set_mcc x m) = to_int16 x" "get_mcc (set_mnc y m) = get_mcc m"
    "get_mnc (set_mnc y m) = to_int16 y"
  using value_length [OF assms]
  by (simp_all add: msg_access upd_value_def load_s_store_same load_s_store_other to_int16_def)

lemma get_set_buffer: "wf_message m \<Longrightarrow> length bs = 16 \<Longrightarrow> get_buffer (set_buffer bs m) = bs"
  by (simp add: msg_access upd_value_def store_def value_length)

lemma get_set_events: "wf_message m \<Longrightarrow> get_events (set_events e m) = event_code e"
  by (cases e) (simp_all add: msg_access upd_value_def load_u_store_same value_length)

lemma concat_le_bytes_nth:
  "i < length xs \<Longrightarrow> take 4 (drop (4 * i) (concat (map (le_bytes 4) xs))) = le_bytes 4 (xs ! i)"
proof (induction xs arbitrary: i)
  case Nil
  then show ?case by simp
next
  case (Cons x xs)
  then show ?case
    by (cases i) (simp_all add: drop_append take_append del: le_bytes.simps)
qed

lemma get_set_rrc_response:
  assumes "wf_message m" "i < 9"
  shows "get_rrc_response (set_rrc_response c m) i = signed_take_bit 31 (rrc_config_words c ! i)"
proof -
  let ?bs = "concat (map (le_bytes 4) (rrc_config_words c))"
  have l: "length ?bs = 36" "length (rrc_config_words c) = 9" by (simp_all add: rrc_config_words_def)
  have i: "4 * i + 4 \<le> 36" using assms(2) by simp
  have "take 4 (drop (4 * i) (store (message_value m) 0 ?bs)) = take 4 (drop (4 * i) ?bs)"
    using i l by (simp add: store_def drop_append take_append)
  then have "load_u (store (message_value m) 0 ?bs) (4 * i) 4 = rrc_config_words c ! i mod 256 ^ 4"
    using assms(2) by (simp add: load_u_def concat_le_bytes_nth l(2) le_val_le_bytes del: le_bytes.simps)
  then have "load_u (store (message_value m) 0 ?bs) (4 * i) 4 = take_bit 32 (rrc_config_words c ! i)"
    by (simp add: take_bit_eq_mod)
  then show ?thesis
    by (simp add: msg_access upd_value_def load_s_def signed_take_bit_take_bit)
qed

end
