(* ===== verification/Env.thy ===== *)
theory Env
  imports Message "HOL-Library.Signed_Division"
begin

text \<open>
  What the program sees of the operating system: the readings of \<open>time\<close> and \<open>rand\<close>, the results
  of \<open>send\<close>/\<open>write\<close>, \<open>recv\<close>/\<open>read\<close> and \<open>close\<close>, each as an arbitrary sequence of which every call takes the
  next element, and what the program does to it: the messages it has handed over and the
  descriptors it has closed.  Nothing is assumed about the sequences here; a theorem that needs a
  monotone clock or a socket that accepts messages says so.
\<close>

record net =
  clock :: "nat \<Rightarrow> int"
  readings :: nat
  rand_res :: "nat \<Rightarrow> int"
  rands :: nat
  write_res :: "nat \<Rightarrow> int"
  writes :: nat
  outbox :: "(int \<times> s_message) list"
  recv_res :: "nat \<Rightarrow> byte list option"
  recvs :: nat
  close_res :: "nat \<Rightarrow> int"
  closed :: "int list"

text \<open>\<open>time(NULL)\<close> and \<open>rand()\<close>; \<open>rand\<close> is documented never to be negative (\<open>rand_ok\<close>).\<close>

definition time_now :: "net \<Rightarrow> int \<times> net" where
  "time_now w = (clock w (readings w), w\<lparr>readings := Suc (readings w)\<rparr>)"

definition c_rand :: "net \<Rightarrow> int \<times> net" where
  "c_rand w = (rand_res w (rands w), w\<lparr>rands := Suc (rands w)\<rparr>)"

definition rand_ok :: "net \<Rightarrow> bool" where
  "rand_ok w \<longleftrightarrow> (\<forall>n. 0 \<le> rand_res w n \<and> rand_res w n \<le> INT_MAX)"

lemma smod_nonneg: "0 \<le> (x :: int) \<Longrightarrow> 0 < n \<Longrightarrow> x smod n = x mod n"
  by (cases "x = 0") (simp_all add: smod_int_alt_def)

text \<open>
  \<open>write(fd, m, sizeof(*m))\<close> and \<open>send(fd, m, sizeof(*m), 0)\<close>: -1 if nothing was taken, else the
  message is in the outbox.
\<close>

definition write_msg :: "int \<Rightarrow> s_message \<Rightarrow> net \<Rightarrow> int \<times> net" where
  "write_msg fd m w =
    (let r = write_res w (writes w)
     in (r, w\<lparr>writes := Suc (writes w),
              outbox := (if r = -1 then outbox w else outbox w @ [(fd, m)])\<rparr>))"

text \<open>\<open>recv(fd, m, sizeof(*m), flags)\<close> and \<open>read\<close>: \<open>None\<close> for -1, else the bytes that came in, at most
  the size of a message; no byte at all when the peer has closed.\<close>

definition recv_bytes :: "net \<Rightarrow> byte list option \<times> net" where
  "recv_bytes w = (map_option (take sizeof_message) (recv_res w (recvs w)), w\<lparr>recvs := Suc (recvs w)\<rparr>)"

definition close_fd :: "int \<Rightarrow> net \<Rightarrow> int \<times> net" where
  "close_fd fd w = (close_res w (length (closed w)), w\<lparr>closed := closed w @ [fd]\<rparr>)"

text \<open>The messages handed over between two states.\<close>

definition sent_since :: "net \<Rightarrow> net \<Rightarrow> (int \<times> s_message) list" where
  "sent_since w w' = drop (length (outbox w)) (outbox w')"

text \<open>The parts of the operating system that are given, and those that only grow.\<close>

definition same_env :: "net \<Rightarrow> net \<Rightarrow> bool" where
  "same_env w w' \<longleftrightarrow> clock w' = clock w \<and> rand_res w' = rand_res w \<and> write_res w' = write_res w \<and>
    recv_res w' = recv_res w \<and> close_res w' = close_res w"

lemma same_env_refl [simp]: "same_env w w"
  by (simp add: same_env_def)

lemma same_env_trans: "same_env w1 w2 \<Longrightarrow> same_env w2 w3 \<Longrightarrow> same_env w1 w3"
  by (simp add: same_env_def)

text \<open>A socket on which nothing fails.\<close>

definition writes_ok :: "net \<Rightarrow> bool" where
  "writes_ok w \<longleftrightarrow> (\<forall>n. write_res w n \<noteq> -1)"

named_theorems env_defs \<open>the operating system calls, for evaluation\<close>

lemmas [env_defs] = time_now_def c_rand_def write_msg_def recv_bytes_def close_fd_def Let_def

lemma writes_okD: "writes_ok w \<Longrightarrow> write_res w n \<noteq> -1"
  by (simp add: writes_ok_def)

lemma write_msg_ok:
  "writes_ok w \<Longrightarrow> write_msg fd m w = (write_res w (writes w), w\<lparr>writes := Suc (writes w), outbox := outbox w @ [(fd, m)]\<rparr>)"
  by (simp add: write_msg_def writes_ok_def Let_def)

text \<open>A network that takes every message and delivers none, for examples.\<close>

definition quiet_net :: "(nat \<Rightarrow> int) \<Rightarrow> net" where
  "quiet_net c = \<lparr>clock = c, readings = 0, rand_res = (\<lambda>n. 14), rands = 0, write_res = (\<lambda>_. 48), writes = 0,
     outbox = [], recv_res = (\<lambda>_. None), recvs = 0, close_res = (\<lambda>_. 0), closed = []\<rparr>"

lemma quiet_net_ok [simp]: "writes_ok (quiet_net c)" "rand_ok (quiet_net c)"
  by (simp_all add: quiet_net_def writes_ok_def rand_ok_def)

end
