(* ===== verification/Client_Object.thy ===== *)
theory Client_Object
  imports Hashmap_Props Hashmap_Sweep Decimal Env
begin

text \<open>
  \<^verbatim>\<open>serverLTE/client_object.c\<close> with the state declared in \<^verbatim>\<open>client_object.h\<close> and \<^verbatim>\<open>server.h\<close>: the clients are
  heap objects whose addresses are the values of the hash table, keyed by the decimal text of
  their socket; the table is a pointer that is null before \<open>init_server\<close> and dangling after
  \<open>server_t__destroy\<close>.
\<close>

section \<open>State\<close>

text \<open>
  An object of the enumeration type is 32 bits wide; in memory that has not been initialised it may hold any value,
  also one that no enumerator has.
\<close>

type_synonym battery_state_t = int

definition OK :: battery_state_t where "OK = 0"
definition LOW :: battery_state_t where "LOW = 1"

lemma battery_states_differ [simp]: "OK \<noteq> LOW" "LOW \<noteq> OK"
  by (simp_all add: OK_def LOW_def)

record client_t =
  rnti :: int
  preamble_index :: int
  first_connection_timestamp :: int
  last_activity :: int
  mcc :: int
  mnc :: int
  battery_state :: battery_state_t
  client_socket :: int

datatype map_ptr = NullMap | FreedMap | LiveMap "addr hashmap"

text \<open>
  \<open>watched\<close> are the descriptors registered with epoll (the kernel drops a descriptor when it is
  closed).  The results of \<open>accept\<close> and \<open>epoll_ctl\<close>, the contents of a fresh \<open>malloc\<close> block, the value
  a \<open>void\<close> callback leaves in the return register, the \<open>errno\<close> an error is reported with and
  whether the pinging thread is between two passes when it is joined are given by the environment.
\<close>

record server_t =
  server_socket :: int
  epoll_file_descriptor :: int
  event_fd :: int
  events :: "int list"
  clients :: map_ptr
  heap :: "addr \<rightharpoonup> client_t"
  next_addr :: addr
  watched :: "int set"
  threads_done :: bool
  exit_status :: "int option"
  srv_net :: net
  accepts :: nat
  accept_res :: "nat \<Rightarrow> int"
  epoll_ctl_res :: "nat \<Rightarrow> int"
  malloc_junk :: "nat \<Rightarrow> client_t"
  void_ret :: "int \<Rightarrow> int"
  errno_eintr :: bool
  late_pass :: bool

definition the_clients :: "server_t \<Rightarrow> addr hashmap res" where
  "the_clients s = (case clients s of NullMap \<Rightarrow> Inl NullDeref | FreedMap \<Rightarrow> Inl Dangling | LiveMap m \<Rightarrow> Inr m)"

definition map_of_server :: "server_t \<Rightarrow> addr hashmap" where
  "map_of_server s = (case clients s of LiveMap m \<Rightarrow> m | _ \<Rightarrow> \<lparr>count = 0, table_size = 0, max_size = 0,
    mem = \<lparr>slots = [], nodes = Map.empty, fresh = 0\<rparr>\<rparr>)"

text \<open>Dereferencing a \<open>client_t *\<close>, to read and to write.\<close>

definition read_client :: "server_t \<Rightarrow> addr option \<Rightarrow> client_t res" where
  "read_client s p =
    (case p of None \<Rightarrow> Inl NullDeref
     | Some a \<Rightarrow> (case heap s a of None \<Rightarrow> Inl Dangling | Some c \<Rightarrow> Inr c))"

definition upd_client :: "(client_t \<Rightarrow> client_t) \<Rightarrow> addr option \<Rightarrow> server_t \<Rightarrow> server_t res" where
  "upd_client f p s =
    bind_res (read_client s p) (\<lambda>c. Inr (s\<lparr>heap := (heap s)(the p \<mapsto> f c)\<rparr>))"

text \<open>\<open>free(value)\<close> of a value pointer; freeing null does nothing.\<close>

definition free_client :: "addr option \<Rightarrow> server_t \<Rightarrow> server_t res" where
  "free_client p s =
    (case p of None \<Rightarrow> Inr s
     | Some a \<Rightarrow> (case heap s a of None \<Rightarrow> Inl Dangling | Some c \<Rightarrow> Inr (s\<lparr>heap := (heap s)(a := None)\<rparr>)))"

definition srv_close :: "int \<Rightarrow> server_t \<Rightarrow> server_t" where
  "srv_close fd s = (let (r, w) = close_fd fd (srv_net s) in s\<lparr>srv_net := w, watched := watched s - {fd}\<rparr>)"

definition srv_send :: "int \<Rightarrow> s_message \<Rightarrow> server_t \<Rightarrow> int \<times> server_t" where
  "srv_send fd m s = (let (r, w) = write_msg fd m (srv_net s) in (r, s\<lparr>srv_net := w\<rparr>))"

definition srv_time :: "server_t \<Rightarrow> int \<times> server_t" where
  "srv_time s = (let (t, w) = time_now (srv_net s) in (t, s\<lparr>srv_net := w\<rparr>))"

text \<open>A difference of type \<open>time_t\<close> (64 bits, signed) that must be representable.\<close>

definition c_time_t :: "int \<Rightarrow> int res" where
  "c_time_t x = (if - (2 ^ 63) \<le> x \<and> x < 2 ^ 63 then Inr x else Inl IntOverflow)"

text \<open>Times of which the difference always is.\<close>

definition time_ok :: "int \<Rightarrow> bool" where
  "time_ok t \<longleftrightarrow> - (2 ^ 62) \<le> t \<and> t < 2 ^ 62"

lemma c_time_t_ok [simp]: "time_ok t \<Longrightarrow> time_ok u \<Longrightarrow> c_time_t (t - u) = Inr (t - u)"
  by (simp add: c_time_t_def time_ok_def)

definition clock_ok :: "net \<Rightarrow> bool" where
  "clock_ok w \<longleftrightarrow> (\<forall>n. time_ok (clock w n))"

lemma clock_okD: "clock_ok w \<Longrightarrow> time_ok (clock w n)"
  by (simp add: clock_ok_def)

section \<open>Operations\<close>

text \<open>\<open>char key[8]; sprintf(key, "%d", socket)\<close>: the text and its terminator must fit.\<close>

definition socket_key :: "int \<Rightarrow> string res" where
  "socket_key socket =
    (let key = sprintf_d socket in if length key < 8 then Inr key else Inl OutOfBounds)"

text \<open>\<open>None\<close> is the null pointer.\<close>

definition get_client_by_socket :: "server_t \<Rightarrow> int \<Rightarrow> addr option res" where
  "get_client_by_socket s socket =
    bind_res (socket_key socket) (\<lambda>key.
    bind_res (the_clients s) (\<lambda>m.
    bind_res (hashmap_get m key) (\<lambda>r.
      case r of None \<Rightarrow> Inr None | Some searched_client \<Rightarrow> Inr searched_client)))"

definition put_client_in_hashmap :: "int \<Rightarrow> addr option \<Rightarrow> server_t \<Rightarrow> server_t res" where
  "put_client_in_hashmap socket client_inserted s =
    bind_res (socket_key socket) (\<lambda>key.
    bind_res (the_clients s) (\<lambda>m.
    bind_res (hashmap_put m key client_inserted) (\<lambda>(r, m1). Inr (s\<lparr>clients := LiveMap m1\<rparr>))))"

definition delete_client_from_hashmap :: "int \<Rightarrow> server_t \<Rightarrow> server_t res" where
  "delete_client_from_hashmap socket s =
    bind_res (socket_key socket) (\<lambda>key.
    bind_res (the_clients s) (\<lambda>m.
    bind_res (hashmap_delete m key) (\<lambda>(r, m1).
      case r of
        None \<Rightarrow> Inr (s\<lparr>clients := LiveMap m1\<rparr>)
      | Some value \<Rightarrow> free_client value (s\<lparr>clients := LiveMap m1\<rparr>))))"

text \<open>
  \<open>hashmap_iter(server.clients, cb, ...)\<close>.  \<open>close_client_socket\<close> returns \<open>void\<close> but is called through a
  pointer to a function returning \<open>int\<close>.
\<close>

definition iter_clients ::
  "(server_t \<Rightarrow> string \<Rightarrow> addr option \<Rightarrow> (int \<times> server_t) res) \<Rightarrow> server_t \<Rightarrow> (int \<times> server_t) res"
where
  "iter_clients cb s = bind_res (the_clients s) (\<lambda>_. hashmap_iter map_of_server cb s)"

definition close_client_socket :: "server_t \<Rightarrow> string \<Rightarrow> addr option \<Rightarrow> (int \<times> server_t) res" where
  "close_client_socket s key v =
    (let client_socket = atoi key in Inr (void_ret s client_socket, srv_close client_socket s))"

definition close_clients_sockets :: "server_t \<Rightarrow> server_t res" where
  "close_clients_sockets s = bind_res (iter_clients close_client_socket s) (\<lambda>(r, s1). Inr s1)"

end
