(* ===== verification/Client_Handler.thy ===== *)
theory Client_Handler
  imports Client_Object
begin

text \<open>
  \<^verbatim>\<open>serverLTE/client_handler.c\<close>: updating a client after random access, and the two callbacks of the
  shutdown notice and of the inactivity timeout.
\<close>

definition PING_TIME_NORMAL :: int where "PING_TIME_NORMAL = 5"
definition PING_TIME_LOW_BATTERY :: int where "PING_TIME_LOW_BATTERY = 10"
definition PING_TIMEOUT :: int where "PING_TIMEOUT = 4000"

definition update_client_by_ra_rnti_data :: "int \<Rightarrow> int \<Rightarrow> int \<Rightarrow> int \<Rightarrow> server_t \<Rightarrow> server_t res" where
  "update_client_by_ra_rnti_data socket index current_timestamp received_ra_rnti s =
    bind_res (get_client_by_socket s socket) (\<lambda>client_to_update.
      if client_to_update \<noteq> None
      then upd_client (\<lambda>c. c\<lparr>preamble_index := to_int8 index, last_activity := current_timestamp,
             first_connection_timestamp := current_timestamp, rnti := to_int16 received_ra_rnti,
             battery_state := OK\<rparr>) client_to_update s
      else Inr s)"

definition get_client_rnti :: "server_t \<Rightarrow> int \<Rightarrow> int res" where
  "get_client_rnti s socket =
    bind_res (get_client_by_socket s socket) (\<lambda>p. bind_res (read_client s p) (\<lambda>c. Inr (rnti c)))"

definition notify_client_of_shutdown :: "server_t \<Rightarrow> string \<Rightarrow> addr option \<Rightarrow> (int \<times> server_t) res" where
  "notify_client_of_shutdown s key value =
    bind_res (read_client s value) (\<lambda>client_notified.
      let shutdown_notification = set_type zero_message enb_off;
          (r, s1) = srv_send (client_socket client_notified) shutdown_notification s
      in Inr (0, s1))"

definition handle_client_inactivity :: "server_t \<Rightarrow> string \<Rightarrow> addr option \<Rightarrow> (int \<times> server_t) res" where
  "handle_client_inactivity s key value =
    (let (current_time, s) = srv_time s in
     bind_res (read_client s value) (\<lambda>current_client.
     bind_res (c_time_t (current_time - last_activity current_client)) (\<lambda>time_since_last_activity.
       let should_kick = (PING_TIMEOUT < time_since_last_activity)
       in if should_kick
          then let s = srv_close (client_socket current_client) s in
               bind_res (read_client s value) (\<lambda>current_client.
               bind_res (delete_client_from_hashmap (client_socket current_client) s) (\<lambda>s. Inr (0, s)))
          else Inr (0, s))))"

end
