(* ===== verification/Packet_Handler.thy ===== *)
theory Packet_Handler
  imports Client_Handler
begin

text \<open>
  \<^verbatim>\<open>serverLTE/packet_handler.c\<close>, without \<open>parse_packet\<close> (in \<open>Server\<close>, because it may report an error):
  the handlers of the messages of a client, and the periodic work of the three threads: pings and
  timeouts, measurement requests, and the transfer of a file to every client.
\<close>

section \<open>Handlers\<close>

definition extractPreambleIndex :: "int \<Rightarrow> int" where
  "extractPreambleIndex x = to_int8 (drop_bit 8 (x AND 0b1100000000000000))"

definition send_random_access_response :: "int \<Rightarrow> int \<Rightarrow> int \<Rightarrow> server_t \<Rightarrow> server_t" where
  "send_random_access_response socket index timestamp s =
    (let response = set_type zero_message random_access_response;
         response = set_rapid (to_int8 index) response;
         response = set_timestamp timestamp response
     in snd (srv_send socket response s))"

definition handle_random_access_request :: "int \<Rightarrow> s_message \<Rightarrow> server_t \<Rightarrow> server_t res" where
  "handle_random_access_request socket message s =
    (let received_ra_rnti = ra_rnti (get_preamble message);
         index = to_uint8 (extractPreambleIndex received_ra_rnti);
         (current_timestamp, s) = srv_time s;
         s = send_random_access_response socket index current_timestamp s
     in update_client_by_ra_rnti_data socket index current_timestamp received_ra_rnti s)"

text \<open>\<open>time\<close> is called for the right-hand side, after the client has been looked up.\<close>

definition handle_pong :: "int \<Rightarrow> server_t \<Rightarrow> server_t res" where
  "handle_pong socket s =
    bind_res (get_client_by_socket s socket) (\<lambda>to_be_updated.
      let (t, s) = srv_time s in upd_client (\<lambda>c. c\<lparr>last_activity := t\<rparr>) to_be_updated s)"

definition handle_client_power_off :: "int \<Rightarrow> server_t \<Rightarrow> server_t res" where
  "handle_client_power_off socket s = delete_client_from_hashmap socket (srv_close socket s)"

definition generate_rrc_config :: "int \<Rightarrow> rrc_config" where
  "generate_rrc_config rn =
    \<lparr>NULRB = 9, NSubframe = 0, NCellID = 10, RNTI = rn, cyclic_prefix = Normal, hopping = Off,
     SegGroup = 0, CyclicShift = 0, ShortEnd = 0\<rparr>"

definition send_rrc_setup :: "int \<Rightarrow> server_t \<Rightarrow> server_t res" where
  "send_rrc_setup socket s =
    bind_res (get_client_rnti s socket) (\<lambda>client_rnti.
      let response = set_type zero_message rrc_setup;
          response = set_rrc_response (generate_rrc_config client_rnti) response
      in Inr (snd (srv_send socket response s)))"

definition handle_low_battery_request :: "int \<Rightarrow> server_t \<Rightarrow> server_t res" where
  "handle_low_battery_request socket s =
    bind_res (get_client_by_socket s socket) (\<lambda>p. upd_client (\<lambda>c. c\<lparr>battery_state := LOW\<rparr>) p s)"

definition handle_high_battery_request :: "int \<Rightarrow> server_t \<Rightarrow> server_t res" where
  "handle_high_battery_request socket s =
    bind_res (get_client_by_socket s socket) (\<lambda>p. upd_client (\<lambda>c. c\<lparr>battery_state := OK\<rparr>) p s)"

section \<open>Pings, timeouts and measurement requests\<close>

definition ping_client :: "server_t \<Rightarrow> string \<Rightarrow> addr option \<Rightarrow> (int \<times> server_t) res" where
  "ping_client s key value =
    (let (current_time, s) = srv_time s in
     bind_res (read_client s value) (\<lambda>current_client.
     bind_res (c_time_t (current_time - last_activity current_client)) (\<lambda>time_since_last_activity.
       let should_ping =
             (battery_state current_client = OK \<and> PING_TIME_NORMAL < time_since_last_activity) \<or>
             (battery_state current_client = LOW \<and> PING_TIME_LOW_BATTERY < time_since_last_activity)
       in if should_ping
          then let (r, s) = srv_send (client_socket current_client) (set_type zero_message ping) s in Inr (0, s)
          else Inr (0, s))))"

definition send_measurement_control_request :: "server_t \<Rightarrow> string \<Rightarrow> addr option \<Rightarrow> (int \<times> server_t) res" where
  "send_measurement_control_request s key value =
    bind_res (read_client s value) (\<lambda>current_client.
      let (r, s) = srv_send (client_socket current_client) (set_type zero_message measurement_control_request) s
      in Inr (0, s))"

text \<open>One pass of the body of each thread.\<close>

definition ping_and_timeout_pass :: "server_t \<Rightarrow> server_t res" where
  "ping_and_timeout_pass s =
    bind_res (iter_clients ping_client s) (\<lambda>(r, s).
    bind_res (iter_clients handle_client_inactivity s) (\<lambda>(r, s). Inr s))"

definition measurement_pass :: "server_t \<Rightarrow> server_t res" where
  "measurement_pass s = bind_res (iter_clients send_measurement_control_request s) (\<lambda>(r, s). Inr s)"

section \<open>File transfer\<close>

text \<open>
  \<open>fread(buffer, 16, 1, file)\<close> at a position, into a zeroed buffer: what the file still has of 16
  bytes (glibc stores the bytes of an incomplete item).
\<close>

definition fread_chunk :: "byte list \<Rightarrow> int \<Rightarrow> byte list" where
  "fread_chunk file pos =
    (let bs = take BUFFER_SIZE (drop (nat pos) file) in bs @ replicate (BUFFER_SIZE - length bs) 0)"

text \<open>The sending loop; \<open>False\<close> if \<open>exit\<close> was called.\<close>

function send_chunks :: "s_message \<Rightarrow> byte list \<Rightarrow> int \<Rightarrow> int \<Rightarrow> int \<Rightarrow> server_t \<Rightarrow> (bool \<times> server_t) res" where
  "send_chunks data_message file socket bytes_read packets_sent s =
    (if bytes_read < int (length file)
     then let data_message = set_buffer (fread_chunk file bytes_read) data_message in
       bind_res (c_int (bytes_read + 16)) (\<lambda>bytes_read.
         let (bytes_sent, s) = srv_send socket data_message s in
         if bytes_sent = -1 then Inr (False, s\<lparr>exit_status := Some 1\<rparr>)
         else bind_res (c_int (packets_sent + 1)) (\<lambda>packets_sent.
                send_chunks data_message file socket bytes_read packets_sent s))
     else Inr (True, s))"
  by pat_completeness auto
termination
  by (relation "measure (\<lambda>(m, file, socket, bytes_read, packets_sent, s). nat (int (length file) - bytes_read))")
    (auto simp: c_int_def split: if_splits)

declare send_chunks.simps [simp del]

text \<open>
  The sample to send: the bytes in memory from where the file name starts (the source copies 16 of
  them), the contents of the file if it can be opened, and what the two uninitialised local messages
  hold in the call for each socket.  A call of \<open>exit\<close> sets the status and breaks the iteration.
\<close>

record sample =
  name_memory :: "byte list"
  sample_file :: "byte list option"
  tag_junk :: "int \<Rightarrow> s_message"
  data_junk :: "int \<Rightarrow> s_message"

definition broadcast_sample :: "sample \<Rightarrow> server_t \<Rightarrow> string \<Rightarrow> addr option \<Rightarrow> (int \<times> server_t) res" where
  "broadcast_sample arg s key value =
    (case sample_file arg of
       None \<Rightarrow> Inr (1, s\<lparr>exit_status := Some 1\<rparr>)
     | Some file \<Rightarrow>
       if length (name_memory arg) < BUFFER_SIZE then Inl OutOfBounds
       else
         bind_res (read_client s value) (\<lambda>current_client.
           let data_message_tag = set_type (tag_junk arg (client_socket current_client)) data_start;
               data_message_tag = set_buffer (take BUFFER_SIZE (name_memory arg)) data_message_tag;
               (r, s) = srv_send (client_socket current_client) data_message_tag s in
           if r = -1 then Inr (1, s\<lparr>exit_status := Some 1\<rparr>)
           else
             bind_res (send_chunks (set_type (data_junk arg (client_socket current_client)) data) file (client_socket current_client) 0 0 s)
               (\<lambda>(ok, s).
                 if \<not> ok then Inr (1, s)
                 else
                   let (r, s) = srv_send (client_socket current_client) (set_type data_message_tag data_end) s in
                   if r = -1 then Inr (1, s\<lparr>exit_status := Some 1\<rparr>) else Inr (0, s))))"

text \<open>After its first pass \<open>transfer_data\<close> ends the whole process.\<close>

definition transfer_data :: "sample \<Rightarrow> server_t \<Rightarrow> server_t res" where
  "transfer_data arg s =
    (if threads_done s then Inr s
     else bind_res (iter_clients (broadcast_sample arg) s) (\<lambda>(r, s).
            Inr (if exit_status s = None then s\<lparr>exit_status := Some 0\<rparr> else s)))"

end
