(* ===== verification/Server.thy ===== *)
theory Server
  imports Packet_Handler
begin

text \<open>
  \<^verbatim>\<open>serverLTE/server.c\<close>, \<^verbatim>\<open>main.c\<close> and \<open>parse_packet\<close>: construction and destruction of the server, the way
  it ends (\<open>clean\<close>, \<open>error\<close>), accepting clients, and the dispatch of what epoll reports.  A call of
  \<open>exit\<close> sets \<open>exit_status\<close>, after which nothing of the state changes any more.
\<close>

section \<open>Ending\<close>

definition broadcast_shutdown_notification :: "server_t \<Rightarrow> server_t res" where
  "broadcast_shutdown_notification s = bind_res (iter_clients notify_client_of_shutdown s) (\<lambda>(r, s). Inr s)"

definition server_t__destroy :: "server_t \<Rightarrow> server_t res" where
  "server_t__destroy s =
    bind_res (close_clients_sockets s) (\<lambda>s.
    bind_res (the_clients s) (\<lambda>m.
    bind_res (hashmap_destroy m) (\<lambda>(values, leaked).
    bind_res (fold_res free_client values (s\<lparr>clients := FreedMap\<rparr>)) (\<lambda>s.
      Inr (srv_close (server_socket s) s)))))"

text \<open>
  \<open>pthread_join\<close> waits for the pinging thread: if it is between two passes it does one more.
\<close>

definition clean :: "server_t \<Rightarrow> server_t res" where
  "clean s =
    bind_res (broadcast_shutdown_notification s) (\<lambda>s.
      let s = s\<lparr>threads_done := True\<rparr> in
      bind_res (if late_pass s then ping_and_timeout_pass s else Inr s) server_t__destroy)"

definition server_error :: "server_t \<Rightarrow> server_t res" where
  "server_error s =
    bind_res (if \<not> errno_eintr s then clean s else Inr s) (\<lambda>s. Inr (s\<lparr>exit_status := Some 1\<rparr>))"

definition remind_about_port :: "server_t \<Rightarrow> server_t" where
  "remind_about_port s = s\<lparr>exit_status := Some 1\<rparr>"

section \<open>Construction\<close>

definition server_t__init :: "int \<Rightarrow> int \<Rightarrow> int \<Rightarrow> server_t \<Rightarrow> server_t res" where
  "server_t__init socket ev_fd epoll_fd s =
    bind_res (hashmap_init 0) (\<lambda>m.
      Inr (s\<lparr>server_socket := socket, event_fd := ev_fd, epoll_file_descriptor := epoll_fd, clients := LiveMap m\<rparr>))"

text \<open>\<open>servet_t__socket\<close>.\<close>

definition servet_t__socket :: "server_t \<Rightarrow> int" where
  "servet_t__socket s = server_socket s"

text \<open>The results of the system calls: \<open>socket\<close>, \<open>bind\<close>, \<open>listen\<close>, \<open>epoll_create1\<close>, \<open>epoll_ctl\<close>.\<close>

definition init_server :: "int \<Rightarrow> int \<Rightarrow> int \<Rightarrow> int \<Rightarrow> int \<Rightarrow> server_t \<Rightarrow> server_t res" where
  "init_server sock bind_r listen_r epoll_r ctl_r s =
    (if sock = -1 then server_error s
     else if bind_r < 0 then server_error s
     else if listen_r = -1 then server_error s
     else if epoll_r = -1 then server_error s
     else if ctl_r = -1 then server_error (srv_close epoll_r s)
     else server_t__init sock sock epoll_r (s\<lparr>watched := insert sock (watched s)\<rparr>))"

section \<open>Clients and packets\<close>

definition accept_client :: "server_t \<Rightarrow> server_t res" where
  "accept_client s =
    (let client = next_addr s;
         fd = accept_res s (accepts s);
         ctl = epoll_ctl_res s (accepts s);
         s = s\<lparr>heap := (heap s)(client \<mapsto> (malloc_junk s (accepts s))\<lparr>client_socket := fd\<rparr>),
               next_addr := Suc client, accepts := Suc (accepts s)\<rparr>
     in if fd = -1 then server_error s
        else let s = s\<lparr>event_fd := fd\<rparr> in
             if ctl = -1 then server_error s
             else put_client_in_hashmap fd (Some client) (s\<lparr>watched := insert fd (watched s)\<rparr>))"

definition srv_read :: "server_t \<Rightarrow> byte list option \<times> server_t" where
  "srv_read s = (let (r, w) = recv_bytes (srv_net s) in (r, s\<lparr>srv_net := w\<rparr>))"

text \<open>The \<open>switch\<close> on the type of the message.\<close>

definition dispatch :: "int \<Rightarrow> s_message \<Rightarrow> server_t \<Rightarrow> server_t res" where
  "dispatch socket message s =
    (case msg_label (message_type message) of
       Some random_access_request \<Rightarrow> handle_random_access_request socket message s
     | Some rrc_request \<Rightarrow> send_rrc_setup socket s
     | Some ue_battery_low \<Rightarrow> handle_low_battery_request socket s
     | Some ue_battery_high \<Rightarrow> handle_high_battery_request socket s
     | Some pong \<Rightarrow> handle_pong socket s
     | Some ue_off \<Rightarrow> handle_client_power_off socket s
     | _ \<Rightarrow> Inr s)"

definition event_socket :: "nat \<Rightarrow> server_t \<Rightarrow> int res" where
  "event_socket n s = (if n < length (events s) then Inr (events s ! n) else Inl OutOfBounds)"

definition parse_packet :: "nat \<Rightarrow> server_t \<Rightarrow> server_t res" where
  "parse_packet number_of_event s =
    bind_res (event_socket number_of_event s) (\<lambda>socket.
      let (r, s) = srv_read s in
      case r of
        None \<Rightarrow> server_error s
      | Some bs \<Rightarrow>
          if bs = [] then delete_client_from_hashmap socket (srv_close socket s)
          else dispatch socket (recv_into zero_message bs) s)"

fun handle_events :: "nat list \<Rightarrow> server_t \<Rightarrow> server_t res" where
  "handle_events [] s = Inr s"
| "handle_events (n # ns) s =
    (if exit_status s \<noteq> None then Inr s
     else bind_res (event_socket n s) (\<lambda>fd.
          bind_res (if fd = server_socket s then accept_client s else parse_packet n s) (handle_events ns)))"

definition handle_connection :: "nat \<Rightarrow> server_t \<Rightarrow> server_t res" where
  "handle_connection number_of_file_descriptors_ready = handle_events [0..<number_of_file_descriptors_ready]"

text \<open>
  One pass of \<open>receive_packets\<close>: \<open>None\<close> if \<open>epoll_wait\<close> returns -1, else the ready descriptors it has
  stored at the front of \<open>events\<close>.
\<close>

definition receive_packets_pass :: "int list option \<Rightarrow> server_t \<Rightarrow> server_t res" where
  "receive_packets_pass ready s =
    (case ready of
       None \<Rightarrow> server_error s
     | Some fds \<Rightarrow> handle_connection (length fds) (s\<lparr>events := fds @ drop (length fds) (events s)\<rparr>))"

text \<open>\<open>SIGINT\<close> while waiting: the handler runs \<open>clean\<close>, then \<open>epoll_wait\<close> reports \<open>EINTR\<close>.\<close>

definition sigint_while_waiting :: "server_t \<Rightarrow> server_t res" where
  "sigint_while_waiting s =
    bind_res (clean s) (\<lambda>s. receive_packets_pass None (s\<lparr>errno_eintr := True\<rparr>))"

text \<open>\<open>main\<close> up to its endless loop.\<close>

definition server_main :: "int \<Rightarrow> int \<Rightarrow> int \<Rightarrow> int \<Rightarrow> int \<Rightarrow> int \<Rightarrow> server_t \<Rightarrow> server_t res" where
  "server_main argc sock bind_r listen_r epoll_r ctl_r s =
    (if argc < 2 then Inr (remind_about_port s) else init_server sock bind_r listen_r epoll_r ctl_r s)"

end
