(* ===== verification/Invariant.thy ===== *)
theory Invariant
  imports Prelude
begin

text \<open>
  The interface under which the two programs are used as transition systems: a step relation and a
  state predicate that every step preserves.  What holds of the start then holds of every
  reachable state; a second predicate can be carried along once the first is known.
\<close>

locale invariant_machine =
  fixes step :: "'s \<Rightarrow> 's \<Rightarrow> bool"
    and inv :: "'s \<Rightarrow> bool"
  assumes step_inv: "inv s \<Longrightarrow> step s s' \<Longrightarrow> inv s'"
begin

lemma reachable_inv: "step\<^sup>*\<^sup>* s s' \<Longrightarrow> inv s \<Longrightarrow> inv s'"
  by (induction rule: rtranclp_induct) (auto intro: step_inv)

lemma reachable_relative:
  assumes "step\<^sup>*\<^sup>* s s'" "inv s" "P s" and "\<And>t t'. inv t \<Longrightarrow> P t \<Longrightarrow> step t t' \<Longrightarrow> P t'"
  shows "P s'"
  using assms(1-3)
proof (induction rule: rtranclp_induct)
  case base
  then show ?case by simp
next
  case (step t t')
  then show ?case using assms(4) reachable_inv by blast
qed

lemma reachable_constant:
  assumes "step\<^sup>*\<^sup>* s s'" "inv s" and "\<And>t t'. inv t \<Longrightarrow> step t t' \<Longrightarrow> f t' = f t"
  shows "f s' = f s"
  by (rule reachable_relative [OF assms(1,2), of "\<lambda>t. f t = f s"]) (use assms(3) in auto)

end

end
