(* ===== verification/Server_Inv.thy ===== *)
theory Server_Inv
  imports Server Invariant
begin

text \<open>
  The server as a map from sockets to clients (\<open>clients_of\<close>), and the invariant under which its
  pointers and its table implement that map: every value of the table is the address of a live
  client whose socket is the key, every live client is in the table, and the descriptors registered
  with epoll are those of the clients and the listening one.
\<close>

section \<open>The interface of the table, keyed by sockets\<close>

interpretation hclients: keyed_map hashmap_get hashmap_put hashmap_delete hm_inv hm_room sprintf_d "\<lambda>_. True"
  by unfold_locales (simp add: sprintf_inject)

text \<open>Its laws, on lookups under sockets.\<close>

lemma lookup_after_put:
  assumes "hm_inv m" "hm_room m" "hashmap_put m (sprintf_d a) v = Inr (r, m')"
  shows "hm_lookup m' (sprintf_d b) = (if b = a then Some v else hm_lookup m (sprintf_d b))"
  using hclients.keyed_get_after_put [OF assms, of b] hmap.get_after_put(1) [OF assms] assms(1)
  by (simp add: hashmap_get_lookup split: if_splits)

lemma lookup_after_delete:
  assumes "hm_inv m" "hashmap_delete m (sprintf_d a) = Inr (r, m')"
  shows "hm_lookup m' (sprintf_d b) = (if b = a then None else hm_lookup m (sprintf_d b))"
  using hclients.keyed_get_after_del [OF assms, of b] hmap.get_after_del(1) [OF assms] assms(1)
  by (simp add: hashmap_get_lookup split: if_splits)

section \<open>The abstract state\<close>

definition clients_of :: "server_t \<Rightarrow> int \<Rightarrow> client_t option" where
  "clients_of s fd = (case hm_lookup (map_of_server s) (sprintf_d fd) of Some (Some a) \<Rightarrow> heap s a | _ \<Rightarrow> None)"

text \<open>Sockets whose text fits the key buffer.\<close>

definition valid_fd :: "int \<Rightarrow> bool" where
  "valid_fd fd \<longleftrightarrow> 0 \<le> fd \<and> fd < 10000000"

definition clients_inv :: "server_t \<Rightarrow> bool" where
  "clients_inv s \<longleftrightarrow>
    (\<exists>m. clients s = LiveMap m \<and> hm_inv m \<and> hm_sized m) \<and>
    (\<forall>k v. hm_lookup (map_of_server s) k = Some v \<longrightarrow>
      (\<exists>a c. v = Some a \<and> heap s a = Some c \<and> k = sprintf_d (client_socket c) \<and> valid_fd (client_socket c))) \<and>
    (\<forall>a c. heap s a = Some c \<longrightarrow> a < next_addr s \<and>
      hm_lookup (map_of_server s) (sprintf_d (client_socket c)) = Some (Some a))"

text \<open>The clock, the clients and memory that is yet to be allocated hold times whose differences do not overflow.\<close>

definition times_ok :: "server_t \<Rightarrow> bool" where
  "times_ok s \<longleftrightarrow> clock_ok (srv_net s) \<and> (\<forall>fd c. clients_of s fd = Some c \<longrightarrow> time_ok (last_activity c)) \<and>
    (\<forall>n. time_ok (last_activity (malloc_junk s n)))"

definition server_inv :: "server_t \<Rightarrow> bool" where
  "server_inv s \<longleftrightarrow> clients_inv s \<and> times_ok s \<and> valid_fd (server_socket s) \<and> server_socket s \<notin> dom (clients_of s) \<and>
    watched s = insert (server_socket s) (dom (clients_of s)) \<and> length (events s) = 100"

lemma map_of_server_Live [simp]: "clients s = LiveMap m \<Longrightarrow> map_of_server s = m"
  by (simp add: map_of_server_def)

lemma the_clients_Live [simp]: "clients s = LiveMap m \<Longrightarrow> the_clients s = Inr m"
  by (simp add: the_clients_def)

lemma socket_key_valid: "valid_fd fd \<Longrightarrow> socket_key fd = Inr (sprintf_d fd)"
proof -
  assume v: "valid_fd fd"
  then have "nat fd < 10 ^ 7" by (simp add: valid_fd_def nat_less_iff)
  then have "length (decimal (nat fd)) \<le> 7" by (rule length_decimal) simp
  with v show ?thesis by (simp add: socket_key_def sprintf_d_def valid_fd_def)
qed

text \<open>What the invariant gives about one key, one address and one socket.\<close>

lemma clients_inv_keyD:
  assumes "clients_inv s" "hm_lookup (map_of_server s) k = Some v"
  shows "\<exists>a c. v = Some a \<and> heap s a = Some c \<and> k = sprintf_d (client_socket c) \<and> valid_fd (client_socket c)"
  using assms by (simp add: clients_inv_def)

lemma clients_inv_heapD:
  assumes "clients_inv s" "heap s a = Some c"
  shows "a < next_addr s" "hm_lookup (map_of_server s) (sprintf_d (client_socket c)) = Some (Some a)"
  using assms by (simp_all add: clients_inv_def)

lemma clients_inv_addr:
  assumes "clients_inv s" "heap s a = Some c" "hm_lookup (map_of_server s) k = Some (Some a)"
  shows "k = sprintf_d (client_socket c)"
  using clients_inv_keyD [OF assms(1,3)] assms(2) by auto

lemma clients_inv_dom: "clients_inv s \<Longrightarrow> dom (hm_lookup (map_of_server s)) \<subseteq> sprintf_d ` {0..<10000000}"
proof
  fix k assume inv: "clients_inv s" and "k \<in> dom (hm_lookup (map_of_server s))"
  then obtain v where "hm_lookup (map_of_server s) k = Some v" by blast
  from clients_inv_keyD [OF inv this] obtain c :: client_t where
    "k = sprintf_d (client_socket c)" "valid_fd (client_socket c)" by blast
  then show "k \<in> sprintf_d ` {0..<10000000}" by (simp add: valid_fd_def)
qed

lemma clients_inv_count:
  assumes "clients_inv s" "hm_inv (map_of_server s)"
  shows "count (map_of_server s) < 3 * 2 ^ 28"
proof -
  have "card (dom (hm_lookup (map_of_server s))) \<le> card (sprintf_d ` {0..<10000000})"
    by (rule card_mono [OF _ clients_inv_dom [OF assms(1)]]) simp
  also have "\<dots> \<le> 10000000" using card_image_le [of "{0..<10000000 :: int}" sprintf_d] by simp
  finally show ?thesis using hm_inv_count [OF assms(2)] by simp
qed

lemma clients_inv_lookup [consumes 1, case_names absent present]:
  assumes "clients_inv s"
  obtains (absent) "clients_of s fd = None" "hm_lookup (map_of_server s) (sprintf_d fd) = None"
  | (present) a c where "clients_of s fd = Some c" "hm_lookup (map_of_server s) (sprintf_d fd) = Some (Some a)"
      "heap s a = Some c" "client_socket c = fd" "valid_fd fd"
proof (cases "hm_lookup (map_of_server s) (sprintf_d fd)")
  case None
  then show ?thesis using absent by (simp add: clients_of_def)
next
  case (Some v)
  from clients_inv_keyD [OF assms this] obtain a c where "v = Some a" "heap s a = Some c"
    "sprintf_d fd = sprintf_d (client_socket c)" "valid_fd (client_socket c)" by blast
  moreover from this(3) have "client_socket c = fd" by (simp add: sprintf_inject)
  ultimately show ?thesis using Some by (intro present [of c a]) (simp_all add: clients_of_def)
qed

lemma clients_of_socket: "clients_inv s \<Longrightarrow> clients_of s fd = Some c \<Longrightarrow> client_socket c = fd \<and> valid_fd fd"
  by (erule clients_inv_lookup [where fd = fd]) auto

lemma clients_inv_map:
  assumes "clients_inv s"
  obtains m where "clients s = LiveMap m" "hm_inv m" "hm_sized m"
  using assms by (auto simp: clients_inv_def)

text \<open>There are fewer clients than the table can hold.\<close>

lemma clients_inv_room:
  assumes "clients_inv s" "clients s = LiveMap m"
  shows "hm_room m"
proof -
  have inv: "hm_inv m" "hm_sized m" using assms by (auto simp: clients_inv_def)
  have "count m < 3 * 2 ^ 28" using clients_inv_count [OF assms(1)] inv(1) assms(2) by simp
  from hm_sized_room [OF inv this] show ?thesis by (auto simp: hm_room_def)
qed

section \<open>Lookup and update\<close>

lemma get_client_by_socket_spec:
  assumes "clients_inv s" "valid_fd fd"
  shows "case clients_of s fd of
      None \<Rightarrow> get_client_by_socket s fd = Inr None
    | Some c \<Rightarrow> \<exists>a. get_client_by_socket s fd = Inr (Some a) \<and> heap s a = Some c \<and> client_socket c = fd"
proof -
  obtain m where m: "clients s = LiveMap m" "hm_inv m" using clients_inv_map [OF assms(1)] by blast
  have g: "get_client_by_socket s fd = Inr (case hm_lookup m (sprintf_d fd) of None \<Rightarrow> None | Some v \<Rightarrow> v)"
    by (simp add: get_client_by_socket_def socket_key_valid [OF assms(2)] m hashmap_get_lookup split: option.split)
  show ?thesis
    using assms(1) by (cases rule: clients_inv_lookup [where fd = fd]) (use m(1) g in auto)
qed

lemma clients_of_upd:
  assumes "clients_inv s" "heap s a = Some c" "client_socket (f c) = client_socket c"
  shows "clients_inv (s\<lparr>heap := (heap s)(a \<mapsto> f c)\<rparr>)"
    and "clients_of (s\<lparr>heap := (heap s)(a \<mapsto> f c)\<rparr>) = (clients_of s)(client_socket c \<mapsto> f c)"
proof -
  let ?s = "s\<lparr>heap := (heap s)(a \<mapsto> f c)\<rparr>"
  have mp: "map_of_server ?s = map_of_server s" by (simp add: map_of_server_def)
  note la = clients_inv_heapD(2) [OF assms(1,2)] and only = clients_inv_addr [OF assms(1,2)]
  show "clients_inv ?s"
    unfolding clients_inv_def mp
  proof (intro conjI allI impI)
    show "\<exists>m. clients ?s = LiveMap m \<and> hm_inv m \<and> hm_sized m" using assms(1) by (simp add: clients_inv_def)
  next
    fix k v assume "hm_lookup (map_of_server s) k = Some v"
    from clients_inv_keyD [OF assms(1) this] obtain a' c' where "v = Some a'" "heap s a' = Some c'"
      "k = sprintf_d (client_socket c')" "valid_fd (client_socket c')" by blast
    with assms(2,3) show "\<exists>a c. v = Some a \<and> heap ?s a = Some c \<and> k = sprintf_d (client_socket c) \<and> valid_fd (client_socket c)"
      by (cases "a' = a") auto
  next
    fix a' c' assume "heap ?s a' = Some c'"
    then show "a' < next_addr ?s"
      using clients_inv_heapD(1) [OF assms(1)] assms(2) by (auto split: if_splits)
  next
    fix a' c' assume "heap ?s a' = Some c'"
    then show "hm_lookup (map_of_server s) (sprintf_d (client_socket c')) = Some (Some a')"
      using clients_inv_heapD(2) [OF assms(1)] assms(3) la by (auto split: if_splits)
  qed
  show "clients_of ?s = (clients_of s)(client_socket c \<mapsto> f c)"
  proof
    fix fd
    show "clients_of ?s fd = ((clients_of s)(client_socket c \<mapsto> f c)) fd"
    proof (cases "fd = client_socket c")
      case True
      then show ?thesis by (simp add: clients_of_def mp la)
    next
      case False
      then have "hm_lookup (map_of_server s) (sprintf_d fd) \<noteq> Some (Some a)"
        using only sprintf_inject by blast
      with False show ?thesis by (auto simp: clients_of_def mp split: option.splits)
    qed
  qed
qed

text \<open>Looking a client up and changing fields of it other than the socket.\<close>

lemma upd_client_spec:
  assumes "clients_inv s" "valid_fd fd" "clients_of s fd = Some c" "client_socket (f c) = client_socket c"
  shows "\<exists>p s'. get_client_by_socket s fd = Inr p \<and> p \<noteq> None \<and> upd_client f p s = Inr s' \<and> clients_inv s' \<and>
    clients_of s' = (clients_of s)(fd \<mapsto> f c) \<and> s' = s\<lparr>heap := heap s'\<rparr>"
proof -
  from get_client_by_socket_spec [OF assms(1,2)] assms(3) obtain a where
    a: "get_client_by_socket s fd = Inr (Some a)" "heap s a = Some c" "client_socket c = fd" by auto
  have "upd_client f (Some a) s = Inr (s\<lparr>heap := (heap s)(a \<mapsto> f c)\<rparr>)"
    by (simp add: upd_client_def read_client_def a(2))
  with a(1,3) clients_of_upd [where f = f, OF assms(1) a(2) assms(4)] show ?thesis
    by (intro exI [of _ "Some a"] exI [of _ "s\<lparr>heap := (heap s)(a \<mapsto> f c)\<rparr>"]) simp
qed

lemma upd_client_null:
  assumes "clients_inv s" "valid_fd fd" "clients_of s fd = None"
  shows "get_client_by_socket s fd = Inr None" "upd_client f None s = Inl NullDeref"
  using get_client_by_socket_spec [OF assms(1,2)] assms(3) by (simp_all add: upd_client_def read_client_def)

section \<open>Parts of the state that do not matter to the clients\<close>

lemma clients_inv_cong:
  assumes "clients s' = clients s" "heap s' = heap s" "next_addr s' = next_addr s"
  shows "clients_inv s' = clients_inv s" "clients_of s' = clients_of s"
  unfolding clients_inv_def clients_of_def [abs_def] map_of_server_def assms by (rule refl)+

lemma srv_calls_keep:
  "clients (srv_close fd s) = clients s" "heap (srv_close fd s) = heap s" "next_addr (srv_close fd s) = next_addr s"
  "server_socket (srv_close fd s) = server_socket s" "events (srv_close fd s) = events s"
  "watched (srv_close fd s) = watched s - {fd}" "exit_status (srv_close fd s) = exit_status s"
  "snd (srv_send fd m s) = s\<lparr>srv_net := snd (write_msg fd m (srv_net s))\<rparr>"
  "snd (srv_time s) = s\<lparr>srv_net := snd (time_now (srv_net s))\<rparr>"
  "snd (srv_read s) = s\<lparr>srv_net := snd (recv_bytes (srv_net s))\<rparr>"
  by (simp_all add: srv_close_def srv_send_def srv_time_def srv_read_def close_fd_def split_beta Let_def)

lemma inv_srv_net [simp]:
  "clients_inv (s\<lparr>srv_net := w\<rparr>) = clients_inv s" "clients_of (s\<lparr>srv_net := w\<rparr>) = clients_of s"
  "clock w = clock (srv_net s) \<Longrightarrow> times_ok (s\<lparr>srv_net := w\<rparr>) = times_ok s"
  "clock w = clock (srv_net s) \<Longrightarrow> server_inv (s\<lparr>srv_net := w\<rparr>) = server_inv s"
proof -
  show c: "clients_inv (s\<lparr>srv_net := w\<rparr>) = clients_inv s" "clients_of (s\<lparr>srv_net := w\<rparr>) = clients_of s"
    by (rule clients_inv_cong; simp)+
  assume "clock w = clock (srv_net s)"
  with c show "times_ok (s\<lparr>srv_net := w\<rparr>) = times_ok s" "server_inv (s\<lparr>srv_net := w\<rparr>) = server_inv s"
    by (simp_all add: server_inv_def times_ok_def clock_ok_def)
qed

lemma net_clock [simp]:
  "clock (snd (recv_bytes w)) = clock w" "clock (snd (time_now w)) = clock w" "clock (snd (write_msg fd m w)) = clock w"
  "clock (snd (close_fd fd w)) = clock w"
  by (simp_all add: recv_bytes_def time_now_def write_msg_def close_fd_def Let_def)

section \<open>Deleting and inserting\<close>

text \<open>Removing a client from the table and from the heap keeps the invariant, and it is what the abstract map loses.\<close>

lemma clients_inv_remove:
  assumes inv: "clients_inv s" and l: "hm_lookup (map_of_server s) (sprintf_d fd) = Some (Some a)"
    and h: "heap s a = Some c" "client_socket c = fd"
    and s': "clients s' = LiveMap m'" "hm_inv m'" "hm_sized m'" "heap s' = (heap s)(a := None)" "next_addr s' = next_addr s"
    and m': "hm_lookup m' = (hm_lookup (map_of_server s))(sprintf_d fd := None)"
  shows "clients_inv s'"
proof -
  have mp: "map_of_server s' = m'" using s'(1) by simp
  have uniq: "client_socket c' = fd \<Longrightarrow> a' = a" if "heap s a' = Some c'" for a' c'
    using clients_inv_heapD(2) [OF inv that] l by simp
  show "clients_inv s'"
    unfolding clients_inv_def mp s'(4,5)
  proof (intro conjI allI impI)
    show "\<exists>m. clients s' = LiveMap m \<and> hm_inv m \<and> hm_sized m" using s'(1-3) by simp
  next
    fix k v assume "hm_lookup m' k = Some v"
    then have k: "k \<noteq> sprintf_d fd" "hm_lookup (map_of_server s) k = Some v" using m' by (auto split: if_splits)
    with clients_inv_keyD [OF inv, of k v] obtain a' c' where a': "v = Some a'" "heap s a' = Some c'"
      "k = sprintf_d (client_socket c')" "valid_fd (client_socket c')" by auto
    moreover have "a' \<noteq> a" using a' k(1) h by auto
    ultimately show "\<exists>a'' c. v = Some a'' \<and> ((heap s)(a := None)) a'' = Some c \<and> k = sprintf_d (client_socket c) \<and>
        valid_fd (client_socket c)" by auto
  next
    fix a' c' assume "((heap s)(a := None)) a' = Some c'"
    then have "a' \<noteq> a" "heap s a' = Some c'" by (auto split: if_splits)
    then show "a' < next_addr s" "hm_lookup m' (sprintf_d (client_socket c')) = Some (Some a')"
      using uniq clients_inv_heapD [OF inv] by (auto simp: m' sprintf_inject)
  qed
qed

lemma clients_of_remove:
  assumes "clients_inv s" "heap s a = Some c" "client_socket c = fd" "heap s' = (heap s)(a := None)"
    and law: "\<And>b. hm_lookup (map_of_server s') (sprintf_d b) = (if b = fd then None else hm_lookup (map_of_server s) (sprintf_d b))"
  shows "clients_of s' = (clients_of s)(fd := None)"
proof -
  have "hm_lookup (map_of_server s) (sprintf_d b) \<noteq> Some (Some a)" if "b \<noteq> fd" for b
    using clients_inv_addr [OF assms(1,2), of "sprintf_d b"] assms(3) that by (auto simp: sprintf_inject)
  then show ?thesis by (auto simp: clients_of_def law assms(4) fun_eq_iff split: option.splits)
qed

lemma delete_client_spec:
  assumes "clients_inv s" "valid_fd fd"
  shows "\<exists>s'. delete_client_from_hashmap fd s = Inr s' \<and> clients_inv s' \<and>
    clients_of s' = (clients_of s)(fd := None) \<and> s' = s\<lparr>clients := clients s', heap := heap s'\<rparr> \<and>
    (\<forall>k. k \<noteq> sprintf_d fd \<longrightarrow> hm_lookup (map_of_server s') k = hm_lookup (map_of_server s) k) \<and>
    (\<exists>r. hashmap_delete (map_of_server s) (sprintf_d fd) = Inr (r, map_of_server s'))"
proof -
  obtain m where m: "clients s = LiveMap m" "hm_inv m" "hm_sized m" using clients_inv_map [OF assms(1)] by blast
  note key = socket_key_valid [OF assms(2)]
  from assms(1) show ?thesis
  proof (cases rule: clients_inv_lookup [where fd = fd])
    case absent
    then have "hashmap_delete m (sprintf_d fd) = Inr (None, m)" using hashmap_delete_absent [OF m(2)] m(1) by simp
    moreover have "(clients_of s)(fd := None) = clients_of s" using absent(1) by auto
    moreover have "s\<lparr>clients := LiveMap m\<rparr> = s" using m(1) by simp
    ultimately show ?thesis using assms(1) m(1)
      by (intro exI [of _ s]) (simp add: delete_client_from_hashmap_def key)
  next
    case (present a c)
    then have l: "hm_lookup m (sprintf_d fd) = Some (Some a)" using m(1) by simp
    from hashmap_delete_present [OF m(2) l] obtain m' where
      m': "hashmap_delete m (sprintf_d fd) = Inr (Some (Some a), m')" "hm_inv m'"
        "hm_lookup m' = (hm_lookup m)(sprintf_d fd := None)" "table_size m' = table_size m" "max_size m' = max_size m"
      by blast
    let ?s = "s\<lparr>clients := LiveMap m', heap := (heap s)(a := None)\<rparr>"
    have del: "delete_client_from_hashmap fd s = Inr ?s"
      using present(3) by (simp add: delete_client_from_hashmap_def key m(1) m'(1) free_client_def)
    have mp: "map_of_server ?s = m'" "map_of_server s = m" using m(1) by simp_all
    have "hm_sized m'" using m(3) m'(4,5) by (simp add: hm_sized_def)
    then have "clients_inv ?s"
      using clients_inv_remove [OF assms(1) _ present(3,4), of ?s m'] l m' mp by simp
    moreover have "clients_of ?s = (clients_of s)(fd := None)"
      by (rule clients_of_remove [OF assms(1) present(3,4)]) (simp_all add: mp lookup_after_delete [OF m(2) m'(1)])
    ultimately show ?thesis using del m'(1,3) mp by (intro exI [of _ ?s]) auto
  qed
qed

text \<open>A table that stays small keeps the shape of its size when a binding is put.\<close>

lemma hm_sized_put:
  assumes "hm_inv m" "hm_sized m" "count m < 3 * 2 ^ 28"
    and "table_size m' = (if count m < max_size m then table_size m else 2 * table_size m)"
    and "max_size m' = (if count m < max_size m then max_size m else 2 * max_size m)"
  shows "hm_sized m'"
proof (cases "count m < max_size m")
  case True
  with assms show ?thesis by (simp add: hm_sized_def)
next
  case False
  with hm_sized_room [OF assms(1-3)] have "2 * table_size m \<le> 2 ^ 30" by simp
  from hm_sized_double [OF assms(2) this] assms(4,5) False show ?thesis by simp
qed

text \<open>A fresh client under its own key keeps the invariant, and it is what the abstract map gains.\<close>

lemma clients_inv_insert:
  assumes "clients_inv s" "valid_fd fd" "hm_lookup (map_of_server s) (sprintf_d fd) = None" "client_socket c = fd"
    and a: "a = next_addr s" and fresh: "heap s a = None"
    and s': "clients s' = LiveMap m'" "hm_inv m'" "hm_sized m'" "heap s' = (heap s)(a \<mapsto> c)" "next_addr s' = Suc a"
    and m': "hm_lookup m' = (hm_lookup (map_of_server s))(sprintf_d fd \<mapsto> Some a)"
  shows "clients_inv s'"
proof -
  have mp: "map_of_server s' = m'" using s'(1) by simp
  show "clients_inv s'"
    unfolding clients_inv_def mp s'(4,5)
  proof (intro conjI allI impI)
    show "\<exists>m. clients s' = LiveMap m \<and> hm_inv m \<and> hm_sized m" using s'(1-3) by simp
  next
    fix k v assume kv: "hm_lookup m' k = Some v"
    show "\<exists>a' c'. v = Some a' \<and> ((heap s)(a \<mapsto> c)) a' = Some c' \<and> k = sprintf_d (client_socket c') \<and> valid_fd (client_socket c')"
    proof (cases "k = sprintf_d fd")
      case True
      with kv m' assms(2,4) show ?thesis by (intro exI [of _ a] exI [of _ c]) auto
    next
      case False
      with kv m' clients_inv_keyD [OF assms(1), of k v] obtain a' c' where "v = Some a'" "heap s a' = Some c'"
        "k = sprintf_d (client_socket c')" "valid_fd (client_socket c')" by auto
      with fresh show ?thesis by (intro exI [of _ a'] exI [of _ c']) auto
    qed
  next
    fix a' c' assume h: "((heap s)(a \<mapsto> c)) a' = Some c'"
    then show "a' < Suc a" using clients_inv_heapD(1) [OF assms(1)] a by (auto split: if_splits intro: less_SucI)
    show "hm_lookup m' (sprintf_d (client_socket c')) = Some (Some a')"
      using h clients_inv_heapD(2) [OF assms(1), of a' c'] m' assms(3,4) by (auto split: if_splits)
  qed
qed

lemma clients_of_insert:
  assumes "clients_inv s" "heap s a = None" "heap s' = (heap s)(a \<mapsto> c)"
    and law: "\<And>b. hm_lookup (map_of_server s') (sprintf_d b) = (if b = fd then Some (Some a) else hm_lookup (map_of_server s) (sprintf_d b))"
  shows "clients_of s' = (clients_of s)(fd \<mapsto> c)"
proof -
  have "hm_lookup (map_of_server s) (sprintf_d b) \<noteq> Some (Some a)" for b
    using clients_inv_keyD [OF assms(1), of "sprintf_d b" "Some a"] assms(2) by auto
  then show ?thesis by (auto simp: clients_of_def law assms(3) fun_eq_iff split: option.splits)
qed

lemma put_client_spec:
  assumes "clients_inv s" "valid_fd fd" "clients_of s fd = None" "client_socket c = fd" "a = next_addr s"
  defines "s1 \<equiv> s\<lparr>heap := (heap s)(a \<mapsto> c), next_addr := Suc a\<rparr>"
  shows "\<exists>s'. put_client_in_hashmap fd (Some a) s1 = Inr s' \<and> clients_inv s' \<and>
    clients_of s' = (clients_of s)(fd \<mapsto> c) \<and> s' = s1\<lparr>clients := clients s'\<rparr>"
proof -
  obtain m where m: "clients s = LiveMap m" "hm_inv m" "hm_sized m" using clients_inv_map [OF assms(1)] by blast
  have room: "hm_room m" by (rule clients_inv_room [OF assms(1) m(1)])
  have l: "hm_lookup m (sprintf_d fd) = None"
    using assms(1) by (cases rule: clients_inv_lookup [where fd = fd]) (use assms(3) m(1) in auto)
  from hashmap_put_ok [OF m(2) room, of "sprintf_d fd" "Some a"] l obtain m' where
    m': "hashmap_put m (sprintf_d fd) (Some a) = Inr (1, m')" "hm_inv m'" "hm_lookup m' = (hm_lookup m)(sprintf_d fd \<mapsto> Some a)"
      "table_size m' = (if count m < max_size m then table_size m else 2 * table_size m)"
      "max_size m' = (if count m < max_size m then max_size m else 2 * max_size m)" by auto
  have "count m < 3 * 2 ^ 28" using clients_inv_count [OF assms(1)] m(1,2) by simp
  from hm_sized_put [OF m(2,3) this m'(4,5)] have sized: "hm_sized m'" .
  have fresh: "heap s a = None"
    using clients_inv_heapD(1) [OF assms(1)] assms(5) by (cases "heap s a") auto
  let ?s = "s1\<lparr>clients := LiveMap m'\<rparr>"
  have put: "put_client_in_hashmap fd (Some a) s1 = Inr ?s"
    by (simp add: put_client_in_hashmap_def socket_key_valid [OF assms(2)] s1_def m(1) m'(1) the_clients_def)
  have "clients_inv ?s"
    using l m(1) m'(3)
    by (auto intro!: clients_inv_insert [OF assms(1,2) _ assms(4,5) fresh _ m'(2) sized] simp: s1_def)
  moreover have "clients_of ?s = (clients_of s)(fd \<mapsto> c)"
    by (rule clients_of_insert [OF assms(1) fresh]) (simp_all add: s1_def m(1) lookup_after_put [OF m(2) room m'(1)])
  ultimately show ?thesis using put by (intro exI [of _ ?s]) simp
qed

end
