(* ===== verification/Server_Steps.thy ===== *)
theory Server_Steps
  imports Server_Inv
begin

text \<open>
  What each operation of the server does to the map of clients, and that it keeps the invariant:
  the handlers of messages, accepting, the callbacks run over all clients, and the sweep that kicks
  silent clients.
\<close>

section \<open>Handlers\<close>

lemma server_invI:
  assumes "clients_inv s'" "times_ok s'" "dom (clients_of s') = dom (clients_of s)" "server_inv s"
    "server_socket s' = server_socket s" "watched s' = watched s" "events s' = events s"
  shows "server_inv s'"
  using assms by (simp add: server_inv_def)

text \<open>The server with only its net state and heap different.\<close>

definition only_net_heap :: "server_t \<Rightarrow> server_t \<Rightarrow> bool" where
  "only_net_heap s s' \<longleftrightarrow> s' = s\<lparr>srv_net := srv_net s', heap := heap s'\<rparr>"

lemma only_net_heapD:
  assumes "only_net_heap s s'"
  shows "server_socket s' = server_socket s" "watched s' = watched s" "events s' = events s"
    "accepts s' = accepts s" "accept_res s' = accept_res s" "epoll_ctl_res s' = epoll_ctl_res s"
    "exit_status s' = exit_status s" "malloc_junk s' = malloc_junk s" "next_addr s' = next_addr s"
    "clients s' = clients s" "threads_done s' = threads_done s"
  using assms unfolding only_net_heap_def by (metis server_t.select_convs server_t.surjective server_t.update_convs(6,11))+

definition updates_client :: "int \<Rightarrow> (client_t \<Rightarrow> client_t) \<Rightarrow> server_t \<Rightarrow> server_t \<Rightarrow> bool" where
  "updates_client fd f s s' \<longleftrightarrow> only_net_heap s s' \<and> clients_inv s' \<and> clock (srv_net s') = clock (srv_net s) \<and>
    (times_ok s \<longrightarrow> (\<forall>c. time_ok (last_activity c) \<longrightarrow> time_ok (last_activity (f c)))) \<and>
    clients_of s' = (clients_of s)(fd := map_option f (clients_of s fd))"

lemma updates_client_inv:
  assumes "server_inv s" "updates_client fd f s s'"
  shows "server_inv s'"
proof (rule server_invI [OF _ _ _ assms(1)])
  show "clients_inv s'" using assms(2) by (simp add: updates_client_def)
  have "malloc_junk s' = malloc_junk s" using assms(2) only_net_heapD(8) by (simp add: updates_client_def)
  then show "times_ok s'"
    using assms by (auto simp: updates_client_def times_ok_def clock_ok_def server_inv_def split: if_splits)
  show "dom (clients_of s') = dom (clients_of s)"
    using assms(2) by (auto simp: updates_client_def dom_def)
qed (use assms(2) only_net_heapD in \<open>auto simp: updates_client_def\<close>)

lemma read_client_net [simp]: "read_client (s\<lparr>srv_net := w\<rparr>) p = read_client s p"
  by (cases p) (simp_all add: read_client_def)

lemma get_client_net [simp]: "get_client_by_socket (s\<lparr>srv_net := w\<rparr>) fd = get_client_by_socket s fd"
  by (simp add: get_client_by_socket_def the_clients_def)

lemma upd_client_net:
  "upd_client f p (s\<lparr>srv_net := w\<rparr>) = bind_res (upd_client f p s) (\<lambda>s'. Inr (s'\<lparr>srv_net := w\<rparr>))"
  by (cases "read_client s p") (simp_all add: upd_client_def)

text \<open>Finding a client and changing fields of it.\<close>

lemma update_known_client:
  assumes "clients_inv s" "clients_of s fd = Some c" "client_socket (f c) = client_socket c"
    and "clock w = clock (srv_net s)" "times_ok s \<Longrightarrow> \<forall>c. time_ok (last_activity c) \<longrightarrow> time_ok (last_activity (f c))"
  shows "\<exists>p s'. get_client_by_socket s fd = Inr p \<and> p \<noteq> None \<and>
    upd_client f p (s\<lparr>srv_net := w\<rparr>) = Inr s' \<and> updates_client fd f s s' \<and> srv_net s' = w"
proof -
  have v: "valid_fd fd" using clients_of_socket [OF assms(1,2)] by simp
  from upd_client_spec [where f = f, OF assms(1) v assms(2,3)] obtain p s1 where
    s1: "get_client_by_socket s fd = Inr p" "p \<noteq> None" "upd_client f p s = Inr s1" "clients_inv s1"
      "clients_of s1 = (clients_of s)(fd \<mapsto> f c)" "s1 = s\<lparr>heap := heap s1\<rparr>" by blast
  have "only_net_heap s (s1\<lparr>srv_net := w\<rparr>)"
    unfolding only_net_heap_def by (subst s1(6)) simp
  with s1 assms(2,4,5) have "updates_client fd f s (s1\<lparr>srv_net := w\<rparr>)" by (auto simp: updates_client_def)
  with s1 show ?thesis
    by (intro exI [of _ p] exI [of _ "s1\<lparr>srv_net := w\<rparr>"]) (simp add: upd_client_net)
qed

lemma handle_pong_known:
  assumes "clients_inv s" "clients_of s fd = Some c"
  shows "\<exists>s'. handle_pong fd s = Inr s' \<and>
    updates_client fd (\<lambda>c. c\<lparr>last_activity := clock (srv_net s) (readings (srv_net s))\<rparr>) s s'"
  using update_known_client [OF assms, of "\<lambda>c. c\<lparr>last_activity := clock (srv_net s) (readings (srv_net s))\<rparr>"
      "snd (time_now (srv_net s))"]
  by (auto simp: handle_pong_def srv_time_def time_now_def times_ok_def clock_ok_def)

lemma handle_battery_known:
  assumes "clients_inv s" "clients_of s fd = Some c"
  shows "\<exists>s'. handle_low_battery_request fd s = Inr s' \<and> updates_client fd (\<lambda>c. c\<lparr>battery_state := LOW\<rparr>) s s'"
    and "\<exists>s'. handle_high_battery_request fd s = Inr s' \<and> updates_client fd (\<lambda>c. c\<lparr>battery_state := OK\<rparr>) s s'"
  using update_known_client [OF assms, of "\<lambda>c. c\<lparr>battery_state := LOW\<rparr>" "srv_net s"]
    update_known_client [OF assms, of "\<lambda>c. c\<lparr>battery_state := OK\<rparr>" "srv_net s"]
  by (auto simp: handle_low_battery_request_def handle_high_battery_request_def)

lemma handle_rach_known:
  fixes m :: s_message
  assumes "clients_inv s" "clients_of s fd = Some c"
  defines "t \<equiv> clock (srv_net s) (readings (srv_net s))"
  defines "i \<equiv> to_uint8 (extractPreambleIndex (ra_rnti (get_preamble m)))"
  shows "\<exists>s'. handle_random_access_request fd m s = Inr s' \<and>
    updates_client fd (\<lambda>c. c\<lparr>preamble_index := to_int8 i, last_activity := t, first_connection_timestamp := t,
      rnti := to_int16 (ra_rnti (get_preamble m)), battery_state := OK\<rparr>) s s' \<and>
    srv_net s' = snd (write_msg fd (set_timestamp t (set_rapid (to_int8 i) (set_type zero_message random_access_response)))
      (snd (time_now (srv_net s))))"
  using update_known_client [OF assms(1,2), of "\<lambda>c. c\<lparr>preamble_index := to_int8 i, last_activity := t,
      first_connection_timestamp := t, rnti := to_int16 (ra_rnti (get_preamble m)), battery_state := OK\<rparr>"
      "snd (write_msg fd (set_timestamp t (set_rapid (to_int8 i) (set_type zero_message random_access_response)))
      (snd (time_now (srv_net s))))"]
  by (auto simp: handle_random_access_request_def update_client_by_ra_rnti_data_def send_random_access_response_def
      srv_time_def srv_send_def time_now_def t_def i_def times_ok_def clock_ok_def split_beta Let_def)

lemma send_rrc_setup_known:
  assumes "clients_inv s" "clients_of s fd = Some c"
  shows "send_rrc_setup fd s = Inr (s\<lparr>srv_net := snd (write_msg fd
    (set_rrc_response (generate_rrc_config (rnti c)) (set_type zero_message rrc_setup)) (srv_net s))\<rparr>)"
proof -
  have v: "valid_fd fd" using clients_of_socket [OF assms] by simp
  from get_client_by_socket_spec [OF assms(1) v] assms(2) obtain a where
    "get_client_by_socket s fd = Inr (Some a)" "heap s a = Some c" by auto
  then show ?thesis
    by (simp add: send_rrc_setup_def get_client_rnti_def read_client_def srv_send_def split_beta Let_def)
qed

lemma net_only_updates:
  "clients_inv s \<Longrightarrow> clock w = clock (srv_net s) \<Longrightarrow> updates_client fd (\<lambda>c. c) s (s\<lparr>srv_net := w\<rparr>)"
  by (auto simp: updates_client_def only_net_heap_def option.map_ident)

text \<open>Closing and deleting a client.\<close>

definition removes_client :: "int \<Rightarrow> server_t \<Rightarrow> server_t \<Rightarrow> bool" where
  "removes_client fd s s' \<longleftrightarrow> clients_inv s' \<and> clients_of s' = (clients_of s)(fd := None) \<and>
    watched s' = watched s - {fd} \<and> closed (srv_net s') = closed (srv_net s) @ [fd] \<and> clock (srv_net s') = clock (srv_net s) \<and>
    s' = s\<lparr>clients := clients s', heap := heap s', srv_net := srv_net s', watched := watched s'\<rparr>"

lemma close_and_delete:
  assumes "clients_inv s" "valid_fd fd"
  shows "\<exists>s'. delete_client_from_hashmap fd (srv_close fd s) = Inr s' \<and> removes_client fd s s' \<and>
    (\<forall>k. k \<noteq> sprintf_d fd \<longrightarrow> hm_lookup (map_of_server s') k = hm_lookup (map_of_server s) k) \<and>
    (\<exists>r. hashmap_delete (map_of_server s) (sprintf_d fd) = Inr (r, map_of_server s')) \<and>
    srv_net s' = (srv_net s)\<lparr>closed := closed (srv_net s) @ [fd]\<rparr>"
proof -
  have inv: "clients_inv (srv_close fd s)" "clients_of (srv_close fd s) = clients_of s"
    using clients_inv_cong [of "srv_close fd s" s] assms(1) by (simp_all add: srv_calls_keep)
  from delete_client_spec [OF inv(1) assms(2)] obtain s' where
    s': "delete_client_from_hashmap fd (srv_close fd s) = Inr s'" "clients_inv s'"
      "clients_of s' = (clients_of (srv_close fd s))(fd := None)"
      "s' = (srv_close fd s)\<lparr>clients := clients s', heap := heap s'\<rparr>"
      "\<forall>k. k \<noteq> sprintf_d fd \<longrightarrow> hm_lookup (map_of_server s') k = hm_lookup (map_of_server (srv_close fd s)) k"
      "\<exists>r. hashmap_delete (map_of_server (srv_close fd s)) (sprintf_d fd) = Inr (r, map_of_server s')" by blast
  have mp: "map_of_server (srv_close fd s) = map_of_server s" by (simp add: map_of_server_def srv_calls_keep)
  have w: "watched s' = watched s - {fd}" "srv_net s' = (srv_net s)\<lparr>closed := closed (srv_net s) @ [fd]\<rparr>"
    by (subst s'(4), simp add: srv_close_def close_fd_def)+
  have "s' = s\<lparr>clients := clients s', heap := heap s', srv_net := srv_net s', watched := watched s'\<rparr>"
    unfolding w by (subst s'(4)) (simp add: srv_close_def close_fd_def)
  with s' w inv(2) show ?thesis by (intro exI [of _ s']) (simp add: removes_client_def mp)
qed

lemma removes_client_inv:
  assumes "server_inv s" "removes_client fd s s'" "fd \<noteq> server_socket s"
  shows "server_inv s'"
proof -
  from assms(2) have f: "s' = s\<lparr>clients := clients s', heap := heap s', srv_net := srv_net s', watched := watched s'\<rparr>"
    unfolding removes_client_def by blast
  have "server_socket s' = server_socket s" "events s' = events s" "malloc_junk s' = malloc_junk s" by (subst f, simp)+
  with assms show ?thesis by (auto simp: server_inv_def removes_client_def times_ok_def clock_ok_def split: if_splits)
qed

section \<open>Packets of a known client\<close>

lemma dispatch_known:
  assumes "clients_inv s" "clients_of s fd = Some c"
  shows "\<exists>s'. dispatch fd m s = Inr s' \<and> ((\<exists>f. updates_client fd f s s') \<or> removes_client fd s s')"
proof -
  have v: "valid_fd fd" using clients_of_socket [OF assms] by simp
  have same: "\<exists>f. updates_client fd f s s"
    using net_only_updates [OF assms(1) refl, of fd] by auto
  show ?thesis
  proof (cases "msg_label (message_type m)")
    case None
    with same show ?thesis by (simp add: dispatch_def)
  next
    case (Some t)
    show ?thesis
    proof (cases t)
      case random_access_request
      with Some handle_rach_known [OF assms, of m] show ?thesis by (auto simp: dispatch_def)
    next
      case rrc_request
      with Some send_rrc_setup_known [OF assms] net_only_updates [OF assms(1) net_clock(3)] show ?thesis
        by (auto simp: dispatch_def)
    next
      case ue_battery_low
      with Some handle_battery_known(1) [OF assms] show ?thesis by (auto simp: dispatch_def)
    next
      case ue_battery_high
      with Some handle_battery_known(2) [OF assms] show ?thesis by (auto simp: dispatch_def)
    next
      case pong
      with Some handle_pong_known [OF assms] show ?thesis by (auto simp: dispatch_def)
    next
      case ue_off
      with Some close_and_delete [OF assms(1) v] show ?thesis
        by (auto simp: dispatch_def handle_client_power_off_def)
    qed (use Some same in \<open>simp_all add: dispatch_def\<close>)
  qed
qed

definition srv_recv_next :: "server_t \<Rightarrow> byte list option" where
  "srv_recv_next s = recv_res (srv_net s) (recvs (srv_net s))"

lemma parse_packet_known:
  assumes "server_inv s" "n < length (events s)" "events s ! n = fd" "fd \<in> dom (clients_of s)"
    "srv_recv_next s \<noteq> None"
  shows "\<exists>s'. parse_packet n s = Inr s' \<and> server_inv s' \<and> watched s' \<supseteq> watched s - {fd} \<and>
    watched s' \<subseteq> watched s \<and> events s' = events s \<and> server_socket s' = server_socket s \<and> exit_status s' = exit_status s"
proof -
  have inv: "clients_inv s" and ns: "fd \<noteq> server_socket s" using assms(1,4) by (auto simp: server_inv_def)
  obtain c where c: "clients_of s fd = Some c" using assms(4) by blast
  have v: "valid_fd fd" using clients_of_socket [OF inv c] by simp
  obtain bs w where r: "recv_bytes (srv_net s) = (Some bs, w)"
    using assms(5) by (auto simp: recv_bytes_def srv_recv_next_def)
  let ?s = "s\<lparr>srv_net := w\<rparr>"
  have p: "parse_packet n s = (if bs = [] then delete_client_from_hashmap fd (srv_close fd ?s)
      else dispatch fd (recv_into zero_message bs) ?s)"
    using assms(2,3) r by (simp add: parse_packet_def event_socket_def srv_read_def)
  have "clock w = clock (srv_net s)" using r net_clock(1) [of "srv_net s"] by simp
  then have inv1: "clients_inv ?s" "clients_of ?s fd = Some c" "server_inv ?s" using inv c assms(1) by simp_all
  have "\<exists>s'. parse_packet n s = Inr s' \<and> ((\<exists>f. updates_client fd f ?s s') \<or> removes_client fd ?s s')"
    using p close_and_delete [OF inv1(1) v] dispatch_known [OF inv1(1,2), of "recv_into zero_message bs"] by auto
  then obtain s' where s': "parse_packet n s = Inr s'" "(\<exists>f. updates_client fd f ?s s') \<or> removes_client fd ?s s'"
    by blast
  from s'(2) show ?thesis
  proof
    assume "\<exists>f. updates_client fd f ?s s'"
    then obtain f where u: "updates_client fd f ?s s'" by blast
    from updates_client_inv [OF inv1(3) u] u s'(1) only_net_heapD [of ?s s'] show ?thesis
      by (auto simp: updates_client_def)
  next
    assume u: "removes_client fd ?s s'"
    then have f: "s' = ?s\<lparr>clients := clients s', heap := heap s', srv_net := srv_net s', watched := watched s'\<rparr>"
      unfolding removes_client_def by blast
    have "server_socket s' = server_socket s" "events s' = events s" "exit_status s' = exit_status s"
      by (subst f, simp)+
    moreover have "watched s' = watched s - {fd}" using u by (simp add: removes_client_def)
    moreover have "server_inv s'" using removes_client_inv [OF inv1(3) u] ns by simp
    ultimately show ?thesis using s'(1) by auto
  qed
qed

section \<open>Accepting\<close>

definition accept_ok :: "server_t \<Rightarrow> bool" where
  "accept_ok s \<longleftrightarrow> valid_fd (accept_res s (accepts s)) \<and> accept_res s (accepts s) \<notin> watched s \<and>
    epoll_ctl_res s (accepts s) \<noteq> -1"

lemma accept_client_ok:
  assumes "server_inv s" "accept_ok s"
  defines "fd \<equiv> accept_res s (accepts s)"
  shows "\<exists>s'. accept_client s = Inr s' \<and> server_inv s' \<and> watched s' = insert fd (watched s) \<and>
    clients_of s' = (clients_of s)(fd \<mapsto> (malloc_junk s (accepts s))\<lparr>client_socket := fd\<rparr>) \<and>
    events s' = events s \<and> server_socket s' = server_socket s \<and> exit_status s' = exit_status s \<and> srv_net s' = srv_net s \<and>
    s' = s\<lparr>heap := (heap s)(next_addr s \<mapsto> (malloc_junk s (accepts s))\<lparr>client_socket := fd\<rparr>), next_addr := Suc (next_addr s),
      accepts := Suc (accepts s), event_fd := fd, watched := insert fd (watched s), clients := clients s'\<rparr>"
proof -
  let ?c = "(malloc_junk s (accepts s))\<lparr>client_socket := fd\<rparr>"
  let ?s1 = "s\<lparr>accepts := Suc (accepts s), event_fd := fd, watched := insert fd (watched s)\<rparr>"
  have inv: "clients_inv s" using assms(1) by (simp add: server_inv_def)
  have fd: "valid_fd fd" "fd \<notin> watched s" "fd \<noteq> -1" "epoll_ctl_res s (accepts s) \<noteq> -1"
    using assms(2) by (auto simp: accept_ok_def fd_def valid_fd_def)
  then have new: "clients_of s fd = None" "fd \<noteq> server_socket s" using assms(1) by (auto simp: server_inv_def)
  have inv1: "clients_inv ?s1" "clients_of ?s1 = clients_of s"
    using clients_inv_cong [of ?s1 s] inv by simp_all
  from put_client_spec [OF inv1(1) fd(1), of ?c "next_addr s"] new inv1(2) obtain s' where
    s': "put_client_in_hashmap fd (Some (next_addr s)) (?s1\<lparr>heap := (heap s)(next_addr s \<mapsto> ?c), next_addr := Suc (next_addr s)\<rparr>) = Inr s'"
      "clients_inv s'" "clients_of s' = (clients_of s)(fd \<mapsto> ?c)"
      "s' = ?s1\<lparr>heap := (heap s)(next_addr s \<mapsto> ?c), next_addr := Suc (next_addr s), clients := clients s'\<rparr>" by auto
  have a: "accept_client s = put_client_in_hashmap fd (Some (next_addr s))
      (?s1\<lparr>heap := (heap s)(next_addr s \<mapsto> ?c), next_addr := Suc (next_addr s)\<rparr>)"
    using fd by (simp add: accept_client_def fd_def [symmetric] Let_def) (rule arg_cong [where f = "put_client_in_hashmap fd (Some (next_addr s))"], rule server_t.equality, simp_all)
  have f: "watched s' = insert fd (watched s)" "events s' = events s" "server_socket s' = server_socket s"
    "exit_status s' = exit_status s" "srv_net s' = srv_net s" "malloc_junk s' = malloc_junk s"
    by (subst s'(4), simp)+
  have "times_ok s'" using assms(1) s'(3) f by (auto simp: server_inv_def times_ok_def split: if_splits)
  then have "server_inv s'"
    using assms(1) s'(2,3) f new by (auto simp: server_inv_def)
  moreover have "s' = s\<lparr>heap := (heap s)(next_addr s \<mapsto> ?c), next_addr := Suc (next_addr s), accepts := Suc (accepts s),
      event_fd := fd, watched := insert fd (watched s), clients := clients s'\<rparr>"
    by (subst s'(4)) (rule server_t.equality, simp_all)
  ultimately show ?thesis using a s' f by (intro exI [of _ s']) simp
qed

section \<open>Batches of events\<close>

text \<open>What the environment must deliver for the events of a batch: a new descriptor for a
  connection, something to read for a client.\<close>

fun batch_ok :: "nat list \<Rightarrow> server_t \<Rightarrow> bool" where
  "batch_ok [] s \<longleftrightarrow> True"
| "batch_ok (n # ns) s \<longleftrightarrow>
    (if events s ! n = server_socket s then accept_ok s else srv_recv_next s \<noteq> None) \<and>
    (case (if events s ! n = server_socket s then accept_client s else parse_packet n s) of
       Inl e \<Rightarrow> True | Inr s' \<Rightarrow> batch_ok ns s')"

lemma handle_events_ok:
  assumes "server_inv s" "exit_status s = None" "\<forall>n \<in> set ns. n < 100 \<and> events s ! n \<in> watched s"
    "distinct (map (\<lambda>n. events s ! n) ns)" "batch_ok ns s"
  shows "\<exists>s'. handle_events ns s = Inr s' \<and> server_inv s' \<and> exit_status s' = None"
  using assms
proof (induction ns arbitrary: s)
  case Nil
  then show ?case by simp
next
  case (Cons n ns)
  let ?fd = "events s ! n"
  have n: "n < length (events s)" "?fd \<in> watched s" using Cons.prems(1,3) by (auto simp: server_inv_def)
  let ?r = "if ?fd = server_socket s then accept_client s else parse_packet n s"
  have "\<exists>s1. ?r = Inr s1 \<and> server_inv s1 \<and> watched s - {?fd} \<subseteq> watched s1 \<and> events s1 = events s \<and>
      server_socket s1 = server_socket s \<and> exit_status s1 = exit_status s"
  proof (cases "?fd = server_socket s")
    case True
    with accept_client_ok [OF Cons.prems(1)] Cons.prems(5) show ?thesis by auto
  next
    case False
    with n(2) Cons.prems(1) have "?fd \<in> dom (clients_of s)" by (auto simp: server_inv_def)
    with parse_packet_known [OF Cons.prems(1) n(1) refl] Cons.prems(5) False show ?thesis by auto
  qed
  then obtain s1 where s1: "?r = Inr s1" "server_inv s1" "watched s - {?fd} \<subseteq> watched s1" "events s1 = events s"
      "server_socket s1 = server_socket s" "exit_status s1 = exit_status s" by blast
  have "\<forall>n \<in> set ns. n < 100 \<and> events s1 ! n \<in> watched s1"
  proof
    fix k assume k: "k \<in> set ns"
    then have "events s ! k \<in> (\<lambda>n. events s ! n) ` set ns" by (rule imageI)
    then have "events s ! k \<noteq> ?fd" using Cons.prems(4) by auto
    then have "events s ! k \<in> watched s - {?fd}" using k Cons.prems(3) by simp
    with s1(3,4) k Cons.prems(3) show "k < 100 \<and> events s1 ! k \<in> watched s1" by auto
  qed
  moreover have "distinct (map (\<lambda>n. events s1 ! n) ns)" using Cons.prems(4) s1(4) by simp
  moreover have "batch_ok ns s1" using Cons.prems(5) s1(1) by (auto split: if_splits)
  ultimately obtain s' where "handle_events ns s1 = Inr s'" "server_inv s'" "exit_status s' = None"
    using Cons.IH [OF s1(2)] Cons.prems(2) s1(6) by auto
  moreover have "handle_events (n # ns) s = bind_res ?r (handle_events ns)"
    using Cons.prems(2) n(1) by (simp add: event_socket_def)
  ultimately show ?case using s1(1) by simp
qed

section \<open>Callbacks over all clients\<close>

text \<open>The clients as a list, in the order of the table.\<close>

definition client_list :: "server_t \<Rightarrow> client_t list \<Rightarrow> bool" where
  "client_list s cs \<longleftrightarrow> distinct (map client_socket cs) \<and>
    (\<forall>fd c. clients_of s fd = Some c \<longleftrightarrow> c \<in> set cs \<and> client_socket c = fd)"

lemma bindings_client_list:
  assumes "clients_inv s" "distinct (map fst kvs)" "map_of kvs = hm_lookup (map_of_server s)"
  shows "\<exists>cs. client_list s cs \<and> list_all2 (\<lambda>kv c. read_client s (snd kv) = Inr c) kvs cs"
proof -
  define f where "f kv = the (heap s (the (snd kv)))" for kv :: "string \<times> addr option"
  have kv: "read_client s (snd kv) = Inr (f kv) \<and> fst kv = sprintf_d (client_socket (f kv)) \<and>
      clients_of s (client_socket (f kv)) = Some (f kv)"
    if "kv \<in> set kvs" for kv
  proof -
    have "hm_lookup (map_of_server s) (fst kv) = Some (snd kv)"
      using that assms(2,3) by (metis map_of_is_SomeI prod.collapse)
    from clients_inv_keyD [OF assms(1) this] obtain a c where
      "snd kv = Some a" "heap s a = Some c" "fst kv = sprintf_d (client_socket c)" by blast
    with \<open>hm_lookup (map_of_server s) (fst kv) = Some (snd kv)\<close> show ?thesis
      by (simp add: f_def read_client_def clients_of_def)
  qed
  have "list_all2 (\<lambda>kv c. read_client s (snd kv) = Inr c) kvs (map f kvs)"
    using kv by (simp add: list_all2_conv_all_nth)
  moreover have "client_list s (map f kvs)"
    unfolding client_list_def
  proof (intro conjI allI)
    have "map fst kvs = map sprintf_d (map client_socket (map f kvs))" using kv by simp
    with assms(2) have "distinct (map sprintf_d (map client_socket (map f kvs)))" by simp
    then show "distinct (map client_socket (map f kvs))" by (metis distinct_map)
  next
    fix fd c
    show "clients_of s fd = Some c \<longleftrightarrow> c \<in> set (map f kvs) \<and> client_socket c = fd"
    proof
      assume c: "clients_of s fd = Some c"
      with assms(1) obtain a where "hm_lookup (map_of_server s) (sprintf_d fd) = Some (Some a)" "heap s a = Some c"
        "client_socket c = fd"
        by (cases rule: clients_inv_lookup [where fd = fd]) auto
      then have "(sprintf_d fd, Some a) \<in> set kvs" "f (sprintf_d fd, Some a) = c"
        using assms(3) by (auto simp: f_def intro: map_of_SomeD)
      with \<open>client_socket c = fd\<close> show "c \<in> set (map f kvs) \<and> client_socket c = fd" by force
    next
      assume "c \<in> set (map f kvs) \<and> client_socket c = fd"
      with kv show "clients_of s fd = Some c" by auto
    qed
  qed
  ultimately show ?thesis by blast
qed

text \<open>Callbacks that read the client and only talk to the network, as long as \<open>Q\<close> holds of it.\<close>

lemma iter_clients_net:
  assumes "clients_inv s" "keeps_map map_of_server cb" "Q (srv_net s)" "\<forall>fd c. clients_of s fd = Some c \<longrightarrow> P c"
    and cb: "\<And>s k v c. Q (srv_net s) \<Longrightarrow> P c \<Longrightarrow> read_client s v = Inr c \<Longrightarrow>
      cb s k v = Inr (0, s\<lparr>srv_net := g c (srv_net s)\<rparr>) \<and> Q (g c (srv_net s))"
  shows "\<exists>cs. client_list s cs \<and> iter_clients cb s = Inr (0, s\<lparr>srv_net := fold g cs (srv_net s)\<rparr>) \<and>
    Q (fold g cs (srv_net s))"
proof -
  obtain m where m: "clients s = LiveMap m" "hm_inv m" using clients_inv_map [OF assms(1)] by blast
  then have "hm_inv (map_of_server s)" by simp
  from hashmap_iter_run_cb [OF assms(2) this] obtain kvs where
    kvs: "distinct (map fst kvs)" "map_of kvs = hm_lookup (map_of_server s)" "hashmap_iter map_of_server cb s = run_cb cb kvs s"
    by blast
  from bindings_client_list [OF assms(1) kvs(1,2)] obtain cs where
    cs: "client_list s cs" "list_all2 (\<lambda>kv c. read_client s (snd kv) = Inr c) kvs cs" by blast
  have this_run: "run_cb cb kvs s' = Inr (0, s'\<lparr>srv_net := fold g cs (srv_net s')\<rparr>) \<and> Q (fold g cs (srv_net s'))"
    if "list_all2 (\<lambda>kv c. read_client s' (snd kv) = Inr c) kvs cs" "Q (srv_net s')" "\<forall>c \<in> set cs. P c" for s' kvs cs
    using that
  proof (induction kvs arbitrary: s' cs)
    case Nil
    then show ?case by simp
  next
    case (Cons kv kvs)
    then obtain c cs' where c: "cs = c # cs'" "read_client s' (snd kv) = Inr c"
      "list_all2 (\<lambda>kv c. read_client s' (snd kv) = Inr c) kvs cs'" by (auto simp: list_all2_Cons1)
    let ?s = "s'\<lparr>srv_net := g c (srv_net s')\<rparr>"
    have pc: "P c" "\<forall>c \<in> set cs'. P c" using Cons.prems(3) c(1) by simp_all
    from cb [OF Cons.prems(2) pc(1) c(2)] have r: "cb s' (fst kv) (snd kv) = Inr (0, ?s)" "Q (srv_net ?s)" by auto
    from Cons.IH [of ?s cs'] c(3) r(2) pc(2) have "run_cb cb kvs ?s = Inr (0, ?s\<lparr>srv_net := fold g cs' (srv_net ?s)\<rparr>)"
      "Q (fold g cs' (srv_net ?s))" by auto
    then show ?case using r(1) c(1) by simp
  qed
  have "\<forall>c \<in> set cs. P c" using cs(1) assms(4) by (auto simp: client_list_def)
  from this_run [OF cs(2) assms(3) this] cs(1) kvs(3) m(1) show ?thesis
    by (intro exI [of _ cs]) (simp add: iter_clients_def)
qed

end
