(* ===== verification/Server_Passes.thy ===== *)
theory Server_Passes
  imports Server_Steps
begin

text \<open>
  The periodic passes over all clients, the end of the server and its start: pings and the
  inactivity sweep, measurement requests, the shutdown notice, \<open>clean\<close> and \<open>init_server\<close>.
\<close>

section \<open>Pings\<close>

definition ping_due :: "client_t \<Rightarrow> int \<Rightarrow> bool" where
  "ping_due c t \<longleftrightarrow>
    battery_state c = OK \<and> PING_TIME_NORMAL < t - last_activity c \<or>
    battery_state c = LOW \<and> PING_TIME_LOW_BATTERY < t - last_activity c"

definition ping_net :: "client_t \<Rightarrow> net \<Rightarrow> net" where
  "ping_net c w =
    (if ping_due c (clock w (readings w))
     then snd (write_msg (client_socket c) (set_type zero_message ping) (snd (time_now w)))
     else snd (time_now w))"

lemma map_of_server_net [simp]: "map_of_server (s\<lparr>srv_net := w\<rparr>) = map_of_server s"
  by (simp add: map_of_server_def)

lemma ping_client_net:
  "ping_client s k v = bind_res (read_client s v) (\<lambda>c.
    bind_res (c_time_t (clock (srv_net s) (readings (srv_net s)) - last_activity c)) (\<lambda>_.
      Inr (0, s\<lparr>srv_net := ping_net c (srv_net s)\<rparr>)))"
proof (cases "read_client s v")
  case (Inl e)
  then show ?thesis by (simp add: ping_client_def srv_time_def split_beta Let_def)
next
  case (Inr c)
  let ?d = "clock (srv_net s) (readings (srv_net s)) - last_activity c"
  show ?thesis
  proof (cases "c_time_t ?d")
    case (Inl e)
    with Inr show ?thesis by (simp add: ping_client_def srv_time_def time_now_def)
  next
    case (Inr d)
    then have "d = ?d" by (simp add: c_time_t_def split: if_splits)
    with Inr \<open>read_client s v = Inr c\<close> show ?thesis
      by (simp add: ping_client_def srv_time_def srv_send_def ping_net_def ping_due_def time_now_def split_beta Let_def)
  qed
qed

lemma keeps_map_net:
  assumes "\<And>s k v. cb s k v = bind_res (read_client s v) (\<lambda>c. bind_res (h c s) (\<lambda>_. Inr (0, s\<lparr>srv_net := g c (srv_net s)\<rparr>)))"
  shows "keeps_map map_of_server cb"
  unfolding keeps_map_def by (auto simp: assms bind_res_Inr_iff)

lemma keeps_map_net':
  assumes "\<And>s k v. cb s k v = bind_res (read_client s v) (\<lambda>c. Inr (0, s\<lparr>srv_net := g c (srv_net s)\<rparr>))"
  shows "keeps_map map_of_server cb"
  by (rule keeps_map_net [where h = "\<lambda>_ _. Inr ()" and g = g]) (simp add: assms)

text \<open>The pings of a pass, the clock being read once for each client.\<close>

fun ping_trace :: "(nat \<Rightarrow> int) \<Rightarrow> nat \<Rightarrow> client_t list \<Rightarrow> (int \<times> s_message) list" where
  "ping_trace clk r [] = []"
| "ping_trace clk r (c # cs) =
    (if ping_due c (clk r) then [(client_socket c, set_type zero_message ping)] else []) @ ping_trace clk (Suc r) cs"

lemma ping_net_simps:
  "clock (ping_net c w) = clock w" "readings (ping_net c w) = Suc (readings w)" "closed (ping_net c w) = closed w"
  "writes_ok w \<Longrightarrow> writes_ok (ping_net c w)"
  "writes_ok w \<Longrightarrow> outbox (ping_net c w) =
    outbox w @ (if ping_due c (clock w (readings w)) then [(client_socket c, set_type zero_message ping)] else [])"
  by (simp_all add: ping_net_def time_now_def write_msg_def writes_ok_def Let_def)

lemma fold_ping_keeps [simp]:
  "clock (fold ping_net cs w) = clock w" "closed (fold ping_net cs w) = closed w"
  "writes_ok w \<Longrightarrow> writes_ok (fold ping_net cs w)"
  by (induction cs arbitrary: w) (simp_all add: ping_net_simps)

lemma fold_ping_readings: "readings w \<le> readings (fold ping_net cs w)"
proof (induction cs arbitrary: w)
  case (Cons c cs)
  from Cons.IH [of "ping_net c w"] show ?case by (simp add: ping_net_simps)
qed simp

lemma fold_ping:
  "writes_ok w \<Longrightarrow> outbox (fold ping_net cs w) = outbox w @ ping_trace (clock w) (readings w) cs"
  by (induction cs arbitrary: w) (simp_all add: ping_net_simps)

lemma iter_ping:
  assumes "clients_inv s" "times_ok s"
  shows "\<exists>cs. client_list s cs \<and> iter_clients ping_client s = Inr (0, s\<lparr>srv_net := fold ping_net cs (srv_net s)\<rparr>)"
proof -
  have q: "clock_ok (srv_net s)" "\<forall>fd c. clients_of s fd = Some c \<longrightarrow> time_ok (last_activity c)"
    using assms(2) by (simp_all add: times_ok_def)
  have "\<exists>cs. client_list s cs \<and> iter_clients ping_client s = Inr (0, s\<lparr>srv_net := fold ping_net cs (srv_net s)\<rparr>) \<and>
      clock_ok (fold ping_net cs (srv_net s))"
    by (rule iter_clients_net [where Q = clock_ok and P = "\<lambda>c. time_ok (last_activity c)", OF assms(1) _ q])
      (rule keeps_map_net, rule ping_client_net, simp add: ping_client_net clock_okD clock_ok_def ping_net_simps)
  then show ?thesis by blast
qed

section \<open>The inactivity sweep\<close>

text \<open>What the sweep may do: remove clients that one of its clock readings finds silent for longer
  than the timeout; nothing else changes.\<close>

definition kicks_silent :: "server_t \<Rightarrow> server_t \<Rightarrow> bool" where
  "kicks_silent s s' \<longleftrightarrow>
    clock (srv_net s') = clock (srv_net s) \<and> readings (srv_net s) \<le> readings (srv_net s') \<and>
    write_res (srv_net s') = write_res (srv_net s) \<and>
    (\<exists>ks. closed (srv_net s') = closed (srv_net s) @ ks \<and> distinct ks \<and> set ks = dom (clients_of s) - dom (clients_of s')) \<and>
    outbox (srv_net s') = outbox (srv_net s) \<and> events s' = events s \<and> server_socket s' = server_socket s \<and>
    exit_status s' = exit_status s \<and> threads_done s' = threads_done s \<and> void_ret s' = void_ret s \<and>
    (\<forall>fd. clients_of s' fd = clients_of s fd \<or>
      clients_of s' fd = None \<and> (\<exists>n c. clients_of s fd = Some c \<and>
        readings (srv_net s) \<le> n \<and> n < readings (srv_net s') \<and> PING_TIMEOUT < clock (srv_net s) n - last_activity c))"

lemma kicks_silentD:
  assumes "kicks_silent s s'"
  shows "clients_of s' fd = clients_of s fd \<or> clients_of s' fd = None \<and> (\<exists>n c. clients_of s fd = Some c \<and>
    readings (srv_net s) \<le> n \<and> PING_TIMEOUT < clock (srv_net s) n - last_activity c)"
  using assms unfolding kicks_silent_def by blast

lemma reflp_kicks: "reflp kicks_silent"
  by (rule reflpI) (simp add: kicks_silent_def)

lemma transp_kicks: "transp kicks_silent"
proof (rule transpI)
  fix s1 s2 s3 assume a: "kicks_silent s1 s2" and b: "kicks_silent s2 s3"
  have "clients_of s3 fd = clients_of s1 fd \<or> clients_of s3 fd = None \<and> (\<exists>n c. clients_of s1 fd = Some c \<and>
        readings (srv_net s1) \<le> n \<and> n < readings (srv_net s3) \<and> PING_TIMEOUT < clock (srv_net s1) n - last_activity c)" for fd
  proof (cases "clients_of s2 fd = clients_of s1 fd")
    case True
    with a b show ?thesis unfolding kicks_silent_def by (metis order_trans)
  next
    case False
    with a have "clients_of s2 fd = None" "\<exists>n c. clients_of s1 fd = Some c \<and>
        readings (srv_net s1) \<le> n \<and> n < readings (srv_net s2) \<and> PING_TIMEOUT < clock (srv_net s1) n - last_activity c"
      unfolding kicks_silent_def by blast+
    with b show ?thesis unfolding kicks_silent_def by (metis order_less_le_trans option.distinct(1))
  qed
  moreover have "\<exists>ks. closed (srv_net s3) = closed (srv_net s1) @ ks \<and> distinct ks \<and>
      set ks = dom (clients_of s1) - dom (clients_of s3)"
  proof -
    from a obtain ks where ks: "closed (srv_net s2) = closed (srv_net s1) @ ks" "distinct ks"
      "set ks = dom (clients_of s1) - dom (clients_of s2)" unfolding kicks_silent_def by blast
    from b obtain ls where ls: "closed (srv_net s3) = closed (srv_net s2) @ ls" "distinct ls"
      "set ls = dom (clients_of s2) - dom (clients_of s3)" unfolding kicks_silent_def by blast
    have "dom (clients_of s2) \<subseteq> dom (clients_of s1)" "dom (clients_of s3) \<subseteq> dom (clients_of s2)"
      using a b unfolding kicks_silent_def by (metis domIff subsetI)+
    with ks ls show ?thesis by (intro exI [of _ "ks @ ls"]) auto
  qed
  ultimately show "kicks_silent s1 s3" using a b unfolding kicks_silent_def by auto
qed

text \<open>One call of the callback.\<close>

lemma handle_client_inactivity_known:
  assumes "server_inv s" "hm_lookup (map_of_server s) k = Some v"
  obtains c where "clients_of s (client_socket c) = Some c" "k = sprintf_d (client_socket c)"
    "PING_TIMEOUT < clock (srv_net s) (readings (srv_net s)) - last_activity c"
    "\<exists>s'. handle_client_inactivity s k v = Inr (0, s') \<and>
      removes_client (client_socket c) (s\<lparr>srv_net := snd (time_now (srv_net s))\<rparr>) s' \<and>
      (\<forall>k'. k' \<noteq> k \<longrightarrow> hm_lookup (map_of_server s') k' = hm_lookup (map_of_server s) k') \<and>
      (\<exists>r. hashmap_delete (map_of_server s) k = Inr (r, map_of_server s')) \<and>
      srv_net s' = (snd (time_now (srv_net s)))\<lparr>closed := closed (srv_net s) @ [client_socket c]\<rparr>"
  | c where "clients_of s (client_socket c) = Some c" "k = sprintf_d (client_socket c)"
    "\<not> PING_TIMEOUT < clock (srv_net s) (readings (srv_net s)) - last_activity c"
    "handle_client_inactivity s k v = Inr (0, s\<lparr>srv_net := snd (time_now (srv_net s))\<rparr>)"
proof -
  have inv: "clients_inv s" using assms(1) by (simp add: server_inv_def)
  from clients_inv_keyD [OF inv assms(2)] obtain a c where
    a: "v = Some a" "heap s a = Some c" "k = sprintf_d (client_socket c)" "valid_fd (client_socket c)" by blast
  let ?s = "s\<lparr>srv_net := snd (time_now (srv_net s))\<rparr>" and ?fd = "client_socket c"
  have cl: "clients_of s ?fd = Some c" using a assms(2) by (simp add: clients_of_def)
  have t: "srv_time s = (clock (srv_net s) (readings (srv_net s)), ?s)" by (simp add: srv_time_def time_now_def)
  have r: "read_client ?s v = Inr c" "read_client (srv_close ?fd ?s) v = Inr c"
    using a by (simp_all add: read_client_def srv_calls_keep)
  have inv1: "clients_inv ?s" using inv by simp
  have ct: "c_time_t (clock (srv_net s) (readings (srv_net s)) - last_activity c) =
      Inr (clock (srv_net s) (readings (srv_net s)) - last_activity c)"
    using assms(1) cl by (intro c_time_t_ok) (auto simp: server_inv_def times_ok_def clock_ok_def)
  show ?thesis
  proof (cases "PING_TIMEOUT < clock (srv_net s) (readings (srv_net s)) - last_activity c")
    case True
    from close_and_delete [OF inv1 a(4)] obtain s' where
      s': "delete_client_from_hashmap ?fd (srv_close ?fd ?s) = Inr s'" "removes_client ?fd ?s s'"
        "\<forall>k. k \<noteq> sprintf_d ?fd \<longrightarrow> hm_lookup (map_of_server s') k = hm_lookup (map_of_server ?s) k"
        "\<exists>r. hashmap_delete (map_of_server ?s) (sprintf_d ?fd) = Inr (r, map_of_server s')"
        "srv_net s' = (srv_net ?s)\<lparr>closed := closed (srv_net ?s) @ [?fd]\<rparr>" by blast
    have "handle_client_inactivity s k v = Inr (0, s')"
      using True s'(1) r by (simp add: handle_client_inactivity_def t ct)
    with that(1) [OF cl a(3) True] s' a(3) show ?thesis by (auto simp: time_now_def)
  next
    case False
    have "handle_client_inactivity s k v = Inr (0, ?s)"
      using False r by (simp add: handle_client_inactivity_def t ct)
    with that(2) [OF cl a(3) False] show ?thesis by blast
  qed
qed

lemma removes_client_frame:
  assumes "removes_client fd s s'"
  shows "events s' = events s" "server_socket s' = server_socket s" "exit_status s' = exit_status s"
    "threads_done s' = threads_done s" "void_ret s' = void_ret s" "late_pass s' = late_pass s" "errno_eintr s' = errno_eintr s"
proof -
  have f: "s' = s\<lparr>clients := clients s', heap := heap s', srv_net := srv_net s', watched := watched s'\<rparr>"
    using assms unfolding removes_client_def by blast
  show "events s' = events s" "server_socket s' = server_socket s" "exit_status s' = exit_status s"
    "threads_done s' = threads_done s" "void_ret s' = void_ret s" "late_pass s' = late_pass s" "errno_eintr s' = errno_eintr s"
    by (subst f, simp)+
qed

definition sweep_inv :: "server_t \<Rightarrow> server_t \<Rightarrow> bool" where
  "sweep_inv s0 s \<longleftrightarrow> server_inv s \<and> late_pass s = late_pass s0 \<and> errno_eintr s = errno_eintr s0"

lemma inactivity_call:
  assumes "sweep_inv s0 s" "hm_lookup (map_of_server s) k = Some v"
  shows "\<exists>s1. handle_client_inactivity s k v = Inr (0, s1) \<and> sweep_inv s0 s1 \<and> kicks_silent s s1 \<and>
    (\<forall>k'. k' \<noteq> k \<longrightarrow> hm_lookup (map_of_server s1) k' = hm_lookup (map_of_server s) k') \<and>
    (map_of_server s1 = map_of_server s \<or> (\<exists>r. hashmap_delete (map_of_server s) k = Inr (r, map_of_server s1)))"
proof -
  have inv: "server_inv s" using assms(1) by (simp add: sweep_inv_def)
  let ?s = "s\<lparr>srv_net := snd (time_now (srv_net s))\<rparr>"
  show ?thesis
  proof (rule handle_client_inactivity_known [OF inv assms(2)])
    fix c
    assume c: "clients_of s (client_socket c) = Some c" "k = sprintf_d (client_socket c)"
      and late: "PING_TIMEOUT < clock (srv_net s) (readings (srv_net s)) - last_activity c"
      and "\<exists>s'. handle_client_inactivity s k v = Inr (0, s') \<and> removes_client (client_socket c) ?s s' \<and>
      (\<forall>k'. k' \<noteq> k \<longrightarrow> hm_lookup (map_of_server s') k' = hm_lookup (map_of_server s) k') \<and>
      (\<exists>r. hashmap_delete (map_of_server s) k = Inr (r, map_of_server s')) \<and>
      srv_net s' = (snd (time_now (srv_net s)))\<lparr>closed := closed (srv_net s) @ [client_socket c]\<rparr>"
    then obtain s' where s': "handle_client_inactivity s k v = Inr (0, s')" "removes_client (client_socket c) ?s s'"
      "\<forall>k'. k' \<noteq> k \<longrightarrow> hm_lookup (map_of_server s') k' = hm_lookup (map_of_server s) k'"
      "\<exists>r. hashmap_delete (map_of_server s) k = Inr (r, map_of_server s')"
      "srv_net s' = (snd (time_now (srv_net s)))\<lparr>closed := closed (srv_net s) @ [client_socket c]\<rparr>" by blast
    have ns: "client_socket c \<noteq> server_socket ?s" using c(1) inv by (auto simp: server_inv_def)
    have "server_inv s'" by (rule removes_client_inv [OF _ s'(2) ns]) (simp add: inv)
    moreover have "clients_of s' = (clients_of s)(client_socket c := None)"
      using s'(2) by (simp add: removes_client_def)
    then have "kicks_silent s s'"
      using removes_client_frame [OF s'(2)] s'(5) c(1) late by (fastforce simp: kicks_silent_def time_now_def)
    ultimately show ?thesis
      using s'(1,3,4) assms(1) removes_client_frame [OF s'(2)] by (auto simp: sweep_inv_def)
  next
    fix c
    assume "handle_client_inactivity s k v = Inr (0, ?s)"
    moreover have "kicks_silent s ?s" by (simp add: kicks_silent_def time_now_def)
    ultimately show ?thesis using assms(1) by (simp add: sweep_inv_def)
  qed
qed

lemma inactivity_deletes_current: "deletes_current (sweep_inv s0) map_of_server handle_client_inactivity"
  unfolding deletes_current_def
proof (intro allI impI)
  fix s k v b s1
  assume "sweep_inv s0 s" "hm_lookup (map_of_server s) k = Some v" "handle_client_inactivity s k v = Inr (b, s1)"
  with inactivity_call [OF this(1,2)] show "sweep_inv s0 s1 \<and>
      (map_of_server s1 = map_of_server s \<or> (\<exists>r. hashmap_delete (map_of_server s) k = Inr (r, map_of_server s1)))"
    by auto
qed

lemma iter_inactivity:
  assumes "server_inv s"
  shows "\<exists>s'. iter_clients handle_client_inactivity s = Inr (0, s') \<and> server_inv s' \<and> kicks_silent s s' \<and>
    late_pass s' = late_pass s \<and> errno_eintr s' = errno_eintr s"
proof -
  have inv: "clients_inv s" using assms by (simp add: server_inv_def)
  obtain m where m: "clients s = LiveMap m" "hm_inv m" using clients_inv_map [OF inv] by blast
  have "\<exists>s'. hashmap_iter map_of_server handle_client_inactivity s = Inr (0, s') \<and> sweep_inv s s' \<and> kicks_silent s s'"
  proof (rule hashmap_iter_rule [OF inactivity_deletes_current [of s]])
    show "hm_inv (map_of_server s)" using m by simp
    show "sweep_inv s s" using assms by (simp add: sweep_inv_def)
    show "\<forall>s' k v. sweep_inv s s' \<longrightarrow> hm_lookup (map_of_server s') k = Some v \<longrightarrow>
      (\<exists>s1. handle_client_inactivity s' k v = Inr (0, s1) \<and> sweep_inv s s1 \<and> kicks_silent s' s1 \<and>
        (\<forall>k'. k' \<noteq> k \<longrightarrow> hm_lookup (map_of_server s1) k' = hm_lookup (map_of_server s') k'))"
      using inactivity_call by blast
  qed (rule reflp_kicks transp_kicks)+
  then show ?thesis using m(1) by (auto simp: iter_clients_def sweep_inv_def)
qed

lemma ping_and_timeout_pass_ok:
  assumes "server_inv s"
  shows "\<exists>cs s'. client_list s cs \<and> ping_and_timeout_pass s = Inr s' \<and> server_inv s' \<and>
    kicks_silent (s\<lparr>srv_net := fold ping_net cs (srv_net s)\<rparr>) s' \<and> late_pass s' = late_pass s \<and> errno_eintr s' = errno_eintr s"
proof -
  have "clients_inv s" "times_ok s" using assms by (simp_all add: server_inv_def)
  from iter_ping [OF this] obtain cs where cs: "client_list s cs"
    "iter_clients ping_client s = Inr (0, s\<lparr>srv_net := fold ping_net cs (srv_net s)\<rparr>)" by blast
  let ?s = "s\<lparr>srv_net := fold ping_net cs (srv_net s)\<rparr>"
  have "server_inv ?s" using assms by simp
  from iter_inactivity [OF this] cs show ?thesis by (auto simp: ping_and_timeout_pass_def)
qed

section \<open>Measurement requests and the shutdown notice\<close>

definition send_net :: "e_message_type \<Rightarrow> client_t \<Rightarrow> net \<Rightarrow> net" where
  "send_net t c w = snd (write_msg (client_socket c) (set_type zero_message t) w)"

lemma measurement_net: "send_measurement_control_request s k v =
    bind_res (read_client s v) (\<lambda>c. Inr (0, s\<lparr>srv_net := send_net measurement_control_request c (srv_net s)\<rparr>))"
  by (simp add: send_measurement_control_request_def srv_send_def send_net_def split_beta Let_def)

lemma notify_net: "notify_client_of_shutdown s k v =
    bind_res (read_client s v) (\<lambda>c. Inr (0, s\<lparr>srv_net := send_net enb_off c (srv_net s)\<rparr>))"
  by (simp add: notify_client_of_shutdown_def srv_send_def send_net_def split_beta Let_def)

lemma fold_send:
  "writes_ok w \<Longrightarrow> writes_ok (fold (send_net t) cs w) \<and>
    outbox (fold (send_net t) cs w) = outbox w @ map (\<lambda>c. (client_socket c, set_type zero_message t)) cs"
  by (induction cs arbitrary: w) (simp_all add: send_net_def write_msg_def writes_ok_def Let_def)

lemma fold_send_keeps [simp]:
  "recv_res (fold (send_net t) cs w) = recv_res w" "clock (fold (send_net t) cs w) = clock w"
  "closed (fold (send_net t) cs w) = closed w"
  by (induction cs arbitrary: w) (simp_all add: send_net_def write_msg_def Let_def)

lemma measurement_pass_ok:
  assumes "clients_inv s"
  shows "\<exists>cs. client_list s cs \<and>
    measurement_pass s = Inr (s\<lparr>srv_net := fold (send_net measurement_control_request) cs (srv_net s)\<rparr>)"
proof -
  have k: "keeps_map map_of_server send_measurement_control_request"
    by (rule keeps_map_net' [where g = "send_net measurement_control_request"]) (rule measurement_net)
  have "\<exists>cs. client_list s cs \<and> iter_clients send_measurement_control_request s =
    Inr (0, s\<lparr>srv_net := fold (send_net measurement_control_request) cs (srv_net s)\<rparr>) \<and> True"
    by (rule iter_clients_net [where Q = "\<lambda>_. True" and P = "\<lambda>_. True", OF assms k]) (simp_all add: measurement_net)
  then show ?thesis by (auto simp: measurement_pass_def)
qed

lemma broadcast_shutdown_ok:
  assumes "clients_inv s"
  shows "\<exists>cs. client_list s cs \<and>
    broadcast_shutdown_notification s = Inr (s\<lparr>srv_net := fold (send_net enb_off) cs (srv_net s)\<rparr>)"
proof -
  have k: "keeps_map map_of_server notify_client_of_shutdown"
    by (rule keeps_map_net' [where g = "send_net enb_off"]) (rule notify_net)
  have "\<exists>cs. client_list s cs \<and> iter_clients notify_client_of_shutdown s =
    Inr (0, s\<lparr>srv_net := fold (send_net enb_off) cs (srv_net s)\<rparr>) \<and> True"
    by (rule iter_clients_net [where Q = "\<lambda>_. True" and P = "\<lambda>_. True", OF assms k]) (simp_all add: notify_net)
  then show ?thesis by (auto simp: broadcast_shutdown_notification_def)
qed

section \<open>Destruction\<close>

lemma keeps_map_close: "keeps_map map_of_server close_client_socket"
  by (simp add: keeps_map_def close_client_socket_def map_of_server_def srv_calls_keep Let_def)

text \<open>The iteration over the sockets ends early if the return register holds something else than 0.\<close>

lemma run_close:
  "\<exists>n r. n \<le> length kvs \<and> run_cb close_client_socket kvs s = Inr (r, fold srv_close (take n (map (\<lambda>kv. atoi (fst kv)) kvs)) s) \<and>
    ((\<forall>fd. void_ret s fd = 0) \<longrightarrow> n = length kvs)"
proof (induction kvs arbitrary: s)
  case Nil
  show ?case by simp
next
  case (Cons kv kvs)
  let ?fd = "atoi (fst kv)"
  have v: "void_ret (srv_close ?fd s) = void_ret s" by (simp add: srv_close_def close_fd_def)
  have cc: "close_client_socket s (fst kv) (snd kv) = Inr (void_ret s ?fd, srv_close ?fd s)"
    by (simp add: close_client_socket_def Let_def)
  show ?case
  proof (cases "void_ret s ?fd = 0")
    case True
    from Cons.IH [of "srv_close ?fd s"] obtain n r where
      n: "n \<le> length kvs" "run_cb close_client_socket kvs (srv_close ?fd s) =
          Inr (r, fold srv_close (take n (map (\<lambda>kv. atoi (fst kv)) kvs)) (srv_close ?fd s))"
        "(\<forall>fd. void_ret s fd = 0) \<longrightarrow> n = length kvs" unfolding v by blast
    with True show ?thesis by (intro exI [of _ "Suc n"] exI [of _ r]) (simp add: cc)
  next
    case False
    then show ?thesis by (intro exI [of _ "Suc 0"] exI [of _ "void_ret s ?fd"]) (auto simp: cc)
  qed
qed

lemma fold_close:
  "fold srv_close fds s = s\<lparr>srv_net := (srv_net s)\<lparr>closed := closed (srv_net s) @ fds\<rparr>, watched := watched s - set fds\<rparr>"
proof (induction fds arbitrary: s)
  case Nil
  show ?case by simp
next
  case (Cons fd fds)
  have "watched s - {fd} - set fds = watched s - insert fd (set fds)" by auto
  with Cons show ?case by (simp add: srv_close_def close_fd_def)
qed

lemma free_all:
  assumes "distinct as" "\<forall>a \<in> set as. a \<in> dom (heap s)"
  shows "fold_res free_client (map Some as) s = Inr (s\<lparr>heap := (heap s) |` (- set as)\<rparr>)"
  using assms
proof (induction as arbitrary: s)
  case Nil
  show ?case by (simp add: restrict_map_def)
next
  case (Cons a as)
  obtain c where c: "heap s a = Some c" using Cons.prems(2) by auto
  let ?s = "s\<lparr>heap := (heap s)(a := None)\<rparr>"
  have d: "\<forall>a' \<in> set as. a' \<in> dom (heap ?s)" using Cons.prems by auto
  have IH: "fold_res free_client (map Some as) ?s = Inr (?s\<lparr>heap := heap ?s |` (- set as)\<rparr>)"
    by (rule Cons.IH [OF _ d]) (use Cons.prems(1) in simp)
  have r: "heap ?s |` (- set as) = (heap s) |` (- set (a # as))" by (auto simp: restrict_map_def fun_eq_iff)
  have "fold_res free_client (map Some as) ?s = Inr (?s\<lparr>heap := (heap s) |` (- set (a # as))\<rparr>)"
    by (rule trans [OF IH]) (subst r, rule refl)
  moreover have "free_client (Some a) s = Inr ?s" using c by (simp add: free_client_def)
  ultimately have "fold_res free_client (map Some (a # as)) s = Inr (?s\<lparr>heap := (heap s) |` (- set (a # as))\<rparr>)"
    by (simp only: list.map fold_res.simps bind_res_simps)
  then show ?case by (rule trans) simp
qed

text \<open>The bindings of the table in any order: their values are the live clients, their keys the sockets.\<close>

lemma binding_client:
  assumes "clients_inv s" "distinct (map fst kvs)" "map_of kvs = hm_lookup (map_of_server s)" "kv \<in> set kvs"
  obtains a c where "kv = (sprintf_d (client_socket c), Some a)" "heap s a = Some c" "client_socket c \<in> dom (clients_of s)"
proof -
  have l: "hm_lookup (map_of_server s) (fst kv) = Some (snd kv)"
    using assms(2-4) by (metis map_of_is_SomeI prod.collapse)
  from clients_inv_keyD [OF assms(1) l] obtain a c where
    "snd kv = Some a" "heap s a = Some c" "fst kv = sprintf_d (client_socket c)" by auto
  moreover from this l have "clients_of s (client_socket c) = Some c" by (simp add: clients_of_def)
  ultimately show ?thesis using that [of c a] by (cases kv) auto
qed

lemma binding_values:
  assumes "clients_inv s" "distinct (map fst kvs)" "map_of kvs = hm_lookup (map_of_server s)"
  shows "\<exists>as. map snd kvs = map Some as \<and> distinct as \<and> set as = dom (heap s)"
proof (intro exI conjI)
  let ?f = "\<lambda>kv. the (snd kv)"
  note kv = binding_client [OF assms]
  show "map snd kvs = map Some (map ?f kvs)" by (auto elim: kv)
  have "inj_on ?f (set kvs)" by (rule inj_onI) (auto elim!: kv)
  then show "distinct (map ?f kvs)" using assms(2) by (simp add: distinct_map)
  have "a \<in> set (map ?f kvs)" if "heap s a = Some c" for a c
  proof -
    have "map_of kvs (sprintf_d (client_socket c)) = Some (Some a)"
      using clients_inv_heapD(2) [OF assms(1) that] assms(3) by simp
    then show ?thesis by (force dest: map_of_SomeD)
  qed
  then show "set (map ?f kvs) = dom (heap s)" by (auto elim: kv)
qed

lemma binding_sockets:
  assumes "clients_inv s" "distinct (map fst kvs)" "map_of kvs = hm_lookup (map_of_server s)"
  shows "distinct (map (\<lambda>kv. atoi (fst kv)) kvs)" "set (map (\<lambda>kv. atoi (fst kv)) kvs) = dom (clients_of s)"
proof -
  let ?f = "\<lambda>kv. atoi (fst kv)"
  note kv = binding_client [OF assms]
  have "inj_on ?f (set kvs)"
  proof (rule inj_onI)
    fix x y assume xy: "x \<in> set kvs" "y \<in> set kvs" "atoi (fst x) = atoi (fst y)"
    have "fst x = fst y" using xy by (auto elim!: kv simp: atoi_sprintf)
    with xy(1,2) assms(2) show "x = y" by (auto simp: distinct_map dest: inj_onD)
  qed
  then show "distinct (map ?f kvs)" using assms(2) by (simp add: distinct_map)
  have "fd \<in> set (map ?f kvs)" if c: "clients_of s fd = Some c" for fd c
  proof -
    from assms(1) c obtain a where "map_of kvs (sprintf_d fd) = Some (Some a)"
      by (cases rule: clients_inv_lookup [where fd = fd]) (auto simp: assms(3))
    then have "(sprintf_d fd, Some a) \<in> set kvs" by (rule map_of_SomeD)
    then have "?f (sprintf_d fd, Some a) \<in> set (map ?f kvs)" by (metis image_eqI list.set_map)
    then show ?thesis by (simp add: atoi_sprintf)
  qed
  then show "set (map ?f kvs) = dom (clients_of s)" by (auto elim!: kv simp: atoi_sprintf)
qed

lemma destroy_ok:
  assumes "clients_inv s"
  shows "\<exists>kvs. distinct (map fst kvs) \<and> map_of kvs = hm_lookup (map_of_server s) \<and>
    close_clients_sockets s = bind_res (run_cb close_client_socket kvs s) (\<lambda>(r, s1). Inr s1)"
    and "clients s' = clients s \<Longrightarrow> heap s' = heap s \<Longrightarrow>
      \<exists>values leaked. hashmap_destroy (map_of_server s') = Inr (values, leaked) \<and>
        fold_res free_client values (s'\<lparr>clients := FreedMap\<rparr>) = Inr (s'\<lparr>clients := FreedMap, heap := Map.empty\<rparr>)"
proof -
  obtain m where m: "clients s = LiveMap m" "hm_inv m" using clients_inv_map [OF assms] by blast
  from hashmap_iter_run_cb [OF keeps_map_close, of s] m show "\<exists>kvs. distinct (map fst kvs) \<and>
    map_of kvs = hm_lookup (map_of_server s) \<and>
    close_clients_sockets s = bind_res (run_cb close_client_socket kvs s) (\<lambda>(r, s1). Inr s1)"
    by (auto simp: close_clients_sockets_def iter_clients_def)
  assume s': "clients s' = clients s" "heap s' = heap s"
  then have mp: "map_of_server s' = m" "map_of_server s = m" using m(1) by (simp_all add: map_of_server_def)
  from hashmap_destroy_values [OF m(2)] obtain kvs N where
    kvs: "hashmap_destroy m = Inr (map snd kvs, N)" "distinct (map fst kvs)" "map_of kvs = hm_lookup m" by blast
  from binding_values [OF assms kvs(2)] kvs(3) mp obtain as where
    as: "map snd kvs = map Some as" "distinct as" "set as = dom (heap s)" by auto
  have "heap s' |` (- set as) = Map.empty" using as(3) s'(2) by (auto simp: restrict_map_def fun_eq_iff)
  moreover have "\<forall>a \<in> set as. a \<in> dom (heap (s'\<lparr>clients := FreedMap\<rparr>))" using as(3) s'(2) by simp
  ultimately have "fold_res free_client (map Some as) (s'\<lparr>clients := FreedMap\<rparr>) = Inr (s'\<lparr>clients := FreedMap, heap := Map.empty\<rparr>)"
    using free_all [OF as(2), of "s'\<lparr>clients := FreedMap\<rparr>"] by simp
  with kvs(1) as(1) mp show "\<exists>values leaked. hashmap_destroy (map_of_server s') = Inr (values, leaked) \<and>
        fold_res free_client values (s'\<lparr>clients := FreedMap\<rparr>) = Inr (s'\<lparr>clients := FreedMap, heap := Map.empty\<rparr>)"
    by simp
qed

lemma server_t__destroy_ok:
  assumes "server_inv s"
  shows "\<exists>fds. distinct fds \<and> set fds \<subseteq> dom (clients_of s) \<and> ((\<forall>fd. void_ret s fd = 0) \<longrightarrow> set fds = dom (clients_of s)) \<and>
    server_t__destroy s =
      Inr (s\<lparr>srv_net := (srv_net s)\<lparr>closed := closed (srv_net s) @ fds @ [server_socket s]\<rparr>,
             watched := dom (clients_of s) - set fds, clients := FreedMap, heap := Map.empty\<rparr>)"
proof -
  have inv: "clients_inv s" using assms by (simp add: server_inv_def)
  obtain m where m: "clients s = LiveMap m" using clients_inv_map [OF inv] by blast
  from destroy_ok(1) [OF inv] obtain kvs where kvs: "distinct (map fst kvs)" "map_of kvs = hm_lookup (map_of_server s)"
    "close_clients_sockets s = bind_res (run_cb close_client_socket kvs s) (\<lambda>(r, s1). Inr s1)" by blast
  from run_close [of kvs s] obtain n r where n: "n \<le> length kvs"
    "run_cb close_client_socket kvs s = Inr (r, fold srv_close (take n (map (\<lambda>kv. atoi (fst kv)) kvs)) s)"
    "(\<forall>fd. void_ret s fd = 0) \<longrightarrow> n = length kvs" by blast
  let ?fds = "take n (map (\<lambda>kv. atoi (fst kv)) kvs)"
  note fds = binding_sockets [OF inv kvs(1,2)]
  have d: "distinct ?fds" "set ?fds \<subseteq> dom (clients_of s)" "(\<forall>fd. void_ret s fd = 0) \<longrightarrow> set ?fds = dom (clients_of s)"
    using fds n(3) set_take_subset [of n "map (\<lambda>kv. atoi (fst kv)) kvs"] by (simp_all add: distinct_take)
  let ?s1 = "s\<lparr>srv_net := (srv_net s)\<lparr>closed := closed (srv_net s) @ ?fds\<rparr>, watched := watched s - set ?fds\<rparr>"
  have cl: "close_clients_sockets s = Inr ?s1" using kvs(3) n(2) by (simp only: fold_close) simp
  have w: "watched s - set ?fds - {server_socket s} = dom (clients_of s) - set ?fds" using assms by (auto simp: server_inv_def)
  from destroy_ok(2) [OF inv, of ?s1] obtain vs lk where
    h: "hashmap_destroy (map_of_server ?s1) = Inr (vs, lk)"
      "fold_res free_client vs (?s1\<lparr>clients := FreedMap\<rparr>) = Inr (?s1\<lparr>clients := FreedMap, heap := Map.empty\<rparr>)" by auto
  have "server_t__destroy s = Inr (srv_close (server_socket s) (?s1\<lparr>clients := FreedMap, heap := Map.empty\<rparr>))"
    using cl h m by (simp add: server_t__destroy_def the_clients_def map_of_server_def)
  also have "srv_close (server_socket s) (?s1\<lparr>clients := FreedMap, heap := Map.empty\<rparr>) =
    s\<lparr>srv_net := (srv_net s)\<lparr>closed := closed (srv_net s) @ ?fds @ [server_socket s]\<rparr>,
      watched := dom (clients_of s) - set ?fds, clients := FreedMap, heap := Map.empty\<rparr>"
    using w by (intro server_t.equality) (simp_all add: srv_close_def close_fd_def)
  finally show ?thesis using d by blast
qed

end
