(* ===== verification/Server_Theorems.thy ===== *)
theory Server_Theorems
  imports Server_Passes
begin

text \<open>The server as a transition system, and its properties with a concrete server for their witnesses.\<close>

section \<open>The server as a transition system\<close>

text \<open>
  A batch the environment may deliver: at most 100 descriptors, distinct and registered, with a new
  descriptor for every connection and no failing read.
\<close>

definition with_events :: "int list \<Rightarrow> server_t \<Rightarrow> server_t" where
  "with_events fds s = s\<lparr>events := fds @ drop (length fds) (events s)\<rparr>"

definition ready_ok :: "int list \<Rightarrow> server_t \<Rightarrow> bool" where
  "ready_ok fds s \<longleftrightarrow> length fds \<le> 100 \<and> distinct fds \<and> set fds \<subseteq> watched s \<and>
    batch_ok [0..<length fds] (with_events fds s)"

text \<open>The threads interleave pass by pass.\<close>

inductive server_step :: "server_t \<Rightarrow> server_t \<Rightarrow> bool" where
  packets: "ready_ok fds s \<Longrightarrow> receive_packets_pass (Some fds) s = Inr s' \<Longrightarrow> server_step s s'"
| pings: "ping_and_timeout_pass s = Inr s' \<Longrightarrow> server_step s s'"
| measurements: "measurement_pass s = Inr s' \<Longrightarrow> server_step s s'"

inductive_cases server_stepE: "server_step s s'"

definition server_up :: "server_t \<Rightarrow> bool" where
  "server_up s \<longleftrightarrow> server_inv s \<and> exit_status s = None"

lemma server_upD: "server_up s \<Longrightarrow> server_inv s" "server_up s \<Longrightarrow> clients_inv s" "server_up s \<Longrightarrow> exit_status s = None"
  by (simp_all add: server_up_def server_inv_def)

lemma with_events_simps [simp]:
  "clients_of (with_events fds s) = clients_of s" "clients_inv (with_events fds s) = clients_inv s"
  "server_socket (with_events fds s) = server_socket s" "srv_net (with_events fds s) = srv_net s"
  "watched (with_events fds s) = watched s" "exit_status (with_events fds s) = exit_status s"
  "accepts (with_events fds s) = accepts s" "accept_res (with_events fds s) = accept_res s"
  "epoll_ctl_res (with_events fds s) = epoll_ctl_res s" "i < length fds \<Longrightarrow> events (with_events fds s) ! i = fds ! i"
  "errno_eintr (with_events fds s) = errno_eintr s" "late_pass (with_events fds s) = late_pass s"
  "void_ret (with_events fds s) = void_ret s" "malloc_junk (with_events fds s) = malloc_junk s"
  "times_ok (with_events fds s) = times_ok s" "map_of_server (with_events fds s) = map_of_server s"
  using clients_inv_cong [of "with_events fds s" s]
  by (simp_all add: with_events_def nth_append map_of_server_def times_ok_def)

lemma with_events_up:
  assumes "server_up s" "length fds \<le> 100"
  shows "server_up (with_events fds s)" "length (events (with_events fds s)) = 100"
  using assms by (simp_all add: server_up_def server_inv_def) (simp_all add: with_events_def)

lemma packets_ok:
  assumes "server_up s" "ready_ok fds s"
  shows "\<exists>s'. receive_packets_pass (Some fds) s = Inr s' \<and> server_up s'"
proof -
  let ?s = "with_events fds s"
  have len: "length fds \<le> 100" using assms(2) by (simp add: ready_ok_def)
  note up = with_events_up [OF assms(1) len]
  have inv: "server_inv ?s" using up(1) by (simp add: server_up_def)
  have ev: "map (\<lambda>n. events ?s ! n) [0..<length fds] = fds"
    by (rule nth_equalityI) simp_all
  have "\<forall>n \<in> set [0..<length fds]. n < 100 \<and> events ?s ! n \<in> watched ?s"
    using assms(2) nth_mem by (fastforce simp: ready_ok_def)
  from handle_events_ok [OF inv _ this] assms ev
  show ?thesis
    by (auto simp: receive_packets_pass_def handle_connection_def with_events_def server_up_def ready_ok_def)
qed

lemma pings_ok:
  assumes "server_up s"
  shows "\<exists>s'. ping_and_timeout_pass s = Inr s' \<and> server_up s'"
  using ping_and_timeout_pass_ok [OF server_upD(1) [OF assms]] assms
  by (auto simp: server_up_def kicks_silent_def)

lemma measurements_ok:
  assumes "server_up s"
  shows "\<exists>s'. measurement_pass s = Inr s' \<and> server_up s'"
  using measurement_pass_ok [OF server_upD(2) [OF assms]] assms by (auto simp: server_up_def)

interpretation server_machine: invariant_machine server_step server_up
proof
  fix s s'
  assume up: "server_up s" and "server_step s s'"
  from this(2) packets_ok [OF up] pings_ok [OF up] measurements_ok [OF up] show "server_up s'"
    by (elim server_stepE) (metis sum.inject(2))+
qed

section \<open>Starting\<close>

text \<open>The zeroed globals.\<close>

definition server_zero :: "server_t \<Rightarrow> bool" where
  "server_zero s \<longleftrightarrow> clients s = NullMap \<and> heap s = Map.empty \<and> watched s = {} \<and> length (events s) = 100 \<and>
    exit_status s = None \<and> \<not> threads_done s"

lemma init_server_up:
  assumes "server_zero s0" "times_ok s0" "valid_fd sock" "0 \<le> bind_r" "listen_r \<noteq> -1" "epoll_r \<noteq> -1" "ctl_r \<noteq> -1"
    and "2 \<le> argc"
  shows "\<exists>s. server_main argc sock bind_r listen_r epoll_r ctl_r s0 = Inr s \<and> server_up s \<and>
    clients_of s = Map.empty \<and> server_socket s = sock \<and> srv_net s = srv_net s0 \<and> accepts s = accepts s0 \<and>
    accept_res s = accept_res s0 \<and> epoll_ctl_res s = epoll_ctl_res s0"
proof -
  obtain m :: "addr hashmap" where m: "hashmap_init 0 = Inr m" "hm_inv m" "hm_sized m" "hm_lookup m = Map.empty"
    using init_sized by blast
  let ?s = "s0\<lparr>watched := {sock}, server_socket := sock, event_fd := sock, epoll_file_descriptor := epoll_r, clients := LiveMap m\<rparr>"
  have "sock \<noteq> -1" using assms(3) by (simp add: valid_fd_def)
  then have "server_main argc sock bind_r listen_r epoll_r ctl_r s0 = Inr ?s"
    using assms m(1) by (simp add: server_main_def init_server_def server_t__init_def server_zero_def)
  moreover have "map_of_server ?s = m" by (simp add: map_of_server_def)
  then have c: "clients_inv ?s" "clients_of ?s = Map.empty"
    using assms(1) m by (auto simp: clients_inv_def clients_of_def server_zero_def)
  have t: "times_ok ?s" using assms(2) c(2) by (simp add: times_ok_def)
  with c have "server_up ?s" using assms by (simp add: server_up_def server_inv_def server_zero_def)
  ultimately show ?thesis using c by auto
qed

section \<open>A concrete server\<close>

definition zero_client :: client_t where
  "zero_client = \<lparr>rnti = 0, preamble_index = 0, first_connection_timestamp = 0, last_activity = 0, mcc = 0, mnc = 0,
     battery_state = OK, client_socket = 0\<rparr>"

definition server_with :: "map_ptr \<Rightarrow> (addr \<rightharpoonup> client_t) \<Rightarrow> int set \<Rightarrow> net \<Rightarrow> server_t" where
  "server_with mp h fds w = \<lparr>server_socket = 3, epoll_file_descriptor = 4, event_fd = 3, events = replicate 100 0,
     clients = mp, heap = h, next_addr = 4, watched = fds, threads_done = False, exit_status = None, srv_net = w,
     accepts = 0, accept_res = (\<lambda>n. 20 + int n), epoll_ctl_res = (\<lambda>_. 0), malloc_junk = (\<lambda>_. zero_client),
     void_ret = (\<lambda>_. 0), errno_eintr = False, late_pass = False\<rparr>"

lemma server_with_simps [simp]:
  "server_socket (server_with mp h fds w) = 3" "clients (server_with mp h fds w) = mp" "heap (server_with mp h fds w) = h"
  "watched (server_with mp h fds w) = fds" "srv_net (server_with mp h fds w) = w" "next_addr (server_with mp h fds w) = 4"
  "length (events (server_with mp h fds w)) = 100" "exit_status (server_with mp h fds w) = None"
  "accept_res (server_with mp h fds w) n = 20 + int n" "epoll_ctl_res (server_with mp h fds w) n = 0"
  "accepts (server_with mp h fds w) = 0" "malloc_junk (server_with mp h fds w) n = zero_client"
  "void_ret (server_with mp h fds w) fd = 0" "late_pass (server_with mp h fds w) = False"
  "errno_eintr (server_with mp h fds w) = False" "threads_done (server_with mp h fds w) = False"
  by (simp_all add: server_with_def)

lemma some_server_zero [simp]: "server_zero (server_with NullMap Map.empty {} w)"
  by (simp add: server_zero_def)

lemma quiet_clock [simp]: "clock_ok (quiet_net (\<lambda>_. t)) = time_ok t"
  by (simp add: clock_ok_def quiet_net_def)

lemma some_times [simp]: "time_ok 0" "time_ok 7" "time_ok 77" "time_ok 5000" "time_ok 9000"
  by (simp_all add: time_ok_def)

lemma some_server_times [simp]: "clock_ok w \<Longrightarrow> times_ok (server_with NullMap Map.empty {} w)"
  by (auto simp: times_ok_def clients_of_def zero_client_def split: option.splits)

definition client8 :: client_t where "client8 = zero_client\<lparr>client_socket := 8\<rparr>"
definition client15 :: client_t where "client15 = zero_client\<lparr>client_socket := 15, battery_state := LOW\<rparr>"

lemma client_simps [simp]:
  "client_socket client8 = 8" "client_socket client15 = 15" "last_activity client8 = 0" "last_activity client15 = 0"
  "battery_state client8 = OK" "battery_state client15 = LOW" "rnti client8 = 0"
  by (simp_all add: client8_def client15_def zero_client_def)

lemma clients_differ: "client8 \<noteq> client15"
proof -
  have "client_socket client8 \<noteq> client_socket client15" by simp
  then show ?thesis by metis
qed

lemma sprintf_8_15: "sprintf_d 8 = ''8''" "sprintf_d 15 = ''15''"
  by code_simp+

definition two_client_server :: "addr hashmap \<Rightarrow> net \<Rightarrow> server_t" where
  "two_client_server m w = server_with (LiveMap m) [2 \<mapsto> client8, 3 \<mapsto> client15] {3, 8, 15} w"

lemma two_client_server_up:
  assumes "hm_inv m" "table_size m = 128" "max_size m = 96" "hm_lookup m = [''8'' \<mapsto> Some 2, ''15'' \<mapsto> Some 3]"
    and "clock_ok w"
  shows "server_up (two_client_server m w)" "clients_of (two_client_server m w) = [8 \<mapsto> client8, 15 \<mapsto> client15]"
    "srv_net (two_client_server m w) = w" "server_socket (two_client_server m w) = 3"
proof -
  let ?s = "two_client_server m w"
  have mp: "map_of_server ?s = m" by (simp add: two_client_server_def)
  have sz: "hm_sized m" unfolding hm_sized_def by (intro exI [of _ 7]) (simp add: assms)
  have inv: "clients_inv ?s"
    unfolding clients_inv_def mp
  proof (intro conjI allI impI)
    show "\<exists>m. clients ?s = LiveMap m \<and> hm_inv m \<and> hm_sized m" using assms(1) sz by (simp add: two_client_server_def)
  next
    fix k v assume "hm_lookup m k = Some v"
    then have "k = ''8'' \<and> v = Some 2 \<or> k = ''15'' \<and> v = Some 3" by (auto simp: assms(4) split: if_splits)
    then show "\<exists>a c. v = Some a \<and> heap ?s a = Some c \<and> k = sprintf_d (client_socket c) \<and> valid_fd (client_socket c)"
      by (auto simp: two_client_server_def sprintf_8_15 valid_fd_def)
  next
    fix a c assume "heap ?s a = Some c"
    then have "a = 2 \<and> c = client8 \<or> a = 3 \<and> c = client15" by (auto simp: two_client_server_def split: if_splits)
    then show "a < next_addr ?s" "hm_lookup m (sprintf_d (client_socket c)) = Some (Some a)"
      by (auto simp: two_client_server_def sprintf_8_15 assms(4))
  qed
  show cl: "clients_of ?s = [8 \<mapsto> client8, 15 \<mapsto> client15]"
  proof
    fix fd
    have "sprintf_d fd = ''8'' \<longleftrightarrow> fd = 8" "sprintf_d fd = ''15'' \<longleftrightarrow> fd = 15"
      using sprintf_inject [of fd 8] sprintf_inject [of fd 15] by (simp_all add: sprintf_8_15)
    then show "clients_of ?s fd = [8 \<mapsto> client8, 15 \<mapsto> client15] fd"
      by (auto simp: clients_of_def mp assms(4) two_client_server_def)
  qed
  have "times_ok ?s"
    using assms(5) by (auto simp: times_ok_def cl split: if_splits) (simp_all add: two_client_server_def zero_client_def time_ok_def)
  then show "server_up ?s"
    using inv by (auto simp: server_up_def server_inv_def cl valid_fd_def) (simp_all add: two_client_server_def)
qed (simp_all add: two_client_server_def)

lemma two_client_server_exists:
  assumes "clock_ok w"
  obtains s where "server_up s" "clients_of s = [8 \<mapsto> client8, 15 \<mapsto> client15]" "srv_net s = w" "server_socket s = 3"
    "table_size (map_of_server s) = 128" "errno_eintr s = False" "late_pass s = False" "\<forall>fd. void_ret s fd = 0"
    "threads_done s = False"
proof -
  obtain m :: "nat hashmap" where m: "hm_inv m" "table_size m = 128" "max_size m = 96"
    "hm_lookup m = [''8'' \<mapsto> Some 2, ''15'' \<mapsto> Some 3]" using two_clients by blast
  let ?s = "two_client_server m w"
  have "map_of_server ?s = m" "errno_eintr ?s = False" "late_pass ?s = False" "\<forall>fd. void_ret ?s fd = 0" "threads_done ?s = False"
    by (simp_all add: two_client_server_def)
  with that two_client_server_up [OF m assms] m(2) show ?thesis by metis
qed

end
