(* ===== verification/Random_Access.thy ===== *)
theory Random_Access
  imports Env
begin

text \<open>
  \<^verbatim>\<open>clientLTE/random_access.c\<close>: the preamble the user equipment sends first, and the check of the
  answer.  The preamble index both sides compute is the top two bits of the 16-bit RA-RNTI.
\<close>

section \<open>Operations\<close>

text \<open>C leaves open which of the two calls of \<open>rand\<close> comes first; here it is the left one.\<close>

definition generate_ra_rnti :: "preamble \<Rightarrow> net \<Rightarrow> preamble \<times> net" where
  "generate_ra_rnti p w =
    (let (r1, w1) = c_rand w;
         (r2, w2) = c_rand w1
     in (p\<lparr>ra_rnti := to_int16 (1 + r1 smod 10 + 10 * (r2 smod 6))\<rparr>, w2))"

definition send_prach_preamble ::
  "int \<Rightarrow> s_message \<Rightarrow> (preamble \<Rightarrow> net \<Rightarrow> preamble \<times> net) \<Rightarrow> net \<Rightarrow> int \<times> s_message \<times> net"
where
  "send_prach_preamble sockfd message ra_rnti_generator w =
    (let (p, w1) = ra_rnti_generator (get_preamble message) w;
         message = set_preamble p message;
         message = set_type message random_access_request;
         (r, w2) = write_msg sockfd message w1
     in (if r = -1 then -1 else 0, message, w2))"

text \<open>\<open>(ra_rnti & 0b1100000000000000) >> 8\<close>, as \<open>int\<close>.\<close>

definition preamble_index_bits :: "int \<Rightarrow> int" where
  "preamble_index_bits x = drop_bit 8 (x AND 0b1100000000000000)"

definition receive_prach_response ::
  "int \<Rightarrow> s_message \<Rightarrow> s_message \<Rightarrow> net \<Rightarrow> int \<times> s_message \<times> s_message \<times> net"
where
  "receive_prach_response socketfd received message w =
    (case recv_bytes w of
       (None, w1) \<Rightarrow> (-1, received, message, w1)
     | (Some bs, w1) \<Rightarrow>
         let received = recv_into received bs in
         if message_type received = msg_code random_access_response
         then let value_received = get_rapid received;
                  value_expected = to_int8 (preamble_index_bits (ra_rnti (get_preamble message)));
                  message = set_c_rnti (to_int8 (value_expected AND 0b11000000)) message
              in (if value_received = value_expected then 0 else 1, received, message, w1)
         else (1, received, message, w1))"

section \<open>The preamble index\<close>

lemma and_top_bits_shift: "(x :: int) AND 49152 = push_bit 14 (take_bit 2 (drop_bit 14 x))"
proof -
  have m: "49152 = push_bit 14 (mask 2 :: int)" by (simp add: mask_eq_exp_minus_1 push_bit_eq_mult)
  show ?thesis unfolding m by (rule bit_eqI) (auto simp: bit_simps)
qed

lemma and_top_bits: "(x :: int) AND 49152 \<in> {0, 16384, 32768, 49152}"
proof -
  have four: "t = 0 \<or> t = 1 \<or> t = 2 \<or> t = 3" if "0 \<le> t" "t < 4" for t :: int
    using that by linarith
  have "take_bit 2 (drop_bit 14 x) < 2 ^ 2" by (rule take_bit_int_less_exp)
  then have "take_bit 2 (drop_bit 14 x) < 4" by simp
  from four [OF take_bit_nonnegative this] show ?thesis
    by (auto simp: and_top_bits_shift push_bit_eq_mult)
qed

lemma preamble_index_values: "preamble_index_bits x \<in> {0, 64, 128, 192}"
  using and_top_bits [of x] by (auto simp: preamble_index_bits_def drop_bit_eq_div)

lemma to_int8_small: "to_int8 0 = 0" "to_int8 64 = 64" "to_int8 128 = -128" "to_int8 192 = -64"
  by (simp_all add: to_int8_def signed_take_bit_eq_take_bit_shift take_bit_eq_mod)

text \<open>The index of an RA-RNTI is zero unless it is negative or at least 16384.\<close>

lemma preamble_index_small: "0 \<le> x \<Longrightarrow> x < 16384 \<Longrightarrow> preamble_index_bits x = 0"
  by (simp add: preamble_index_bits_def and_top_bits_shift drop_bit_eq_div)

text \<open>So it is zero for every RA-RNTI the program generates.\<close>

lemma generated_ra_rnti:
  assumes "rand_ok w" "generate_ra_rnti p w = (p', w')"
  shows "1 \<le> ra_rnti p'" "ra_rnti p' \<le> 60" "preamble_index_bits (ra_rnti p') = 0"
proof -
  let ?a = "rand_res w (rands w)" and ?b = "rand_res w (Suc (rands w))"
  have r: "0 \<le> ?a" "0 \<le> ?b" using assms(1) by (simp_all add: rand_ok_def)
  have p: "ra_rnti p' = to_int16 (1 + ?a mod 10 + 10 * (?b mod 6))"
    using assms(2) r by (auto simp: generate_ra_rnti_def c_rand_def smod_nonneg)
  have "0 \<le> ?a mod 10" "?a mod 10 < 10" "0 \<le> ?b mod 6" "?b mod 6 < 6" by simp_all
  then have "1 \<le> 1 + ?a mod 10 + 10 * (?b mod 6)" "1 + ?a mod 10 + 10 * (?b mod 6) \<le> 60" by linarith+
  then show "1 \<le> ra_rnti p'" "ra_rnti p' \<le> 60" unfolding p by (simp_all add: to_int16_id)
  then show "preamble_index_bits (ra_rnti p') = 0" by (simp add: preamble_index_small)
qed

lemma wf_send_prach: "wf_message m \<Longrightarrow> send_prach_preamble fd m gen w = (r, m', w') \<Longrightarrow> wf_message m'"
  by (auto simp: send_prach_preamble_def Let_def split: prod.splits)

end
