(* ===== verification/Server_Types.thy ===== *)
theory Server_Types
  imports Server_Theorems Random_Access
begin

text \<open>
  What the server says, and to whom.  Every message it ever sends is a downlink message: one of eight types,
  with exactly the contents that type has (a zeroed message with the fields of the type filled in; only the messages of a
  file transfer carry uninitialised bytes behind the buffer), and it goes to a descriptor that \<open>accept\<close> has returned.
\<close>

section \<open>Downlink messages\<close>

definition is_int16 :: "int \<Rightarrow> bool" where
  "is_int16 x \<longleftrightarrow> - (2 ^ 15) \<le> x \<and> x < 2 ^ 15"

inductive downlink :: "s_message \<Rightarrow> bool" where
  signal: "t \<in> {ping, measurement_control_request, enb_off} \<Longrightarrow> downlink (set_type zero_message t)"
| response: "i \<in> {-128, -64, 0, 64} \<Longrightarrow>
    downlink (set_timestamp time (set_rapid i (set_type zero_message random_access_response)))"
| configuration: "is_int16 r \<Longrightarrow> downlink (set_rrc_response (generate_rrc_config r) (set_type zero_message rrc_setup))"
| piece: "wf_message m \<Longrightarrow> t \<in> {data_start, data, data_end} \<Longrightarrow> downlink (set_type m t)"

lemma to_int16_is [simp]: "is_int16 (to_int16 x)"
  using to_int16_range [of x] by (simp add: is_int16_def)

text \<open>The preamble index is what the two top bits of sixteen leave in a byte.\<close>

lemma extractPreambleIndex_range: "extractPreambleIndex x \<in> {-128, -64, 0, 64}"
proof -
  have "extractPreambleIndex x = to_int8 (preamble_index_bits x)"
    by (simp only: extractPreambleIndex_def preamble_index_bits_def)
  with preamble_index_values [of x] show ?thesis by (auto simp: to_int8_small)
qed

lemma preamble_index_stored: "to_int8 (to_uint8 (extractPreambleIndex x)) \<in> {-128, -64, 0, 64}"
  using extractPreambleIndex_range [of x] by (auto simp: to_int8_id)

section \<open>Iteration keeps what its callback keeps\<close>

lemma iter_chain_preserves:
  fixes getm :: "'s \<Rightarrow> 'v hashmap"
  assumes cb: "\<And>s k v b s'. P s \<Longrightarrow> cb s k v = Inr (b, s') \<Longrightarrow> P s'"
  shows "iter_chain n getm cb s p = Inr (b, s') \<Longrightarrow> P s \<Longrightarrow> P s'"
proof (induction n arbitrary: s p)
  case (Suc n)
  show ?case
  proof (cases p)
    case None
    with Suc.prems show ?thesis by simp
  next
    case (Some r)
    with Suc.prems(1) obtain e where e: "read_entry (mem (getm s)) r = Inr e" by (auto simp: bind_res_Inr_iff)
    show ?thesis
    proof (cases "e_key e")
      case None
      with Suc.prems Some e show ?thesis by simp
    next
      case (Some k)
      with Suc.prems(1) \<open>p = Some r\<close> e obtain bs where bs: "cb s k (e_value e) = Inr bs" by (auto simp: bind_res_Inr_iff)
      obtain x s1 where x: "bs = (x, s1)" by fastforce
      with Suc.prems(1) \<open>p = Some r\<close> e Some bs obtain e1 :: "'v hashmap_entry" where
        "(if x \<noteq> 0 then Inr (x, s1) else iter_chain n getm cb s1 (next_ref e1)) = Inr (b, s')"
        by (simp add: bind_res_Inr_iff) blast
      note s1 = bs [unfolded x] this
      have "P s1" by (rule cb [OF Suc.prems(2) s1(1)])
      with s1(2) Suc.IH show ?thesis by (auto split: if_splits)
    qed
  qed
qed simp

lemma iter_slots_preserves:
  assumes cb: "\<And>s k v b s'. P s \<Longrightarrow> cb s k v = Inr (b, s') \<Longrightarrow> P s'"
  shows "iter_slots getm cb i s = Inr (b, s') \<Longrightarrow> P s \<Longrightarrow> P s'"
proof (induction "nat (INT_MAX - i)" arbitrary: i s rule: less_induct)
  case less
  show ?case
  proof (cases "i < table_size (getm s)")
    case False
    with less.prems show ?thesis by (simp add: iter_slots.simps)
  next
    case True
    with less.prems(1) obtain x s1 where s1: "iter_chain (scan_fuel (mem (getm s))) getm cb s (Some (Slot (nat i))) = Inr (x, s1)"
      "i < INT_MAX" "(if x \<noteq> 0 then Inr (x, s1) else iter_slots getm cb (i + 1) s1) = Inr (b, s')"
      by (subst (asm) iter_slots.simps) (auto simp: bind_res_Inr_iff split: if_splits)
    have "P s1" using iter_chain_preserves [of P cb, OF cb s1(1) less.prems(2)] .
    with s1 less.hyps [of "i + 1" s1] show ?thesis by (auto split: if_splits)
  qed
qed

lemma iter_clients_preserves:
  assumes "\<And>s k v b s'. P s \<Longrightarrow> cb s k v = Inr (b, s') \<Longrightarrow> P s'"
    and "iter_clients cb s = Inr (b, s')" "P s"
  shows "P s'"
  using assms(2) iter_slots_preserves [of P cb, OF assms(1)] assms(3)
  by (auto simp: iter_clients_def hashmap_iter_def bind_res_Inr_iff)

section \<open>Servers that keep to it\<close>

text \<open>The descriptors that have been accepted.\<close>

definition accepted :: "server_t \<Rightarrow> int set" where
  "accepted s = accept_res s ` {..<accepts s}"

text \<open>The server only sends, knows and watches accepted descriptors; \<open>s0\<close> is an earlier state of it.\<close>

definition keeps_to :: "server_t \<Rightarrow> server_t \<Rightarrow> bool" where
  "keeps_to s0 s \<longleftrightarrow>
    server_socket s = server_socket s0 \<and> events s = events s0 \<and> accept_res s = accept_res s0 \<and> accepts s0 \<le> accepts s \<and>
    (\<forall>n. is_int16 (rnti (malloc_junk s n))) \<and> watched s \<subseteq> insert (server_socket s) (accepted s) \<and>
    (\<forall>a c. heap s a = Some c \<longrightarrow> client_socket c \<in> accepted s \<and> is_int16 (rnti c)) \<and>
    (\<forall>(fd, m) \<in> set (outbox (srv_net s)). fd \<in> accepted s \<and> downlink m)"

lemma keeps_refl: "keeps_to s0 s \<Longrightarrow> keeps_to s s"
  by (auto simp add: keeps_to_def)

lemma keeps_trans: "keeps_to s0 s1 \<Longrightarrow> keeps_to s1 s2 \<Longrightarrow> keeps_to s0 s2"
  by (auto simp: keeps_to_def)

lemma keeps_accepted: "keeps_to s0 s \<Longrightarrow> accepted s0 \<subseteq> accepted s"
  by (auto simp: keeps_to_def accepted_def)

lemma keeps_client:
  assumes "keeps_to s0 s" "read_client s v = Inr c"
  shows "client_socket c \<in> accepted s" "is_int16 (rnti c)"
  using assms by (auto simp: keeps_to_def read_client_def split: option.splits)

section \<open>Operations\<close>

text \<open>System calls.\<close>

lemma accepted_calls [simp]:
  "accepted (snd (srv_send fd m s)) = accepted s" "accepted (snd (srv_time s)) = accepted s" "accepted (srv_close fd s) = accepted s"
  "accepted (s\<lparr>clients := mp\<rparr>) = accepted s" "accepted (s\<lparr>exit_status := e\<rparr>) = accepted s"
  "accepted (s\<lparr>threads_done := b\<rparr>) = accepted s" "accepted (s\<lparr>srv_net := w\<rparr>) = accepted s" "accepted (s\<lparr>heap := h\<rparr>) = accepted s"
  by (simp_all add: accepted_def srv_send_def srv_time_def srv_close_def split_beta Let_def)

lemma keeps_send [simp]:
  assumes "keeps_to s0 s" "fd \<in> accepted s" "downlink m"
  shows "keeps_to s0 (snd (srv_send fd m s))"
  using assms by (auto simp: keeps_to_def srv_send_def env_defs)

lemma keeps_time [simp]: "keeps_to s0 s \<Longrightarrow> keeps_to s0 (snd (srv_time s))"
  by (auto simp: keeps_to_def srv_time_def env_defs)

lemma keeps_close [simp]: "keeps_to s0 s \<Longrightarrow> keeps_to s0 (srv_close fd s)"
  by (auto simp: keeps_to_def srv_close_def env_defs accepted_def)

lemma keeps_read [simp]: "keeps_to s0 s \<Longrightarrow> keeps_to s0 (snd (srv_read s))"
  by (auto simp: keeps_to_def srv_read_def env_defs)

lemma keeps_frame [simp]:
  "keeps_to s0 (s\<lparr>clients := m\<rparr>) = keeps_to s0 s" "keeps_to s0 (s\<lparr>exit_status := e\<rparr>) = keeps_to s0 s"
  "keeps_to s0 (s\<lparr>threads_done := b\<rparr>) = keeps_to s0 s" "keeps_to s0 (s\<lparr>event_fd := fd\<rparr>) = keeps_to s0 s"
  "keeps_to s0 (s\<lparr>errno_eintr := b\<rparr>) = keeps_to s0 s"
  by (simp_all add: keeps_to_def accepted_def)

lemma keeps_watch:
  "keeps_to s0 s \<Longrightarrow> fd \<in> accepted s \<Longrightarrow> keeps_to s0 (s\<lparr>event_fd := fd, watched := insert fd (watched s)\<rparr>)"
  by (auto simp: keeps_to_def accepted_def)

text \<open>Clients in memory and in the table.\<close>

lemma keeps_upd:
  assumes "keeps_to s0 s" "upd_client f p s = Inr s'"
    "\<And>c. client_socket (f c) = client_socket c" "\<And>c. is_int16 (rnti c) \<Longrightarrow> is_int16 (rnti (f c))"
  shows "keeps_to s0 s'"
  using assms
  by (auto simp: keeps_to_def upd_client_def read_client_def bind_res_Inr_iff split: option.splits if_splits)

lemma keeps_free: "keeps_to s0 s \<Longrightarrow> free_client p s = Inr s' \<Longrightarrow> keeps_to s0 s'"
  by (auto simp: keeps_to_def free_client_def split: option.splits if_splits)

lemma keeps_delete:
  assumes "keeps_to s0 s" "delete_client_from_hashmap fd s = Inr s'"
  shows "keeps_to s0 s'"
proof -
  from assms(2) obtain m r where "s' = s\<lparr>clients := m\<rparr> \<or> free_client r (s\<lparr>clients := m\<rparr>) = Inr s'"
    by (fastforce simp: delete_client_from_hashmap_def bind_res_Inr_iff split: option.splits)
  with assms(1) keeps_free [of s0 "s\<lparr>clients := m\<rparr>"] show ?thesis by auto
qed

lemma keeps_put: "keeps_to s0 s \<Longrightarrow> put_client_in_hashmap fd p s = Inr s' \<Longrightarrow> keeps_to s0 s'"
  by (auto simp: put_client_in_hashmap_def bind_res_Inr_iff)

text \<open>The callbacks and the passes over all clients.\<close>

lemma downlink_signals [simp]:
  "downlink (set_type zero_message ping)" "downlink (set_type zero_message measurement_control_request)"
  "downlink (set_type zero_message enb_off)"
  by (rule signal, simp)+

lemma keeps_ping: "keeps_to s0 s \<Longrightarrow> ping_client s k v = Inr (b, s') \<Longrightarrow> keeps_to s0 s'"
  using keeps_client(1) [OF keeps_time]
  by (auto simp: ping_client_def bind_res_Inr_iff Let_def split_beta split: if_splits)

lemma keeps_measurement: "keeps_to s0 s \<Longrightarrow> send_measurement_control_request s k v = Inr (b, s') \<Longrightarrow> keeps_to s0 s'"
  using keeps_client(1) by (auto simp: send_measurement_control_request_def bind_res_Inr_iff Let_def split_beta)

lemma keeps_notify: "keeps_to s0 s \<Longrightarrow> notify_client_of_shutdown s k v = Inr (b, s') \<Longrightarrow> keeps_to s0 s'"
  using keeps_client(1) by (auto simp: notify_client_of_shutdown_def bind_res_Inr_iff Let_def split_beta)

lemma keeps_inactivity: "keeps_to s0 s \<Longrightarrow> handle_client_inactivity s k v = Inr (b, s') \<Longrightarrow> keeps_to s0 s'"
  by (auto simp: handle_client_inactivity_def bind_res_Inr_iff Let_def split_beta split: if_splits intro: keeps_delete [rotated])

lemma keeps_close_client: "keeps_to s0 s \<Longrightarrow> close_client_socket s k v = Inr (b, s') \<Longrightarrow> keeps_to s0 s'"
  by (auto simp: close_client_socket_def Let_def)

lemma keeps_iter:
  assumes "iter_clients cb s = Inr (b, s')" "keeps_to s0 s"
    and "\<And>s k v b s'. keeps_to s0 s \<Longrightarrow> cb s k v = Inr (b, s') \<Longrightarrow> keeps_to s0 s'"
  shows "keeps_to s0 s'"
  by (rule iter_clients_preserves [where P = "keeps_to s0", OF _ assms(1,2)]) (erule (1) assms(3))

lemma keeps_ping_pass:
  assumes "keeps_to s0 s" "ping_and_timeout_pass s = Inr s'"
  shows "keeps_to s0 s'"
proof -
  from assms(2) obtain r s1 r2 where s1: "iter_clients ping_client s = Inr (r, s1)"
    "iter_clients handle_client_inactivity s1 = Inr (r2, s')"
    by (auto simp: ping_and_timeout_pass_def bind_res_Inr_iff)
  have "keeps_to s0 s1" by (rule keeps_iter [OF s1(1) assms(1)]) (erule (1) keeps_ping)
  then show ?thesis by (rule keeps_iter [OF s1(2)]) (erule (1) keeps_inactivity)
qed

lemma keeps_measurement_pass: "keeps_to s0 s \<Longrightarrow> measurement_pass s = Inr s' \<Longrightarrow> keeps_to s0 s'"
  by (auto simp: measurement_pass_def bind_res_Inr_iff elim!: keeps_iter intro: keeps_measurement)

lemma keeps_broadcast_shutdown: "keeps_to s0 s \<Longrightarrow> broadcast_shutdown_notification s = Inr s' \<Longrightarrow> keeps_to s0 s'"
  by (auto simp: broadcast_shutdown_notification_def bind_res_Inr_iff elim!: keeps_iter intro: keeps_notify)

lemma keeps_free_all: "keeps_to s0 s \<Longrightarrow> fold_res free_client ps s = Inr s' \<Longrightarrow> keeps_to s0 s'"
  by (induction ps arbitrary: s) (auto simp: bind_res_Inr_iff dest: keeps_free)

lemma keeps_destroy:
  assumes "keeps_to s0 s" "server_t__destroy s = Inr s'"
  shows "keeps_to s0 s'"
proof -
  from assms(2) obtain r s1 vs s2 where s: "iter_clients close_client_socket s = Inr (r, s1)"
    "fold_res free_client vs (s1\<lparr>clients := FreedMap\<rparr>) = Inr s2" "s' = srv_close (server_socket s2) s2"
    by (fastforce simp: server_t__destroy_def close_clients_sockets_def bind_res_Inr_iff)
  have "keeps_to s0 s1" by (rule keeps_iter [OF s(1) assms(1)]) (erule (1) keeps_close_client)
  then have "keeps_to s0 s2" using keeps_free_all [OF _ s(2)] by simp
  then show ?thesis by (simp add: s(3))
qed

lemma keeps_clean:
  assumes "keeps_to s0 s" "clean s = Inr s'"
  shows "keeps_to s0 s'"
proof -
  from assms(2) obtain s1 s2 where s: "broadcast_shutdown_notification s = Inr s1"
    "(if late_pass s1 then ping_and_timeout_pass (s1\<lparr>threads_done := True\<rparr>) else Inr (s1\<lparr>threads_done := True\<rparr>)) = Inr s2"
    "server_t__destroy s2 = Inr s'"
    by (auto simp: clean_def bind_res_Inr_iff Let_def)
  have "keeps_to s0 s1" by (rule keeps_broadcast_shutdown [OF assms(1) s(1)])
  then have "keeps_to s0 s2" using s(2) keeps_ping_pass [of s0 "s1\<lparr>threads_done := True\<rparr>"] by (auto split: if_splits)
  then show ?thesis using s(3) by (rule keeps_destroy)
qed

lemma keeps_error: "keeps_to s0 s \<Longrightarrow> server_error s = Inr s' \<Longrightarrow> keeps_to s0 s'"
  by (auto simp: server_error_def bind_res_Inr_iff split: if_splits dest: keeps_clean)

text \<open>Handlers of messages.\<close>

lemma keeps_update_client:
  assumes "keeps_to s0 s" "update_client_by_ra_rnti_data fd i t x s = Inr s'"
  shows "keeps_to s0 s'"
proof -
  let ?f = "\<lambda>c. c\<lparr>preamble_index := to_int8 i, last_activity := t, first_connection_timestamp := t, rnti := to_int16 x,
    battery_state := OK\<rparr>"
  from assms(2) obtain p where "s' = s \<or> upd_client ?f p s = Inr s'"
    by (auto simp: update_client_by_ra_rnti_data_def bind_res_Inr_iff split: if_splits)
  then show ?thesis using assms(1) keeps_upd [of s0 s ?f p s'] by auto
qed

lemma keeps_rach:
  assumes "keeps_to s0 s" "fd \<in> accepted s" "handle_random_access_request fd m s = Inr s'"
  shows "keeps_to s0 s'"
proof -
  let ?i = "to_uint8 (extractPreambleIndex (ra_rnti (get_preamble m)))"
  obtain t s1 where t: "srv_time s = (t, s1)" by fastforce
  then have s1: "keeps_to s0 s1" "fd \<in> accepted s1"
    using keeps_time [OF assms(1)] assms(2) accepted_calls(2) [of s] by simp_all
  have "keeps_to s0 (send_random_access_response fd ?i t s1)"
    unfolding send_random_access_response_def Let_def
    by (rule keeps_send [OF s1 response]) (rule preamble_index_stored)
  with assms(3) t keeps_update_client show ?thesis by (simp add: handle_random_access_request_def Let_def)
qed

lemma keeps_pong: "keeps_to s0 s \<Longrightarrow> handle_pong fd s = Inr s' \<Longrightarrow> keeps_to s0 s'"
  by (auto simp: handle_pong_def bind_res_Inr_iff split_beta elim!: keeps_upd [rotated])

lemma keeps_battery:
  "keeps_to s0 s \<Longrightarrow> handle_low_battery_request fd s = Inr s' \<Longrightarrow> keeps_to s0 s'"
  "keeps_to s0 s \<Longrightarrow> handle_high_battery_request fd s = Inr s' \<Longrightarrow> keeps_to s0 s'"
  by (auto simp: handle_low_battery_request_def handle_high_battery_request_def bind_res_Inr_iff elim!: keeps_upd)

lemma keeps_rrc:
  assumes "keeps_to s0 s" "fd \<in> accepted s" "send_rrc_setup fd s = Inr s'"
  shows "keeps_to s0 s'"
proof -
  from assms(3) obtain p c where c: "read_client s p = Inr c"
    "s' = snd (srv_send fd (set_rrc_response (generate_rrc_config (rnti c)) (set_type zero_message rrc_setup)) s)"
    by (auto simp: send_rrc_setup_def get_client_rnti_def bind_res_Inr_iff Let_def)
  show ?thesis unfolding c(2) by (rule keeps_send [OF assms(1,2) configuration]) (rule keeps_client(2) [OF assms(1) c(1)])
qed

lemma keeps_power_off: "keeps_to s0 s \<Longrightarrow> handle_client_power_off fd s = Inr s' \<Longrightarrow> keeps_to s0 s'"
  by (auto simp: handle_client_power_off_def intro: keeps_delete [rotated])

lemma keeps_dispatch: "keeps_to s0 s \<Longrightarrow> fd \<in> accepted s \<Longrightarrow> dispatch fd m s = Inr s' \<Longrightarrow> keeps_to s0 s'"
  by (auto simp: dispatch_def split: option.splits e_message_type.splits
      dest: keeps_rach keeps_pong keeps_battery keeps_rrc keeps_power_off)

lemma keeps_parse:
  assumes "keeps_to s0 s" "events s ! n \<in> accepted s" "parse_packet n s = Inr s'"
  shows "keeps_to s0 s'"
proof -
  obtain r s1 where r: "srv_read s = (r, s1)" by fastforce
  have s1: "keeps_to s0 s1" "accepted s1 = accepted s" using keeps_read [OF assms(1)] r by (auto simp: srv_read_def split_beta)
  have e: "event_socket n s = Inr (events s ! n)" using assms(3) by (auto simp: parse_packet_def event_socket_def split: if_splits)
  show ?thesis
  proof (cases r)
    case None
    with assms(3) e r keeps_error [OF s1(1)] show ?thesis by (simp add: parse_packet_def)
  next
    case (Some bs)
    with assms(2,3) e r keeps_dispatch [OF s1(1)] keeps_delete [of s0 "srv_close (events s ! n) s1"] s1 show ?thesis
      by (auto simp: parse_packet_def split: if_splits)
  qed
qed

lemma keeps_accept:
  assumes "keeps_to s0 s" "accept_client s = Inr s'"
  shows "keeps_to s0 s'"
proof -
  let ?fd = "accept_res s (accepts s)"
  let ?s1 = "s\<lparr>heap := (heap s)(next_addr s \<mapsto> (malloc_junk s (accepts s))\<lparr>client_socket := ?fd\<rparr>),
    next_addr := Suc (next_addr s), accepts := Suc (accepts s)\<rparr>"
  have a: "accepted ?s1 = insert ?fd (accepted s)" by (simp add: accepted_def lessThan_Suc)
  then have s1: "keeps_to s0 ?s1" using assms(1) unfolding keeps_to_def by auto
  have "keeps_to s0 (?s1\<lparr>event_fd := ?fd, watched := insert ?fd (watched ?s1)\<rparr>)"
    by (rule keeps_watch [OF s1]) (simp add: a)
  note s2 = s1 [THEN keeps_frame(4) [THEN iffD2], of ?fd] this
  from assms(2) show ?thesis
    using keeps_error [OF s1] keeps_error [OF s2(1)] keeps_put [OF s2(2)]
    by (simp add: accept_client_def Let_def split: if_splits)
qed

lemma keeps_events:
  assumes "\<forall>n \<in> set ns. events s0 ! n \<in> insert (server_socket s0) (accepted s0)" "keeps_to s0 s" "handle_events ns s = Inr s'"
  shows "keeps_to s0 s'"
  using assms
proof (induction ns arbitrary: s)
  case Nil
  then show ?case by simp
next
  case (Cons n ns)
  have e: "events s = events s0" "server_socket s = server_socket s0" using Cons.prems(2) by (simp_all add: keeps_to_def)
  have fd: "events s ! n \<in> insert (server_socket s) (accepted s)"
    using Cons.prems(1) keeps_accepted [OF Cons.prems(2)] e by auto
  show ?case
  proof (cases "exit_status s = None")
    case False
    with Cons.prems show ?thesis by simp
  next
    case True
    with Cons.prems(3) obtain s1 where s1: "(if events s ! n = server_socket s then accept_client s else parse_packet n s) = Inr s1"
      "handle_events ns s1 = Inr s'"
      by (auto simp: bind_res_Inr_iff event_socket_def split: if_splits)
    have "keeps_to s0 s1"
      using s1(1) keeps_accept [OF Cons.prems(2)] keeps_parse [OF Cons.prems(2)] fd by (auto split: if_splits)
    with Cons.IH [OF _ _ s1(2)] Cons.prems(1) show ?thesis by simp
  qed
qed

text \<open>The file transfer.\<close>

lemma fread_chunk_length: "length (fread_chunk f p) \<le> 40"
  by (simp add: fread_chunk_def BUFFER_SIZE_def Let_def)

lemma piece_of_type:
  assumes "wf_message m" "t \<in> {data_start, data, data_end}" "message_type m = msg_code t"
  shows "downlink m"
proof -
  have "set_type m t = m" using assms(3) by (cases m) (simp add: set_type_def del: msg_code.simps)
  with piece [OF assms(1,2)] show ?thesis by simp
qed

lemma keeps_chunks:
  "keeps_to s0 s \<Longrightarrow> fd \<in> accepted s \<Longrightarrow> wf_message m \<Longrightarrow> message_type m = msg_code data \<Longrightarrow>
    send_chunks m f fd p k s = Inr (ok, s') \<Longrightarrow> keeps_to s0 s'"
proof (induction "nat (int (length f) - p)" arbitrary: m p k s rule: less_induct)
  case less
  show ?case
  proof (cases "p < int (length f)")
    case False
    with less.prems show ?thesis by (simp add: send_chunks.simps)
  next
    case True
    let ?m = "set_buffer (fread_chunk f p) m"
    have m: "wf_message ?m" "message_type ?m = msg_code data"
      using less.prems(3,4) fread_chunk_length by (simp_all del: msg_code.simps)
    obtain r s1 where s1: "srv_send fd ?m s = (r, s1)" by fastforce
    have t: "keeps_to s0 s1" "fd \<in> accepted s1"
      using keeps_send [OF less.prems(1,2) piece_of_type [OF m(1) _ m(2)]] s1 less.prems(2) accepted_calls(1) [of fd ?m s]
      by simp_all
    from less.prems(5) True s1 have "s' = s1\<lparr>exit_status := Some 1\<rparr> \<or> send_chunks ?m f fd (p + 16) (k + 1) s1 = Inr (ok, s')"
      by (subst (asm) send_chunks.simps) (auto simp: bind_res_Inr_iff c_int_def split: if_splits)
    then show ?thesis
    proof
      assume "send_chunks ?m f fd (p + 16) (k + 1) s1 = Inr (ok, s')"
      from less.hyps [OF _ t m this] True show ?thesis by simp
    qed (use t in simp)
  qed
qed

lemma keeps_broadcast_sample:
  assumes "keeps_to s0 s" "\<forall>fd. wf_message (tag_junk arg fd)" "\<forall>fd. wf_message (data_junk arg fd)"
    "broadcast_sample arg s k v = Inr (b, s')"
  shows "keeps_to s0 s'"
proof (cases "sample_file arg")
  case None
  with assms show ?thesis by (auto simp: broadcast_sample_def)
next
  case (Some f)
  from assms(4) Some obtain c where c: "read_client s v = Inr c"
    by (auto simp: broadcast_sample_def bind_res_Inr_iff Let_def split: if_splits)
  let ?fd = "client_socket c"
  let ?tag = "set_buffer (take BUFFER_SIZE (name_memory arg)) (set_type (tag_junk arg ?fd) data_start)"
  have wf: "wf_message ?tag" "wf_message (set_type (data_junk arg ?fd) data)"
    using assms(2,3) by (simp_all add: BUFFER_SIZE_def)
  have d: "downlink ?tag" "downlink (set_type ?tag data_end)"
    by (rule piece_of_type [of _ data_start]; use wf in \<open>simp del: msg_code.simps\<close>) (rule piece, use wf in simp_all)
  note fd = keeps_client(1) [OF assms(1) c]
  obtain r s1 where s1: "srv_send ?fd ?tag s = (r, s1)" by fastforce
  have t1: "keeps_to s0 s1" "?fd \<in> accepted s1"
    using keeps_send [OF assms(1) fd d(1)] s1 fd accepted_calls(1) [of ?fd ?tag s] by simp_all
  show ?thesis
  proof (cases "r = -1")
    case True
    with assms(4) Some c s1 t1 show ?thesis by (auto simp: broadcast_sample_def Let_def split: if_splits)
  next
    case False
    with assms(4) Some c s1 obtain ok s2 where s2: "send_chunks (set_type (data_junk arg ?fd) data) f ?fd 0 0 s1 = Inr (ok, s2)"
      "s' = s2 \<or> (\<exists>e. s' = (snd (srv_send ?fd (set_type ?tag data_end) s2))\<lparr>exit_status := e\<rparr>) \<or>
        s' = snd (srv_send ?fd (set_type ?tag data_end) s2)"
      by (auto simp: broadcast_sample_def bind_res_Inr_iff Let_def split_beta split: if_splits)
    have k2: "keeps_to s0 s2" by (rule keeps_chunks [OF t1 wf(2) _ s2(1)]) (simp del: msg_code.simps)
    have "keeps_to s1 s2" by (rule keeps_chunks [OF keeps_refl [OF t1(1)] t1(2) wf(2) _ s2(1)]) (simp del: msg_code.simps)
    then have "?fd \<in> accepted s2" using keeps_accepted t1(2) by blast
    then have "keeps_to s0 (snd (srv_send ?fd (set_type ?tag data_end) s2))" by (rule keeps_send [OF k2 _ d(2)])
    with s2(2) k2 show ?thesis by auto
  qed
qed

lemma keeps_transfer:
  assumes "keeps_to s0 s" "\<forall>fd. wf_message (tag_junk arg fd)" "\<forall>fd. wf_message (data_junk arg fd)" "transfer_data arg s = Inr s'"
  shows "keeps_to s0 s'"
proof (cases "threads_done s")
  case True
  with assms show ?thesis by (simp add: transfer_data_def)
next
  case False
  with assms(4) obtain r s1 where s1: "iter_clients (broadcast_sample arg) s = Inr (r, s1)"
    "s' = (if exit_status s1 = None then s1\<lparr>exit_status := Some 0\<rparr> else s1)"
    by (auto simp: transfer_data_def bind_res_Inr_iff)
  have "keeps_to s0 s1" by (rule keeps_iter [OF s1(1) assms(1)]) (erule (1) keeps_broadcast_sample [OF _ assms(2,3)])
  with s1(2) show ?thesis by auto
qed

section \<open>The machine\<close>

text \<open>A pass of the main thread changes the events, so the invariant of the machine forgets the earlier state.\<close>

definition well_spoken :: "server_t \<Rightarrow> bool" where
  "well_spoken s \<longleftrightarrow> keeps_to s s"

lemma well_spokenI: "keeps_to s0 s \<Longrightarrow> well_spoken s"
  unfolding well_spoken_def by (rule keeps_refl)

lemma well_spoken_packets:
  assumes "well_spoken s" "ready_ok fds s" "receive_packets_pass (Some fds) s = Inr s'"
  shows "well_spoken s'"
proof -
  let ?s = "with_events fds s"
  have k: "keeps_to ?s ?s" using assms(1) by (simp add: well_spoken_def keeps_to_def with_events_def accepted_def)
  have w: "watched s \<subseteq> insert (server_socket s) (accepted s)" using assms(1) by (simp add: well_spoken_def keeps_to_def)
  have "\<forall>n \<in> set [0..<length fds]. events ?s ! n \<in> insert (server_socket ?s) (accepted ?s)"
  proof
    fix n assume "n \<in> set [0..<length fds]"
    then have "events ?s ! n = fds ! n" "fds ! n \<in> set fds" by simp_all
    moreover have "accepted ?s = accepted s" by (simp add: accepted_def)
    ultimately show "events ?s ! n \<in> insert (server_socket ?s) (accepted ?s)" using assms(2) w by (auto simp: ready_ok_def)
  qed
  from keeps_events [OF this k] assms(3) show ?thesis
    by (intro well_spokenI) (simp add: receive_packets_pass_def handle_connection_def with_events_def)
qed

interpretation spoken_machine: invariant_machine server_step well_spoken
proof
  fix s s'
  assume w: "well_spoken s" and "server_step s s'"
  from this(2) show "well_spoken s'"
  proof cases
    case (packets fds)
    with well_spoken_packets [OF w] show ?thesis by blast
  next
    case pings
    with keeps_ping_pass w show ?thesis unfolding well_spoken_def using keeps_refl by blast
  next
    case measurements
    with keeps_measurement_pass w show ?thesis unfolding well_spoken_def using keeps_refl by blast
  qed
qed

lemma init_well_spoken:
  assumes "server_zero s" "outbox (srv_net s) = []" "\<forall>n. is_int16 (rnti (malloc_junk s n))"
    and "server_main argc sock bind_r listen_r epoll_r ctl_r s = Inr s'"
  shows "well_spoken s'"
proof -
  have k: "keeps_to s s" using assms(1-3) by (simp add: keeps_to_def server_zero_def)
  have e: "well_spoken s'" if "server_error s1 = Inr s'" "keeps_to s s1" for s1
    using keeps_error [OF that(2,1)] by (rule well_spokenI)
  have i: "well_spoken s'" if "server_t__init sock sock epoll_r (s\<lparr>watched := insert sock (watched s)\<rparr>) = Inr s'"
  proof -
    from that obtain m where "s' = s\<lparr>watched := insert sock (watched s), server_socket := sock, event_fd := sock,
        epoll_file_descriptor := epoll_r, clients := LiveMap m\<rparr>"
      by (auto simp: server_t__init_def bind_res_Inr_iff)
    with assms(1-3) show ?thesis by (simp add: well_spoken_def keeps_to_def server_zero_def)
  qed
  from assms(4) e [of s] e [of "srv_close epoll_r s"] i k well_spokenI [of s "s\<lparr>exit_status := Some 1\<rparr>"] show ?thesis
    by (auto simp: server_main_def init_server_def remind_about_port_def split: if_splits)
qed

section \<open>Properties\<close>

text \<open>C10. The server keeps to its half of the protocol: whatever bytes arrive and however the threads' passes are ordered
  (the batches of events being such that no system call in them fails), from its
  start on and also through a file transfer or an interrupt at the end, every message it has ever sent went to a
  descriptor that an accept returned, and is one of these: a ping, a measurement request or a shutdown notice, all other bytes zero; a random
  access response with one of the four possible preamble indices and a time, all else zero; an RRC set-up with the fixed
  configuration and a 16-bit RNTI (what \<open>malloc\<close> leaves in that field being one), all else zero; or a message of a file transfer.\<close>

theorem server_keeps_protocol:
  assumes "server_zero s0" "outbox (srv_net s0) = []" "\<forall>n. is_int16 (rnti (malloc_junk s0 n))"
    and "server_main argc sock bind_r listen_r epoll_r ctl_r s0 = Inr s" "server_step\<^sup>*\<^sup>* s s'"
    and "\<forall>fd. wf_message (tag_junk arg fd)" "\<forall>fd. wf_message (data_junk arg fd)"
    and "s'' = s' \<or> transfer_data arg s' = Inr s'' \<or> sigint_while_waiting s' = Inr s''"
  shows "\<forall>(fd, m) \<in> set (outbox (srv_net s'')). (\<exists>n < accepts s''. fd = accept_res s'' n) \<and> downlink m"
proof -
  have "well_spoken s" by (rule init_well_spoken [OF assms(1-4)])
  then have s': "keeps_to s' s'" using spoken_machine.reachable_inv [OF assms(5)] by (simp add: well_spoken_def)
  have "keeps_to s' s2" if "sigint_while_waiting s' = Inr s2" for s2
  proof -
    from that obtain u where u: "clean s' = Inr u" "server_error (u\<lparr>errno_eintr := True\<rparr>) = Inr s2"
      by (auto simp: sigint_while_waiting_def receive_packets_pass_def bind_res_Inr_iff)
    have "keeps_to s' (u\<lparr>errno_eintr := True\<rparr>)" using keeps_clean [OF s' u(1)] by simp
    then show ?thesis using u(2) by (rule keeps_error)
  qed
  with assms(8) s' keeps_transfer [OF s' assms(6,7)] have "keeps_to s' s''" by blast
  then have "fd \<in> accepted s'' \<and> downlink m" if "(fd, m) \<in> set (outbox (srv_net s''))" for fd m
    using that unfolding keeps_to_def by blast
  then show ?thesis by (auto simp: accepted_def)
qed

lemma server_keeps_protocol_witness:
  "\<exists>s0 s s1. server_zero s0 \<and> server_main 2 3 0 0 4 0 s0 = Inr s \<and> ping_and_timeout_pass s = Inr s1 \<and>
    (\<forall>(fd, m) \<in> set (outbox (srv_net s1)). downlink m)"
proof -
  let ?s0 = "server_with NullMap Map.empty {} (quiet_net (\<lambda>_. 7))"
  have z: "server_zero ?s0" "outbox (srv_net ?s0) = []" "\<forall>n. is_int16 (rnti (malloc_junk ?s0 n))"
    by (simp_all add: quiet_net_def is_int16_def) (simp add: zero_client_def)
  have "times_ok ?s0" "valid_fd 3" by (simp_all add: valid_fd_def)
  from init_server_up [OF z(1) this, of 0 0 4 0 2] obtain s where s: "server_main 2 3 0 0 4 0 ?s0 = Inr s" "server_up s" by auto
  from pings_ok [OF s(2)] obtain s1 where s1: "ping_and_timeout_pass s = Inr s1" by blast
  then have st: "server_step\<^sup>*\<^sup>* s s1" by (intro r_into_rtranclp pings)
  define arg where "arg = \<lparr>name_memory = [], sample_file = None, tag_junk = (\<lambda>_. zero_message), data_junk = (\<lambda>_. zero_message)\<rparr>"
  have "\<forall>fd. wf_message (tag_junk arg fd)" "\<forall>fd. wf_message (data_junk arg fd)" by (simp_all add: arg_def)
  from server_keeps_protocol [OF z s(1) st this, of s1] z(1) s(1) s1 show ?thesis by fastforce
qed

end
