(* ===== verification/Server_Kick.thy ===== *)
theory Server_Kick
  imports Server_Theorems
begin

text \<open>The pinging thread: what a pass sends, whom it removes, and whom it overlooks.\<close>

section \<open>A sweep of one bucket\<close>

lemma sweep_all_nils: "\<forall>b \<in> set bss. b = [] \<Longrightarrow> sweep_all getm cb (bss @ bss') s = sweep_all getm cb bss' s"
  by (induction bss) simp_all

lemma sweep_all_one:
  assumes "i < length bss" "\<forall>j < length bss. j \<noteq> i \<longrightarrow> bss ! j = []"
  shows "sweep_all getm cb bss s = sweep getm cb (bss ! i) s"
proof -
  have "\<forall>b \<in> set (take i bss). b = []" "\<forall>b \<in> set (drop (Suc i) bss). b = []"
    using assms by (fastforce simp: in_set_conv_nth)+
  then have n: "sweep_all getm cb (drop (Suc i) bss) s1 = Inr (0, s1)"
    and t: "sweep_all getm cb (take i bss @ bss ! i # drop (Suc i) bss) s = sweep_all getm cb (bss ! i # drop (Suc i) bss) s"
    for s1
    using sweep_all_nils [of "drop (Suc i) bss" getm cb "[]" s1] by (simp_all add: sweep_all_nils)
  have "sweep_all getm cb (bss ! i # drop (Suc i) bss) s = sweep getm cb (bss ! i) s"
    by (cases "sweep getm cb (bss ! i) s") (auto simp: n)
  with t assms(1) show ?thesis by (simp add: id_take_nth_drop [symmetric])
qed

text \<open>If a map has two keys and they meet in a bucket, that bucket is all there is.\<close>

lemma two_keys_bucket:
  assumes "hm_rep m ass bss" "dom (hm_lookup m) = {k1, k2}" "k1 \<noteq> k2" "bidx (table_size m) k2 = bidx (table_size m) k1"
  obtains kv1 kv2 i where "i < length bss" "bss ! i = [kv1, kv2]" "{fst kv1, fst kv2} = {k1, k2}" "fst kv1 \<noteq> fst kv2"
    "\<forall>j < length bss. j \<noteq> i \<longrightarrow> bss ! j = []" "hm_lookup m (fst kv1) = Some (snd kv1)"
proof -
  let ?i = "bidx (table_size m) k1"
  have ok: "bss_ok (table_size m) bss" "0 < table_size m" using assms(1) by (simp_all add: hm_rep_def)
  have i: "?i < length bss" using ok bidx_less by (auto simp: bss_ok_def)
  have key: "fst kv \<in> {k1, k2}" if "j < length bss" "kv \<in> set (bss ! j)" for j kv
  proof -
    have "bss ! j \<in> set bss" using that(1) by simp
    then have "kv \<in> set (concat bss)" unfolding set_concat using that(2) by blast
    then have "fst kv \<in> dom (hm_lookup m)" by (auto simp: hm_lookup_rep(2) [OF assms(1)] dom_map_of_conv_image_fst)
    with assms(2) show ?thesis by simp
  qed
  have other: "bss ! j = []" if "j < length bss" "j \<noteq> ?i" for j
  proof (rule ccontr)
    assume "bss ! j \<noteq> []"
    then obtain kv where kv: "kv \<in> set (bss ! j)" by (meson list.set_sel(1))
    then have "bidx (table_size m) (fst kv) = j" using ok(1) that(1) by (auto simp: bss_ok_def)
    moreover have "bidx (table_size m) (fst kv) = ?i" using key [OF that(1) kv] assms(4) by auto
    ultimately show False using that(2) by simp
  qed
  have d: "distinct (map fst (bss ! ?i))" using ok(1) i by (auto simp: bss_ok_def)
  have "hm_lookup m k1 \<noteq> None" "hm_lookup m k2 \<noteq> None" using assms(2) by (auto simp: dom_def)
  then have "k1 \<in> fst ` set (bss ! ?i)" "k2 \<in> fst ` set (bss ! ?i)"
    using assms(4) by (auto simp: hm_lookup_rep(1) [OF assms(1)] map_of_eq_None_iff)
  then have keys: "set (map fst (bss ! ?i)) = {k1, k2}" using key [OF i] by auto
  then have "length (bss ! ?i) = 2" using distinct_card [OF d] assms(3) by simp
  then obtain kv1 kv2 where b: "bss ! ?i = [kv1, kv2]"
    by (auto simp: numeral_2_eq_2 length_Suc_conv)
  have "hm_lookup m (fst kv1) = Some (snd kv1)"
  proof -
    have "bidx (table_size m) (fst kv1) = ?i" using ok(1) i b by (fastforce simp: bss_ok_def)
    then show ?thesis using b by (simp add: hm_lookup_rep(1) [OF assms(1)])
  qed
  with that [OF i b] other keys d b show ?thesis by auto
qed

text \<open>The keys of the table are the descriptors of the clients.\<close>

lemma clients_inv_keys:
  assumes "clients_inv s"
  shows "dom (hm_lookup (map_of_server s)) = sprintf_d ` dom (clients_of s)"
proof
  show "dom (hm_lookup (map_of_server s)) \<subseteq> sprintf_d ` dom (clients_of s)"
  proof
    fix k assume "k \<in> dom (hm_lookup (map_of_server s))"
    then obtain v where v: "hm_lookup (map_of_server s) k = Some v" by auto
    from clients_inv_keyD [OF assms v] obtain a c where
      a: "v = Some a" "heap s a = Some c" "k = sprintf_d (client_socket c)" by blast
    then have "client_socket c \<in> dom (clients_of s)" using v by (simp add: clients_of_def dom_def)
    with a(3) show "k \<in> sprintf_d ` dom (clients_of s)" by auto
  qed
  show "sprintf_d ` dom (clients_of s) \<subseteq> dom (hm_lookup (map_of_server s))"
    by (auto simp: clients_of_def split: option.splits)
qed

text \<open>A sweep of a bucket with two clients in it, the first of them silent, kicks that one and nobody else.\<close>

lemma sweep_kicks_first:
  assumes "server_inv s" "hm_lookup (map_of_server s) (fst kv1) = Some (snd kv1)"
    and "\<forall>fd c n. clients_of s fd = Some c \<longrightarrow> PING_TIMEOUT < clock (srv_net s) n - last_activity c"
  obtains c s' where "clients_of s (client_socket c) = Some c"
    "sweep map_of_server handle_client_inactivity [kv1, kv2] s = Inr (0, s')"
    "clients_of s' = (clients_of s)(client_socket c := None)"
proof (rule handle_client_inactivity_known [OF assms(1,2)])
  fix c
  assume c: "clients_of s (client_socket c) = Some c"
    and "\<exists>s'. handle_client_inactivity s (fst kv1) (snd kv1) = Inr (0, s') \<and>
      removes_client (client_socket c) (s\<lparr>srv_net := snd (time_now (srv_net s))\<rparr>) s' \<and>
      (\<forall>k'. k' \<noteq> fst kv1 \<longrightarrow> hm_lookup (map_of_server s') k' = hm_lookup (map_of_server s) k') \<and>
      (\<exists>r. hashmap_delete (map_of_server s) (fst kv1) = Inr (r, map_of_server s')) \<and>
      srv_net s' = (snd (time_now (srv_net s)))\<lparr>closed := closed (srv_net s) @ [client_socket c]\<rparr>"
  then obtain s' r where s': "handle_client_inactivity s (fst kv1) (snd kv1) = Inr (0, s')"
    "removes_client (client_socket c) (s\<lparr>srv_net := snd (time_now (srv_net s))\<rparr>) s'"
    "hashmap_delete (map_of_server s) (fst kv1) = Inr (r, map_of_server s')" by blast
  have "hm_inv (map_of_server s)" using clients_inv_map assms(1) by (force simp: server_inv_def)
  from hashmap_delete_present [OF this assms(2)] s'(3) have "hm_lookup (map_of_server s') (fst kv1) = None" by fastforce
  then have "sweep map_of_server handle_client_inactivity [kv1, kv2] s = Inr (0, s')" using s'(1) by simp
  with that [OF c] s'(2) show thesis by (simp add: removes_client_def)
next
  fix c
  assume "clients_of s (client_socket c) = Some c"
    "\<not> PING_TIMEOUT < clock (srv_net s) (readings (srv_net s)) - last_activity c"
  with assms(3) show thesis by simp
qed

text \<open>Of two silent clients that share a bucket one is overlooked.\<close>

lemma sweep_overlooks:
  assumes "server_inv s" "dom (clients_of s) = {f1, f2}" "f1 \<noteq> f2"
    and "bucket_index (table_size (map_of_server s)) (sprintf_d f1) = bucket_index (table_size (map_of_server s)) (sprintf_d f2)"
    and "\<forall>fd c n. clients_of s fd = Some c \<longrightarrow> PING_TIMEOUT < clock (srv_net s) n - last_activity c"
  shows "\<exists>s' fd. ping_and_timeout_pass s = Inr s' \<and> fd \<in> {f1, f2} \<and> dom (clients_of s') = {fd}"
proof -
  have inv: "clients_inv s" "times_ok s" using assms(1) by (simp_all add: server_inv_def)
  from iter_ping [OF inv] obtain cs where
    cs: "iter_clients ping_client s = Inr (0, s\<lparr>srv_net := fold ping_net cs (srv_net s)\<rparr>)" by blast
  have ck: "clock (fold ping_net cs w) = clock w" for w
    by (induction cs arbitrary: w) (simp_all add: ping_net_simps)
  let ?s = "s\<lparr>srv_net := fold ping_net cs (srv_net s)\<rparr>"
  obtain m where m: "clients s = LiveMap m" "hm_inv m" using clients_inv_map [OF inv(1)] by blast
  then have mp: "map_of_server s = m" "map_of_server ?s = m" by simp_all
  obtain ass bss where rep: "hm_rep m ass bss" using m(2) by (auto simp: hm_inv_def)
  then have ts: "0 < table_size m" "table_size m \<le> INT_MAX" by (auto simp: hm_rep_def)
  have dm: "dom (hm_lookup m) = {sprintf_d f1, sprintf_d f2}"
    using clients_inv_keys [OF inv(1)] assms(2) mp(1) by simp
  have same: "bidx (table_size m) (sprintf_d f2) = bidx (table_size m) (sprintf_d f1)"
    using assms(4) by (simp add: mp bucket_index_ok [OF ts])
  have ne: "sprintf_d f1 \<noteq> sprintf_d f2" using assms(3) by (simp add: sprintf_inject)
  obtain kv1 kv2 i where
    b: "i < length bss" "bss ! i = [kv1, kv2]" "\<forall>j < length bss. j \<noteq> i \<longrightarrow> bss ! j = []"
      "hm_lookup m (fst kv1) = Some (snd kv1)"
    by (rule two_keys_bucket [OF rep dm ne same])
  have si: "sweep_inv ?s ?s" and inv': "server_inv ?s" using assms(1) by (simp_all add: sweep_inv_def)
  obtain c s' where c: "clients_of s (client_socket c) = Some c"
    "sweep map_of_server handle_client_inactivity [kv1, kv2] ?s = Inr (0, s')"
    "clients_of s' = (clients_of s)(client_socket c := None)"
    by (rule sweep_kicks_first [OF inv', of kv1 kv2]) (use b(4) mp assms(5) ck in auto)
  then have "sweep_all map_of_server handle_client_inactivity bss ?s = Inr (0, s')"
    by (simp add: sweep_all_one [OF b(1,3)] b(2))
  then have it: "iter_clients handle_client_inactivity ?s = Inr (0, s')"
    using hashmap_iter_sweep(1) [OF inactivity_deletes_current si rep [folded mp(2)]] m(1)
    by (simp add: iter_clients_def)
  have "client_socket c \<in> {f1, f2}" using c(1) assms(2) by auto
  then have "\<exists>fd. fd \<in> {f1, f2} \<and> dom (clients_of s') = {fd}"
    using c(3) assms(2,3) by (cases "client_socket c = f1") auto
  with cs it show ?thesis by (auto simp: ping_and_timeout_pass_def)
qed

text \<open>What a pass sends and whom it keeps.\<close>

lemma ping_pass_pings:
  assumes "server_inv s" "writes_ok (srv_net s)"
  shows "\<exists>cs s'. ping_and_timeout_pass s = Inr s' \<and> server_inv s' \<and>
    distinct (map client_socket cs) \<and> set cs = ran (clients_of s) \<and>
    outbox (srv_net s') = outbox (srv_net s) @ ping_trace (clock (srv_net s)) (readings (srv_net s)) cs \<and>
    (\<forall>fd. clients_of s' fd = clients_of s fd \<or>
      clients_of s' fd = None \<and> (\<exists>n c. clients_of s fd = Some c \<and> readings (srv_net s) \<le> n \<and>
        PING_TIMEOUT < clock (srv_net s) n - last_activity c))"
proof -
  from ping_and_timeout_pass_ok [OF assms(1)] obtain cs s' where
    s': "client_list s cs" "ping_and_timeout_pass s = Inr s'" "server_inv s'"
      "kicks_silent (s\<lparr>srv_net := fold ping_net cs (srv_net s)\<rparr>) s'" by blast
  have "set cs = ran (clients_of s)" using s'(1) by (auto simp: client_list_def ran_def)
  moreover have "outbox (srv_net s') = outbox (srv_net s) @ ping_trace (clock (srv_net s)) (readings (srv_net s)) cs"
    using s'(4) fold_ping [OF assms(2)] by (simp add: kicks_silent_def)
  moreover have "clients_of s' fd = clients_of s fd \<or> clients_of s' fd = None \<and> (\<exists>n c. clients_of s fd = Some c \<and>
      readings (srv_net s) \<le> n \<and> PING_TIMEOUT < clock (srv_net s) n - last_activity c)" for fd
    using kicks_silentD [OF s'(4), of fd] fold_ping_readings [of "srv_net s" cs] by (auto intro: order_trans)
  ultimately show ?thesis using s'(1-3) by (auto simp: client_list_def)
qed

section \<open>Properties\<close>

text \<open>C14. A pass of the pinging thread, on a network that takes every message, first sends one ping to each
  client whose battery state is good and whose last activity is more than 5 seconds ago, or whose battery state is low and
  whose last activity is more than 10 seconds ago (a client whose state is still uninitialised memory with another value is
  never pinged), one after the other
  and with one reading of the clock per client, and nothing else; it then removes only clients that a later
  reading finds silent for more than 4000 seconds, and all others keep their data.\<close>

theorem ping_and_timeout_pass_spec:
  assumes "server_inv s" "writes_ok (srv_net s)"
  shows "\<exists>cs s'. ping_and_timeout_pass s = Inr s' \<and> server_inv s' \<and>
    distinct (map client_socket cs) \<and> set cs = ran (clients_of s) \<and>
    outbox (srv_net s') = outbox (srv_net s) @ ping_trace (clock (srv_net s)) (readings (srv_net s)) cs \<and>
    (\<forall>fd. clients_of s' fd = clients_of s fd \<or>
      clients_of s' fd = None \<and> (\<exists>n c. clients_of s fd = Some c \<and> readings (srv_net s) \<le> n \<and>
        PING_TIMEOUT < clock (srv_net s) n - last_activity c))"
  by (rule ping_pass_pings [OF assms])

lemma ping_and_timeout_pass_spec_witness:
  "\<exists>s s'. clients_of s = [8 \<mapsto> client8, 15 \<mapsto> client15] \<and> srv_net s = quiet_net (\<lambda>_. 7) \<and>
    ping_and_timeout_pass s = Inr s' \<and> outbox (srv_net s') = [(8, set_type zero_message ping)] \<and>
    clients_of s' 8 = Some client8"
proof -
  obtain s where m: "server_up s" "clients_of s = [8 \<mapsto> client8, 15 \<mapsto> client15]" "srv_net s = quiet_net (\<lambda>_. 7)"
    using two_client_server_exists [OF quiet_clock [THEN iffD2, OF some_times(2)]] by metis
  have q: "clock (srv_net s) = (\<lambda>_. 7)" "readings (srv_net s) = 0" "outbox (srv_net s) = []" "writes_ok (srv_net s)"
    by (simp_all add: m(3)) (simp_all add: quiet_net_def)
  from ping_and_timeout_pass_spec [OF server_upD(1) [OF m(1)] q(4)] obtain cs s' where
    s': "ping_and_timeout_pass s = Inr s'" "distinct (map client_socket cs)" "set cs = ran (clients_of s)"
      "outbox (srv_net s') = outbox (srv_net s) @ ping_trace (clock (srv_net s)) (readings (srv_net s)) cs"
      and kept: "\<forall>fd. clients_of s' fd = clients_of s fd \<or> clients_of s' fd = None \<and> (\<exists>n c. clients_of s fd = Some c \<and>
        readings (srv_net s) \<le> n \<and> PING_TIMEOUT < clock (srv_net s) n - last_activity c)"
    by (elim exE conjE)
  have "set cs = {client8, client15}" using s'(3) by (simp add: m(2) ran_map_upd insert_commute)
  moreover have "distinct cs" using s'(2) by (simp add: distinct_map)
  moreover note ne = clients_differ
  ultimately have "length cs = 2" using distinct_card [of cs] by simp
  then obtain a b where "cs = [a, b]" by (auto simp: numeral_2_eq_2 length_Suc_conv)
  with \<open>set cs = {client8, client15}\<close> ne have "cs = [client8, client15] \<or> cs = [client15, client8]"
    by (auto simp: doubleton_eq_iff)
  then have "outbox (srv_net s') = [(8, set_type zero_message ping)]"
    using s'(4) by (auto simp: q ping_due_def PING_TIME_NORMAL_def PING_TIME_LOW_BATTERY_def)
  moreover have "clients_of s' 8 = Some client8"
    using spec [OF kept, of 8] m(2) by (auto simp: q PING_TIMEOUT_def)
  ultimately show ?thesis using s'(1) m(2,3) by blast
qed

text \<open>C15. The inactivity sweep can overlook a silent client.  If the only two clients have keys that meet in a
  bucket and both are silent for more than 4000 seconds, a pass removes just one of them: deleting it moves the
  other one into the entry under the iteration, which then goes on behind it.\<close>

theorem inactivity_sweep_overlooks:
  assumes "server_inv s" "dom (clients_of s) = {f1, f2}" "f1 \<noteq> f2"
    and "bucket_index (table_size (map_of_server s)) (sprintf_d f1) = bucket_index (table_size (map_of_server s)) (sprintf_d f2)"
    and "\<forall>fd c n. clients_of s fd = Some c \<longrightarrow> PING_TIMEOUT < clock (srv_net s) n - last_activity c"
  shows "\<exists>s' fd. ping_and_timeout_pass s = Inr s' \<and> fd \<in> {f1, f2} \<and> dom (clients_of s') = {fd}"
  by (rule sweep_overlooks [OF assms])

lemma inactivity_sweep_overlooks_witness:
  "\<exists>s s' fd. clients_of s = [8 \<mapsto> client8, 15 \<mapsto> client15] \<and> srv_net s = quiet_net (\<lambda>_. 5000) \<and>
    ping_and_timeout_pass s = Inr s' \<and> fd \<in> {8, 15} \<and> dom (clients_of s') = {fd}"
proof -
  obtain s where m: "server_up s" "clients_of s = [8 \<mapsto> client8, 15 \<mapsto> client15]" "srv_net s = quiet_net (\<lambda>_. 5000)"
    "table_size (map_of_server s) = 128"
    using two_client_server_exists [OF quiet_clock [THEN iffD2, OF some_times(4)]] by metis
  have d: "dom (clients_of s) = {8, 15}" by (auto simp: m(2) split: if_splits)
  have b: "bucket_index (table_size (map_of_server s)) (sprintf_d 8) = bucket_index (table_size (map_of_server s)) (sprintf_d 15)"
    by (simp add: m(4) bucket_index_ok sprintf_8_15 bidx_8_15)
  have "clock (srv_net s) = (\<lambda>_. 5000)" by (simp add: m(3)) (simp add: quiet_net_def)
  then have "\<forall>fd c n. clients_of s fd = Some c \<longrightarrow> PING_TIMEOUT < clock (srv_net s) n - last_activity c"
    by (auto simp: m(2) PING_TIMEOUT_def split: if_splits)
  from inactivity_sweep_overlooks [OF server_upD(1) [OF m(1)] d _ b this] m(2,3) show ?thesis by auto
qed

end
