(* ===== verification/Server_Races.thy ===== *)
theory Server_Races
  imports Server_Types Server_Kick
begin

text \<open>
  Races inside a pass.  Elsewhere a pass of a thread's loop is one step.  The handlers of the main thread however
  look a client up and then use the pointer, and nothing keeps the pinging thread from doing a whole pass in between:
  this theory says exactly when that goes wrong.
\<close>

section \<open>Handlers in steps\<close>

text \<open>The handlers that look a client up and use its structure.\<close>

datatype access = Random_access s_message | Pong | Battery_low | Battery_high | Rrc_request

fun access_handler :: "access \<Rightarrow> int \<Rightarrow> server_t \<Rightarrow> server_t res" where
  "access_handler (Random_access m) fd s = handle_random_access_request fd m s"
| "access_handler Pong fd s = handle_pong fd s"
| "access_handler Battery_low fd s = handle_low_battery_request fd s"
| "access_handler Battery_high fd s = handle_high_battery_request fd s"
| "access_handler Rrc_request fd s = send_rrc_setup fd s"

text \<open>
  What each does before the lookup: random access reads the clock, keeps the time in a local variable and
  sends its response; the others do nothing.
\<close>

abbreviation preamble_byte :: "s_message \<Rightarrow> int" where
  "preamble_byte m \<equiv> to_uint8 (extractPreambleIndex (ra_rnti (get_preamble m)))"

fun before_lookup :: "access \<Rightarrow> int \<Rightarrow> server_t \<Rightarrow> int \<times> server_t" where
  "before_lookup (Random_access m) fd s =
    (let (t, s) = srv_time s in (t, send_random_access_response fd (preamble_byte m) t s))"
| "before_lookup _ fd s = (0, s)"

text \<open>What each does with the pointer, given the local variable.\<close>

fun use_client :: "access \<Rightarrow> int \<Rightarrow> int \<Rightarrow> addr option \<Rightarrow> server_t \<Rightarrow> server_t res" where
  "use_client (Random_access m) fd t p s =
    (if p \<noteq> None
     then upd_client (\<lambda>c. c\<lparr>preamble_index := to_int8 (preamble_byte m), last_activity := t, first_connection_timestamp := t,
       rnti := to_int16 (ra_rnti (get_preamble m)), battery_state := OK\<rparr>) p s
     else Inr s)"
| "use_client Pong fd t p s = (let (t, s) = srv_time s in upd_client (\<lambda>c. c\<lparr>last_activity := t\<rparr>) p s)"
| "use_client Battery_low fd t p s = upd_client (\<lambda>c. c\<lparr>battery_state := LOW\<rparr>) p s"
| "use_client Battery_high fd t p s = upd_client (\<lambda>c. c\<lparr>battery_state := OK\<rparr>) p s"
| "use_client Rrc_request fd t p s =
    bind_res (read_client s p) (\<lambda>c.
      Inr (snd (srv_send fd (set_rrc_response (generate_rrc_config (rnti c)) (set_type zero_message rrc_setup)) s)))"

text \<open>From the lookup on.\<close>

definition from_lookup :: "access \<Rightarrow> int \<Rightarrow> int \<Rightarrow> server_t \<Rightarrow> server_t res" where
  "from_lookup a fd t s = bind_res (get_client_by_socket s fd) (\<lambda>p. use_client a fd t p s)"

lemma access_handler_parts:
  "access_handler a fd s = from_lookup a fd (fst (before_lookup a fd s)) (snd (before_lookup a fd s))"
  by (cases a) (simp_all add: from_lookup_def handle_pong_def handle_low_battery_request_def handle_high_battery_request_def
      send_rrc_setup_def get_client_rnti_def handle_random_access_request_def update_client_by_ra_rnti_data_def
      split_beta Let_def)

text \<open>The main thread is preempted after the lookup, and the pinging thread does one pass.\<close>

definition preempted :: "access \<Rightarrow> int \<Rightarrow> server_t \<Rightarrow> server_t res" where
  "preempted a fd s =
    (let (t, s) = before_lookup a fd s in
     bind_res (get_client_by_socket s fd) (\<lambda>p. bind_res (ping_and_timeout_pass s) (use_client a fd t p)))"

lemma use_dangling: "read_client s p = Inl Dangling \<Longrightarrow> use_client a fd t p s = Inl Dangling"
  by (cases p; cases a) (simp_all add: upd_client_def srv_time_def split_beta Let_def, simp add: read_client_def)

text \<open>Before the lookup only the network is used.\<close>

lemma before_lookup_frame:
  "server_inv (snd (before_lookup a fd s)) = server_inv s" "clients_of (snd (before_lookup a fd s)) = clients_of s"
  by (cases a; simp add: srv_time_def srv_send_def send_random_access_response_def split_beta Let_def)+

section \<open>What a pass does to pointers\<close>

text \<open>A pass frees clients and leaves all others where they are.\<close>

lemma free_client_heap: "free_client p s = Inr s' \<Longrightarrow> heap s' \<subseteq>\<^sub>m heap s"
  by (auto simp: free_client_def map_le_def split: option.splits if_splits)

lemma delete_client_heap:
  assumes "delete_client_from_hashmap fd s = Inr s'"
  shows "heap s' \<subseteq>\<^sub>m heap s"
proof -
  from assms obtain m p where "s' = s\<lparr>clients := m\<rparr> \<or> free_client p (s\<lparr>clients := m\<rparr>) = Inr s'"
    by (fastforce simp: delete_client_from_hashmap_def bind_res_Inr_iff split: option.splits)
  with free_client_heap [of p "s\<lparr>clients := m\<rparr>"] show ?thesis by auto
qed

lemma pass_heap:
  assumes "ping_and_timeout_pass s = Inr s'"
  shows "heap s' \<subseteq>\<^sub>m heap s"
proof -
  have p: "heap u' \<subseteq>\<^sub>m heap s" if "heap u \<subseteq>\<^sub>m heap s" "ping_client u k v = Inr (b, u')" for u k v b u'
    using that by (auto simp: ping_client_def srv_time_def srv_send_def bind_res_Inr_iff split_beta Let_def split: if_splits)
  have i: "heap u' \<subseteq>\<^sub>m heap s" if "heap u \<subseteq>\<^sub>m heap s" "handle_client_inactivity u k v = Inr (b, u')" for u k v b u'
    using that
    by (auto simp: handle_client_inactivity_def srv_time_def srv_close_def bind_res_Inr_iff split_beta Let_def
        split: if_splits dest!: delete_client_heap elim: map_le_trans)
  from assms obtain r s1 r2 where s1: "iter_clients ping_client s = Inr (r, s1)"
    "iter_clients handle_client_inactivity s1 = Inr (r2, s')"
    by (auto simp: ping_and_timeout_pass_def bind_res_Inr_iff)
  have "heap s1 \<subseteq>\<^sub>m heap s"
    by (rule iter_clients_preserves [where P = "\<lambda>u. heap u \<subseteq>\<^sub>m heap s", OF _ s1(1)]) (use p in blast, simp)
  then show ?thesis
    by (rule iter_clients_preserves [where P = "\<lambda>u. heap u \<subseteq>\<^sub>m heap s", OF _ s1(2), rotated]) (use i in blast)
qed

text \<open>So a pointer fetched before the pass is good after it exactly if its client is still there.\<close>

lemma pointer_after_pass:
  assumes "clients_inv s" "clients_inv s'" "heap s' \<subseteq>\<^sub>m heap s" "heap s a = Some c" "client_socket c = fd"
    "valid_fd fd"
  shows "if clients_of s' fd = None then read_client s' (Some a) = Inl Dangling
    else get_client_by_socket s' fd = Inr (Some a)"
proof (cases "clients_of s' fd")
  case None
  have "heap s' a = None"
  proof (rule ccontr)
    assume "heap s' a \<noteq> None"
    then have "heap s' a = Some c" using assms(3,4) unfolding map_le_def by (metis domIff)
    with clients_inv_heapD(2) [OF assms(2) this] assms(5) None show False by (simp add: clients_of_def)
  qed
  with None show ?thesis by (simp add: read_client_def)
next
  case (Some c')
  with get_client_by_socket_spec [OF assms(2,6)] obtain a' where
    a': "get_client_by_socket s' fd = Inr (Some a')" "heap s' a' = Some c'" "client_socket c' = fd" by auto
  have "heap s a' = Some c'" using assms(3) a'(2) by (force simp: map_le_def)
  from clients_inv_heapD(2) [OF assms(1) this] clients_inv_heapD(2) [OF assms(1,4)] assms(5) a'(3) have "a' = a" by simp
  with a'(1) Some show ?thesis by simp
qed

section \<open>Properties\<close>

text \<open>C11. Each of the five handlers that use a client's structure (random access, pong, the two battery notices, RRC request) looks
  the client up and then uses the pointer, random access after having read the clock and sent its response.  If the
  pinging thread does a pass between the lookup and the use, then the rest of the handler works as if
  that pass had been before the lookup, provided the client is still there; if the pass has kicked the client, the
  handler uses freed memory.\<close>

theorem preempted_handler:
  fixes a :: access
  assumes "server_inv s" "clients_of s fd = Some c"
  defines "t \<equiv> fst (before_lookup a fd s)" and "s1 \<equiv> snd (before_lookup a fd s)"
  shows "access_handler a fd s = from_lookup a fd t s1 \<and>
    (\<exists>s'. ping_and_timeout_pass s1 = Inr s' \<and>
      preempted a fd s = (if clients_of s' fd = None then Inl Dangling else from_lookup a fd t s'))"
proof -
  have s1: "server_inv s1" "clients_of s1 fd = Some c" using assms(1,2) by (simp_all add: s1_def before_lookup_frame)
  then have inv: "clients_inv s1" by (simp add: server_inv_def)
  have fd: "client_socket c = fd" "valid_fd fd" using clients_of_socket [OF inv s1(2)] by simp_all
  from get_client_by_socket_spec [OF inv fd(2)] s1(2) obtain p where
    p: "get_client_by_socket s1 fd = Inr (Some p)" "heap s1 p = Some c" by auto
  from ping_and_timeout_pass_ok [OF s1(1)] obtain s' where
    s': "ping_and_timeout_pass s1 = Inr s'" "server_inv s'" by blast
  have "clients_inv s'" using s'(2) by (simp add: server_inv_def)
  from pointer_after_pass [OF inv this pass_heap [OF s'(1)] p(2) fd]
  have "preempted a fd s = (if clients_of s' fd = None then Inl Dangling else from_lookup a fd t s')"
    using p(1) s'(1) by (auto simp: preempted_def from_lookup_def use_dangling split_beta s1_def t_def split: if_splits)
  with s'(1) access_handler_parts [of a fd s] show ?thesis by (auto simp: t_def s1_def)
qed

lemma preempted_handler_witness:
  "\<exists>s fd. clients_of s = [8 \<mapsto> client8, 15 \<mapsto> client15] \<and> srv_net s = quiet_net (\<lambda>_. 5000) \<and> fd \<in> {8, 15} \<and>
    preempted Pong fd s = Inl Dangling"
proof -
  obtain s where m: "server_up s" "clients_of s = [8 \<mapsto> client8, 15 \<mapsto> client15]" "srv_net s = quiet_net (\<lambda>_. 5000)"
    "table_size (map_of_server s) = 128"
    using two_client_server_exists [OF quiet_clock [THEN iffD2, OF some_times(4)]] by metis
  have d: "dom (clients_of s) = {8, 15}" by (auto simp: m(2) split: if_splits)
  have b: "bucket_index (table_size (map_of_server s)) (sprintf_d 8) = bucket_index (table_size (map_of_server s)) (sprintf_d 15)"
    by (simp add: m(4) bucket_index_ok sprintf_8_15 bidx_8_15)
  have "clock (srv_net s) = (\<lambda>_. 5000)" by (simp add: m(3)) (simp add: quiet_net_def)
  then have k: "\<forall>fd c n. clients_of s fd = Some c \<longrightarrow> PING_TIMEOUT < clock (srv_net s) n - last_activity c"
    by (auto simp: m(2) PING_TIMEOUT_def split: if_splits)
  from sweep_overlooks [OF server_upD(1) [OF m(1)] d _ b k] obtain s' fd where
    s': "ping_and_timeout_pass s = Inr s'" "fd \<in> {8, 15}" "dom (clients_of s') = {fd}" by auto
  define fd' :: int where "fd' = (if fd = 8 then 15 else 8)"
  have "fd' \<notin> dom (clients_of s')" using s'(2,3) by (auto simp: fd'_def)
  then obtain c where f: "fd' \<in> {8, 15}" "clients_of s' fd' = None" "clients_of s fd' = Some c"
    using m(2) by (cases "fd = 8") (auto simp: fd'_def)
  from preempted_handler [OF server_upD(1) [OF m(1)] f(3), of Pong] s'(1) f(2) m(2,3) f(1) show ?thesis by auto
qed

end
