(* ===== verification/Server_Packets.thy ===== *)
theory Server_Packets
  imports Server_Theorems
begin

text \<open>The properties of the main thread: what is reachable, accepting, and single packets.\<close>

section \<open>A concrete server that has received a message\<close>

definition delivering :: "s_message \<Rightarrow> net \<Rightarrow> net" where
  "delivering m w = w\<lparr>recv_res := (\<lambda>_. Some (msg_bytes m))\<rparr>"

lemma delivering_simps [simp]:
  "writes_ok (delivering m w) = writes_ok w" "outbox (delivering m w) = outbox w" "clock (delivering m w) = clock w"
  "readings (delivering m w) = readings w" "closed (delivering m w) = closed w"
  "recv_res (delivering m w) n = Some (msg_bytes m)" "clock_ok (delivering m w) = clock_ok w"
  by (simp_all add: delivering_def writes_ok_def clock_ok_def)

lemma quiet_net_simps [simp]:
  "clock (quiet_net c) = c" "readings (quiet_net c) = 0" "outbox (quiet_net c) = []" "closed (quiet_net c) = []"
  "recv_res (quiet_net c) n = None"
  by (simp_all add: quiet_net_def)

lemma event_from_8:
  assumes "clock_ok w"
  obtains s where "server_up s" "clients_of s = [8 \<mapsto> client8, 15 \<mapsto> client15]" "srv_net s = w" "events s ! 0 = 8"
    "length (events s) = 100" "errno_eintr s = False" "late_pass s = False" "\<forall>fd. void_ret s fd = 0"
proof -
  obtain s where s: "server_up s" "clients_of s = [8 \<mapsto> client8, 15 \<mapsto> client15]" "srv_net s = w"
    "errno_eintr s = False" "late_pass s = False" "\<forall>fd. void_ret s fd = 0"
    using two_client_server_exists [OF assms] by metis
  show ?thesis
    by (rule that [of "with_events [8] s"]) (use s with_events_up [OF s(1), of "[8]"] in simp_all)
qed

section \<open>One packet of a known client\<close>

lemma parse_packet_message:
  assumes "n < length (events s)" "events s ! n = fd" "srv_recv_next s = Some (msg_bytes m)" "wf_message m"
  shows "parse_packet n s = dispatch fd m (s\<lparr>srv_net := snd (recv_bytes (srv_net s))\<rparr>)"
proof -
  have "msg_bytes m \<noteq> []" using length_msg_bytes [OF assms(4)] by auto
  then show ?thesis
    using assms by (simp add: parse_packet_def event_socket_def srv_read_def recv_bytes_def srv_recv_next_def)
qed

lemma recv_bytes_net:
  "clock (snd (recv_bytes w)) = clock w" "readings (snd (recv_bytes w)) = readings w"
  "outbox (snd (recv_bytes w)) = outbox w" "writes_ok (snd (recv_bytes w)) = writes_ok w"
  "closed (snd (recv_bytes w)) = closed w"
  by (simp_all add: recv_bytes_def writes_ok_def)

lemma handle_pong_clock: "handle_pong fd s = Inr s' \<Longrightarrow> clock (srv_net s') = clock (srv_net s)"
  by (auto simp: handle_pong_def srv_time_def time_now_def upd_client_def bind_res_Inr_iff)

lemma parse_random_access:
  assumes "server_inv s" "n < length (events s)" "clients_of s (events s ! n) = Some c" "writes_ok (srv_net s)"
    and "srv_recv_next s = Some (msg_bytes m)" "wf_message m" "message_type m = msg_code random_access_request"
  shows "\<exists>s' r. parse_packet n s = Inr s' \<and> clients_of s' = (clients_of s)(events s ! n \<mapsto>
      c\<lparr>preamble_index := extractPreambleIndex (ra_rnti (get_preamble m)),
        last_activity := clock (srv_net s) (readings (srv_net s)),
        first_connection_timestamp := clock (srv_net s) (readings (srv_net s)),
        rnti := ra_rnti (get_preamble m), battery_state := OK\<rparr>) \<and>
    outbox (srv_net s') = outbox (srv_net s) @ [(events s ! n, r)] \<and> wf_message r \<and>
    message_type r = msg_code random_access_response \<and> get_rapid r = extractPreambleIndex (ra_rnti (get_preamble m)) \<and>
    get_timestamp r = signed_take_bit 63 (clock (srv_net s) (readings (srv_net s))) \<and> writes_ok (srv_net s')"
proof -
  let ?fd = "events s ! n" and ?x = "ra_rnti (get_preamble m)" and ?t = "clock (srv_net s) (readings (srv_net s))"
  let ?s = "s\<lparr>srv_net := snd (recv_bytes (srv_net s))\<rparr>"
  let ?i = "to_uint8 (extractPreambleIndex ?x)"
  let ?r = "set_timestamp ?t (set_rapid (to_int8 ?i) (set_type zero_message random_access_response))"
  have inv: "clients_inv ?s" "clients_of ?s ?fd = Some c" using assms(1,3) by (simp_all add: server_inv_def)
  have i: "to_int8 ?i = extractPreambleIndex ?x" by (simp add: extractPreambleIndex_def)
  have x: "to_int16 ?x = ?x" by (simp add: get_preamble_def load_s_def to_int16_def)
  have p: "parse_packet n s = handle_random_access_request ?fd m ?s"
    using parse_packet_message [OF assms(2) refl assms(5,6)] assms(7)
    by (simp add: dispatch_def msg_label_code del: msg_code.simps)
  from handle_rach_known [OF inv, of m] obtain s' where
    s': "handle_random_access_request ?fd m ?s = Inr s'"
      "updates_client ?fd (\<lambda>c. c\<lparr>preamble_index := to_int8 ?i, last_activity := ?t, first_connection_timestamp := ?t,
        rnti := to_int16 ?x, battery_state := OK\<rparr>) ?s s'"
      "srv_net s' = snd (write_msg ?fd ?r (snd (time_now (srv_net ?s))))"
    by (auto simp: recv_bytes_net)
  have "outbox (srv_net s') = outbox (srv_net s) @ [(?fd, ?r)]"
    using assms(4) by (simp add: s'(3) write_msg_def writes_ok_def time_now_def recv_bytes_def Let_def)
  moreover have "clients_of s' = (clients_of s)(?fd \<mapsto> c\<lparr>preamble_index := extractPreambleIndex ?x,
        last_activity := ?t, first_connection_timestamp := ?t, rnti := ?x, battery_state := OK\<rparr>)"
    using s'(2) assms(3) unfolding i x updates_client_def by simp
  moreover have "get_rapid ?r = extractPreambleIndex ?x" "get_timestamp ?r = signed_take_bit 63 ?t"
    unfolding i by (simp_all add: get_set_response extractPreambleIndex_def)
  moreover have "wf_message ?r" "message_type ?r = msg_code random_access_response" by simp_all
  moreover have "writes_ok (srv_net s')"
    using assms(4) by (simp add: s'(3) write_msg_def writes_ok_def time_now_def recv_bytes_def Let_def)
  ultimately show ?thesis using p s'(1) by (intro exI [of _ s'] exI [of _ ?r]) (simp del: msg_code.simps)
qed

section \<open>Properties\<close>

text \<open>C3. Once started, the server stays safe as long as the system calls of its main thread succeed: let a batch of events be
  good if it reports at most 100 different registered descriptors, every accept gives a new descriptor below ten million that
  epoll takes, and no read fails (closed connections and packets of any contents are good; a failing read ends the
  server, which is another property).  Then in every state reached by good batches, pings and measurement requests in
  any order, no good batch, no pinging pass and no measurement pass fails (no null or dangling pointer, no overrun, no
  overflow) or ends the server, each client is stored under its own socket, and exactly the listening socket and the clients' are
  registered with epoll.  The clock and the activity times in uninitialised memory are taken to be so
  that their differences fit 64 bits.\<close>

theorem server_reachable_safe:
  assumes "server_zero s0" "times_ok s0" "valid_fd sock" "0 \<le> bind_r" "listen_r \<noteq> -1" "epoll_r \<noteq> -1" "ctl_r \<noteq> -1"
    and "2 \<le> argc" "server_main argc sock bind_r listen_r epoll_r ctl_r s0 = Inr s" "server_step\<^sup>*\<^sup>* s s'"
  shows "(\<forall>fds. ready_ok fds s' \<longrightarrow> (\<exists>t. receive_packets_pass (Some fds) s' = Inr t \<and> exit_status t = None)) \<and>
    (\<exists>t. ping_and_timeout_pass s' = Inr t \<and> exit_status t = None) \<and>
    (\<exists>t. measurement_pass s' = Inr t \<and> exit_status t = None) \<and>
    (\<forall>fd c. clients_of s' fd = Some c \<longrightarrow> client_socket c = fd) \<and>
    watched s' = insert (server_socket s') (dom (clients_of s')) \<and> server_socket s' \<notin> dom (clients_of s')"
proof -
  have "server_up s" using init_server_up [OF assms(1-8)] assms(9) by auto
  then have up: "server_up s'" by (rule server_machine.reachable_inv [OF assms(10)])
  have "\<forall>fds. ready_ok fds s' \<longrightarrow> (\<exists>t. receive_packets_pass (Some fds) s' = Inr t \<and> exit_status t = None)"
    using packets_ok [OF up] server_upD(3) by blast
  moreover have "\<exists>t. ping_and_timeout_pass s' = Inr t \<and> exit_status t = None"
    "\<exists>t. measurement_pass s' = Inr t \<and> exit_status t = None"
    using pings_ok [OF up] measurements_ok [OF up] server_upD(3) by blast+
  moreover have "\<forall>fd c. clients_of s' fd = Some c \<longrightarrow> client_socket c = fd"
    using clients_of_socket [OF server_upD(2) [OF up]] by blast
  ultimately show ?thesis using server_upD(1) [OF up] by (simp add: server_inv_def)
qed

lemma started_accepts:
  "\<exists>s s1. server_main 2 3 0 0 4 0 (server_with NullMap Map.empty {} (quiet_net (\<lambda>_. 0))) = Inr s \<and> server_up s \<and>
    accept_ok s \<and> ready_ok [3] s \<and> receive_packets_pass (Some [3]) s = Inr s1"
proof -
  let ?s0 = "server_with NullMap Map.empty {} (quiet_net (\<lambda>_. 0))"
  have "server_zero ?s0" "times_ok ?s0" "valid_fd 3" by (simp_all add: valid_fd_def)
  from init_server_up [OF this, of 0 0 4 0 2] obtain s where s: "server_main 2 3 0 0 4 0 ?s0 = Inr s" "server_up s"
    "clients_of s = Map.empty" "server_socket s = 3" "accepts s = 0" "accept_res s = accept_res ?s0"
    "epoll_ctl_res s = epoll_ctl_res ?s0" by auto
  have w: "watched s = {3}" using s(2-4) by (simp add: server_up_def server_inv_def)
  have ok: "accept_ok s" "accept_ok (with_events [3] s)"
    by (simp_all add: accept_ok_def s w valid_fd_def)
  have "ready_ok [3] s" using ok by (simp add: ready_ok_def w s(4) split: sum.split)
  with packets_ok [OF s(2) this] s(1,2) ok show ?thesis by blast
qed

lemma server_reachable_safe_witness:
  "\<exists>s s1. server_main 2 3 0 0 4 0 (server_with NullMap Map.empty {} (quiet_net (\<lambda>_. 0))) = Inr s \<and>
    receive_packets_pass (Some [3]) s = Inr s1 \<and> (\<exists>t. ping_and_timeout_pass s1 = Inr t \<and> exit_status t = None)"
proof -
  let ?s0 = "server_with NullMap Map.empty {} (quiet_net (\<lambda>_. 0))"
  obtain s s1 where s: "server_main 2 3 0 0 4 0 ?s0 = Inr s" "ready_ok [3] s" "receive_packets_pass (Some [3]) s = Inr s1"
    using started_accepts by blast
  have st: "server_step\<^sup>*\<^sup>* s s1" using server_step.packets [OF s(2,3)] by (rule r_into_rtranclp)
  have "server_zero ?s0" "times_ok ?s0" "valid_fd 3" by (simp_all add: valid_fd_def)
  from server_reachable_safe [OF this, of 0 0 4 0 2, OF _ _ _ _ _ s(1) st] s(1,3) show ?thesis by auto
qed

text \<open>C27. Accepting a connection whose descriptor is new and is taken by epoll adds one client under that descriptor and registers
  it with epoll.  It allocates one structure, of which only the socket is set: activity time, identifiers and the battery
  state (which may be no enumerator of its type) are whatever the memory held, an activity time within \<open>2 ^ 62\<close> of 0 being
  part of the server's invariant.  The server's scratch event is overwritten with the
  descriptor; all other parts of the state stay as they were.\<close>

theorem accept_client_spec:
  assumes "server_inv s" "valid_fd (accept_res s (accepts s))" "accept_res s (accepts s) \<notin> watched s"
    "epoll_ctl_res s (accepts s) \<noteq> -1"
  shows "\<exists>s'. accept_client s = Inr s' \<and> server_inv s' \<and>
    clients_of s' = (clients_of s)(accept_res s (accepts s) \<mapsto>
      (malloc_junk s (accepts s))\<lparr>client_socket := accept_res s (accepts s)\<rparr>) \<and>
    s' = s\<lparr>heap := (heap s)(next_addr s \<mapsto> (malloc_junk s (accepts s))\<lparr>client_socket := accept_res s (accepts s)\<rparr>),
      next_addr := Suc (next_addr s), accepts := Suc (accepts s), event_fd := accept_res s (accepts s),
      watched := insert (accept_res s (accepts s)) (watched s), clients := clients s'\<rparr>"
  using accept_client_ok [OF assms(1)] assms(2-4) unfolding accept_ok_def by blast

lemma accept_client_spec_witness:
  "\<exists>s s'. clients_of s 20 = None \<and> accept_client s = Inr s' \<and> clients_of s' 20 = Some (zero_client\<lparr>client_socket := 20\<rparr>)"
proof -
  obtain m :: "nat hashmap" where m: "hm_inv m" "table_size m = 128" "max_size m = 96"
    "hm_lookup m = [''8'' \<mapsto> Some 2, ''15'' \<mapsto> Some 3]" using two_clients by blast
  let ?s = "two_client_server m (quiet_net (\<lambda>_. 0))"
  have up: "server_inv ?s" "clients_of ?s 20 = None" "watched ?s = {3, 8, 15}"
    using two_client_server_up [OF m, of "quiet_net (\<lambda>_. 0)"] by (simp_all add: server_up_def two_client_server_def)
  have a: "accept_res ?s (accepts ?s) = 20" "epoll_ctl_res ?s (accepts ?s) = 0" "malloc_junk ?s (accepts ?s) = zero_client"
    by (simp_all add: two_client_server_def)
  from accept_client_spec [OF up(1)] show ?thesis
    unfolding a up(3) using up(2) by (auto simp: valid_fd_def)
qed

text \<open>C17. A random access request from a client is answered at once by one response that carries the preamble index
  (the two top bits of the RA-RNTI, in the place of the top bits of a byte) and the current time, and stored: index,
  RA-RNTI, both times and a good battery; nobody else's data changes.\<close>

theorem server_handles_random_access:
  assumes "server_inv s" "n < length (events s)" "clients_of s (events s ! n) = Some c" "writes_ok (srv_net s)"
    and "srv_recv_next s = Some (msg_bytes m)" "wf_message m" "message_type m = msg_code random_access_request"
  shows "\<exists>s' r. parse_packet n s = Inr s' \<and> clients_of s' = (clients_of s)(events s ! n \<mapsto>
      c\<lparr>preamble_index := extractPreambleIndex (ra_rnti (get_preamble m)),
        last_activity := clock (srv_net s) (readings (srv_net s)),
        first_connection_timestamp := clock (srv_net s) (readings (srv_net s)),
        rnti := ra_rnti (get_preamble m), battery_state := OK\<rparr>) \<and>
    outbox (srv_net s') = outbox (srv_net s) @ [(events s ! n, r)] \<and> wf_message r \<and>
    message_type r = msg_code random_access_response \<and> get_rapid r = extractPreambleIndex (ra_rnti (get_preamble m)) \<and>
    get_timestamp r = signed_take_bit 63 (clock (srv_net s) (readings (srv_net s)))"
  using parse_random_access [OF assms] by blast

lemma server_handles_random_access_witness:
  "\<exists>s s' r. clients_of s 8 = Some client8 \<and> parse_packet 0 s = Inr s' \<and> outbox (srv_net s') = [(8, r)] \<and>
    message_type r = 1 \<and> get_rapid r = -64 \<and> get_timestamp r = 77 \<and>
    map_option rnti (clients_of s' 8) = Some (-16384)"
proof -
  let ?m = "set_preamble \<lparr>ra_rnti = -16384\<rparr> (set_type zero_message random_access_request)"
  obtain s where s: "server_up s" "clients_of s = [8 \<mapsto> client8, 15 \<mapsto> client15]"
    "srv_net s = delivering ?m (quiet_net (\<lambda>_. 77))" "events s ! 0 = 8" "length (events s) = 100"
    by (rule event_from_8 [of "delivering ?m (quiet_net (\<lambda>_. 77))"]) (simp, blast)
  have x: "ra_rnti (get_preamble ?m) = -16384" by (simp add: get_set_preamble to_int16_id)
  have e: "extractPreambleIndex (-16384) = -64" by code_simp
  have t: "signed_take_bit 63 (77 :: int) = 77" by (simp add: signed_take_bit_int_eq_self)
  have "0 < length (events s)" "clients_of s (events s ! 0) = Some client8" "writes_ok (srv_net s)"
    "srv_recv_next s = Some (msg_bytes ?m)" "wf_message ?m" "message_type ?m = msg_code random_access_request"
    by (simp_all add: s(2-5) srv_recv_next_def)
  from server_handles_random_access [OF server_upD(1) [OF s(1)] this]
  obtain s' r where s': "parse_packet 0 s = Inr s'" "outbox (srv_net s') = outbox (srv_net s) @ [(8, r)]"
    "message_type r = msg_code random_access_response" "get_rapid r = -64"
    "get_timestamp r = signed_take_bit 63 (clock (srv_net s) (readings (srv_net s)))"
    "clients_of s' = (clients_of s)(8 \<mapsto> client8\<lparr>preamble_index := -64,
      last_activity := clock (srv_net s) (readings (srv_net s)),
      first_connection_timestamp := clock (srv_net s) (readings (srv_net s)), rnti := -16384, battery_state := OK\<rparr>)"
    unfolding x e s(4) by (elim exE conjE)
  show ?thesis by (rule exI [of _ s], rule exI [of _ s'], rule exI [of _ r]) (simp add: s' s(2,3) t)
qed

text \<open>C18. A pong keeps its client: it sets the activity time to now, and the next pass of the pinging thread keeps the
  client as long as the clock has not gone on by more than 4000 seconds.\<close>

theorem pong_keeps_client:
  assumes "server_inv s" "n < length (events s)" "clients_of s (events s ! n) = Some c"
    and "srv_recv_next s = Some (msg_bytes m)" "wf_message m" "message_type m = msg_code pong"
    and "\<forall>k. clock (srv_net s) k \<le> clock (srv_net s) (readings (srv_net s)) + PING_TIMEOUT"
  shows "\<exists>s' s''. parse_packet n s = Inr s' \<and> ping_and_timeout_pass s' = Inr s'' \<and>
    clients_of s' = (clients_of s)(events s ! n \<mapsto> c\<lparr>last_activity := clock (srv_net s) (readings (srv_net s))\<rparr>) \<and>
    clients_of s'' (events s ! n) = clients_of s' (events s ! n)"
proof -
  let ?fd = "events s ! n" and ?t = "clock (srv_net s) (readings (srv_net s))"
  let ?s = "s\<lparr>srv_net := snd (recv_bytes (srv_net s))\<rparr>"
  have inv: "clients_inv ?s" "clients_of ?s ?fd = Some c" "server_inv ?s" using assms(1,3) by (simp_all add: server_inv_def)
  have p: "parse_packet n s = handle_pong ?fd ?s"
    using parse_packet_message [OF assms(2) refl assms(4,5)] assms(6)
    by (simp add: dispatch_def msg_label_code del: msg_code.simps)
  from handle_pong_known [OF inv(1,2)] obtain s' where s': "handle_pong ?fd ?s = Inr s'"
    "updates_client ?fd (\<lambda>c. c\<lparr>last_activity := ?t\<rparr>) ?s s'" by (auto simp: recv_bytes_net)
  have cl: "clients_of s' = (clients_of s)(?fd \<mapsto> c\<lparr>last_activity := ?t\<rparr>)"
    using s'(2) assms(3) by (simp add: updates_client_def)
  have ck: "clock (srv_net s') = clock (srv_net s)" 
    using handle_pong_clock [OF s'(1)] by (simp add: recv_bytes_net)
  from ping_and_timeout_pass_ok [OF updates_client_inv [OF inv(3) s'(2)]] obtain cs s'' where
    s'': "ping_and_timeout_pass s' = Inr s''" "kicks_silent (s'\<lparr>srv_net := fold ping_net cs (srv_net s')\<rparr>) s''" by blast
  have "clock (fold ping_net cs w) = clock w" for w
    by (induction cs arbitrary: w) (simp_all add: ping_net_simps)
  with ck assms(7) have "\<not> PING_TIMEOUT < clock (srv_net (s'\<lparr>srv_net := fold ping_net cs (srv_net s')\<rparr>)) k - ?t" for k
    by (simp add: not_less diff_le_eq add.commute)
  with kicks_silentD [OF s''(2), of ?fd] have "clients_of s'' ?fd = clients_of s' ?fd" by (auto simp: cl)
  with p s'(1) s''(1) cl show ?thesis by auto
qed

lemma pong_keeps_client_witness:
  "\<exists>s s' s''. parse_packet 0 s = Inr s' \<and> ping_and_timeout_pass s' = Inr s'' \<and>
    clients_of s 8 = Some client8 \<and> PING_TIMEOUT < clock (srv_net s) 0 - last_activity client8 \<and>
    clients_of s'' 8 = Some (client8\<lparr>last_activity := 9000\<rparr>)"
proof -
  obtain s where s: "server_up s" "clients_of s = [8 \<mapsto> client8, 15 \<mapsto> client15]"
    "srv_net s = delivering (set_type zero_message pong) (quiet_net (\<lambda>_. 9000))" "events s ! 0 = 8" "length (events s) = 100"
    by (rule event_from_8 [of "delivering (set_type zero_message pong) (quiet_net (\<lambda>_. 9000))"]) (simp, blast)
  have "0 < length (events s)" "clients_of s (events s ! 0) = Some client8"
    "srv_recv_next s = Some (msg_bytes (set_type zero_message pong))" "wf_message (set_type zero_message pong)"
    "message_type (set_type zero_message pong) = msg_code pong"
    "\<forall>k. clock (srv_net s) k \<le> clock (srv_net s) (readings (srv_net s)) + PING_TIMEOUT"
    by (simp_all add: s(2-5) srv_recv_next_def PING_TIMEOUT_def)
  from pong_keeps_client [OF server_upD(1) [OF s(1)] this]
  obtain s' s'' where s': "parse_packet 0 s = Inr s'" "ping_and_timeout_pass s' = Inr s''"
    "clients_of s' = (clients_of s)(8 \<mapsto> client8\<lparr>last_activity := clock (srv_net s) (readings (srv_net s))\<rparr>)"
    "clients_of s'' 8 = clients_of s' 8"
    unfolding s(4) by (elim exE conjE)
  show ?thesis
    by (rule exI [of _ s], rule exI [of _ s'], rule exI [of _ s'']) (simp add: s' s(2,3) PING_TIMEOUT_def)
qed

end
