(* ===== verification/Server_End.thy ===== *)
theory Server_End
  imports Server_Packets
begin

text \<open>How the server ends: \<open>clean\<close>, the interrupt, a failing read and a failing start.\<close>

section \<open>The end in one piece\<close>

text \<open>
  What \<open>clean\<close> leaves: every client told, every structure freed, the listening socket closed, and the table dangling.
  If the pinging thread is between its check of the flag and the end of its pass (\<open>late_pass\<close>: it sleeps there most
  of the time), it does that pass first, so pings may follow the notices and silent clients are closed by it.  The
  sockets of the clients are all closed, each once, unless the return register holds something else than 0 after one of the
  callbacks (\<open>void_ret\<close>), which ends the closing early.
\<close>

definition cleaned :: "server_t \<Rightarrow> server_t \<Rightarrow> bool" where
  "cleaned s s1 \<longleftrightarrow>
    (\<exists>cs late fds. distinct (map client_socket cs) \<and> set cs = ran (clients_of s) \<and>
      outbox (srv_net s1) = outbox (srv_net s) @ map (\<lambda>c. (client_socket c, set_type zero_message enb_off)) cs @ late \<and>
      (\<not> late_pass s \<longrightarrow> late = []) \<and>
      (\<forall>(fd, m) \<in> set late. fd \<in> dom (clients_of s) \<and> m = set_type zero_message ping) \<and>
      closed (srv_net s1) = closed (srv_net s) @ fds @ [server_socket s] \<and> distinct fds \<and> set fds \<subseteq> dom (clients_of s) \<and>
      ((\<forall>fd. void_ret s fd = 0) \<longrightarrow> set fds = dom (clients_of s)) \<and>
      watched s1 = dom (clients_of s) - set fds) \<and>
    clients s1 = FreedMap \<and> heap s1 = Map.empty \<and> errno_eintr s1 = errno_eintr s"

lemma ping_trace_clients:
  "(fd, m) \<in> set (ping_trace clk r cs) \<Longrightarrow> fd \<in> client_socket ` set cs \<and> m = set_type zero_message ping"
  by (induction cs arbitrary: r) (auto split: if_splits)

text \<open>The pass the pinging thread may still do.\<close>

lemma late_pass_ok:
  assumes "server_inv s" "writes_ok (srv_net s)"
  shows "\<exists>s1 late ks. (if late_pass s then ping_and_timeout_pass s else Inr s) = Inr s1 \<and> server_inv s1 \<and>
    outbox (srv_net s1) = outbox (srv_net s) @ late \<and> (\<not> late_pass s \<longrightarrow> late = []) \<and>
    (\<forall>(fd, m) \<in> set late. fd \<in> dom (clients_of s) \<and> m = set_type zero_message ping) \<and>
    closed (srv_net s1) = closed (srv_net s) @ ks \<and> distinct ks \<and> set ks = dom (clients_of s) - dom (clients_of s1) \<and>
    dom (clients_of s1) \<subseteq> dom (clients_of s) \<and> void_ret s1 = void_ret s \<and> server_socket s1 = server_socket s \<and>
    errno_eintr s1 = errno_eintr s"
proof (cases "late_pass s")
  case False
  with assms(1) show ?thesis by simp
next
  case True
  from ping_and_timeout_pass_ok [OF assms(1)] obtain cs s1 where
    s1: "client_list s cs" "ping_and_timeout_pass s = Inr s1" "server_inv s1"
      "kicks_silent (s\<lparr>srv_net := fold ping_net cs (srv_net s)\<rparr>) s1" "errno_eintr s1 = errno_eintr s" by blast
  let ?late = "ping_trace (clock (srv_net s)) (readings (srv_net s)) cs"
  have o: "outbox (srv_net s1) = outbox (srv_net s) @ ?late"
    using s1(4) fold_ping [OF assms(2)] by (simp add: kicks_silent_def)
  have l: "\<forall>(fd, m) \<in> set ?late. fd \<in> dom (clients_of s) \<and> m = set_type zero_message ping"
    using s1(1) ping_trace_clients by (fastforce simp: client_list_def)
  obtain ks where ks: "closed (srv_net s1) = closed (srv_net s) @ ks" "distinct ks" "set ks = dom (clients_of s) - dom (clients_of s1)"
    using s1(4) by (auto simp: kicks_silent_def)
  have d: "dom (clients_of s1) \<subseteq> dom (clients_of s)"
  proof
    fix fd assume "fd \<in> dom (clients_of s1)"
    with kicks_silentD [OF s1(4), of fd] show "fd \<in> dom (clients_of s)" by auto
  qed
  have "void_ret s1 = void_ret s" "server_socket s1 = server_socket s" using s1(4) by (simp_all add: kicks_silent_def)
  with True s1(2,3,5) o l ks d show ?thesis by (intro exI [of _ s1] exI [of _ ?late] exI [of _ ks]) simp
qed

lemma clean_ok:
  assumes "server_inv s" "writes_ok (srv_net s)"
  shows "\<exists>s1. clean s = Inr s1 \<and> cleaned s s1"
proof -
  have inv: "clients_inv s" using assms(1) by (simp add: server_inv_def)
  from broadcast_shutdown_ok [OF inv] obtain cs where cs: "client_list s cs"
    "broadcast_shutdown_notification s = Inr (s\<lparr>srv_net := fold (send_net enb_off) cs (srv_net s)\<rparr>)" by blast
  let ?s = "s\<lparr>srv_net := fold (send_net enb_off) cs (srv_net s), threads_done := True\<rparr>"
  have keep: "clients_inv ?s" "clients_of ?s = clients_of s" using clients_inv_cong [of ?s s] inv by simp_all
  have si: "server_inv ?s" using assms(1) keep by (simp add: server_inv_def times_ok_def clock_ok_def)
  have w: "writes_ok (srv_net ?s)" using fold_send [OF assms(2), of enb_off cs] by simp
  from late_pass_ok [OF si w] obtain s2 late ks where
    s2: "(if late_pass s then ping_and_timeout_pass ?s else Inr ?s) = Inr s2" "server_inv s2"
      "outbox (srv_net s2) = outbox (srv_net ?s) @ late" "\<not> late_pass s \<longrightarrow> late = []"
      "\<forall>(fd, m) \<in> set late. fd \<in> dom (clients_of s) \<and> m = set_type zero_message ping"
      "closed (srv_net s2) = closed (srv_net s) @ ks" "distinct ks" "set ks = dom (clients_of s) - dom (clients_of s2)"
      "dom (clients_of s2) \<subseteq> dom (clients_of s)" "void_ret s2 = void_ret s" "server_socket s2 = server_socket s"
      "errno_eintr s2 = errno_eintr s" by (auto simp: keep(2))
  from server_t__destroy_ok [OF s2(2)] obtain fds where fds: "distinct fds" "set fds \<subseteq> dom (clients_of s2)"
    "(\<forall>fd. void_ret s fd = 0) \<longrightarrow> set fds = dom (clients_of s2)"
    "server_t__destroy s2 = Inr (s2\<lparr>srv_net := (srv_net s2)\<lparr>closed := closed (srv_net s2) @ fds @ [server_socket s2]\<rparr>,
       watched := dom (clients_of s2) - set fds, clients := FreedMap, heap := Map.empty\<rparr>)" unfolding s2(10) by blast
  let ?s1 = "s2\<lparr>srv_net := (srv_net s2)\<lparr>closed := closed (srv_net s2) @ fds @ [server_socket s2]\<rparr>,
       watched := dom (clients_of s2) - set fds, clients := FreedMap, heap := Map.empty\<rparr>"
  have "clean s = Inr ?s1" using cs(2) s2(1) fds(4) by (simp add: clean_def)
  moreover have "cleaned s ?s1"
    unfolding cleaned_def
  proof (intro conjI exI)
    show "distinct (map client_socket cs)" "set cs = ran (clients_of s)" using cs(1) by (auto simp: client_list_def ran_def)
    show "outbox (srv_net ?s1) = outbox (srv_net s) @ map (\<lambda>c. (client_socket c, set_type zero_message enb_off)) cs @ late"
      using fold_send [OF assms(2), of enb_off cs] s2(3) by simp
    show "closed (srv_net ?s1) = closed (srv_net s) @ (ks @ fds) @ [server_socket s]" using s2(6,11) by simp
    show "distinct (ks @ fds)" "set (ks @ fds) \<subseteq> dom (clients_of s)" using s2(7-9) fds(1,2) by auto
    show "(\<forall>fd. void_ret s fd = 0) \<longrightarrow> set (ks @ fds) = dom (clients_of s)" using s2(8,9) fds(3) by auto
    show "watched ?s1 = dom (clients_of s) - set (ks @ fds)" using s2(8,9) by auto
  qed (use s2(4,5,12) in simp_all)
  ultimately show ?thesis by blast
qed

lemma freed_passes:
  assumes "clients s = FreedMap"
  shows "clean s = Inl Dangling" "measurement_pass s = Inl Dangling" "ping_and_timeout_pass s = Inl Dangling"
  using assms
  by (simp_all add: clean_def broadcast_shutdown_notification_def measurement_pass_def ping_and_timeout_pass_def
      iter_clients_def the_clients_def)

section \<open>Properties\<close>

text \<open>C19. An interrupt ends the server, on a network that takes every message: every client gets one shutdown notice, all
  memory of clients is freed, the listening socket is closed and the process exits with status 1.  If the pinging thread is
  in the middle of its loop, where it sleeps, its last pass comes before the end: pings may follow the notices, and silent
  clients are removed.  The sockets of all clients are closed, each exactly once, provided the closing callback, which returns
  nothing but is called as if it returned an integer, happens to leave 0 in the return register; otherwise the closing may end early.
  The table itself is left dangling: a pass of a thread that is not joined, or a second clean-up, then uses freed memory.\<close>

theorem interrupt_cleans_up:
  assumes "server_inv s" "writes_ok (srv_net s)"
  shows "\<exists>s1. clean s = Inr s1 \<and> cleaned s s1 \<and>
    sigint_while_waiting s = Inr (s1\<lparr>errno_eintr := True, exit_status := Some 1\<rparr>) \<and>
    measurement_pass s1 = Inl Dangling \<and> ping_and_timeout_pass s1 = Inl Dangling \<and> clean s1 = Inl Dangling"
proof -
  from clean_ok [OF assms] obtain s1 where s1: "clean s = Inr s1" "cleaned s s1" by blast
  then have "clients s1 = FreedMap" by (simp add: cleaned_def)
  with s1 freed_passes [of s1] show ?thesis
    by (simp add: sigint_while_waiting_def receive_packets_pass_def server_error_def)
qed

lemma interrupt_cleans_up_witness:
  "\<exists>s s1. clients_of s = [8 \<mapsto> client8, 15 \<mapsto> client15] \<and> late_pass s \<and> clean s = Inr s1 \<and> cleaned s s1 \<and>
    heap s1 = Map.empty \<and> measurement_pass s1 = Inl Dangling"
proof -
  obtain s where s: "server_up s" "clients_of s = [8 \<mapsto> client8, 15 \<mapsto> client15]" "srv_net s = quiet_net (\<lambda>_. 0)"
    using two_client_server_exists [OF quiet_clock [THEN iffD2, OF some_times(1)]] by metis
  let ?s = "s\<lparr>late_pass := True\<rparr>"
  have c: "clients_of ?s = clients_of s" "clients_inv ?s = clients_inv s" using clients_inv_cong [of ?s s] by simp_all
  have "server_inv ?s" using server_upD(1) [OF s(1)] c by (simp add: server_inv_def times_ok_def)
  moreover have "writes_ok (srv_net ?s)" by (simp add: s)
  ultimately obtain s1 where "clean ?s = Inr s1" "cleaned ?s s1" "measurement_pass s1 = Inl Dangling"
    using interrupt_cleans_up [of ?s] by blast
  moreover have "heap s1 = Map.empty" using \<open>cleaned ?s s1\<close> by (simp add: cleaned_def)
  moreover have "clients_of ?s = [8 \<mapsto> client8, 15 \<mapsto> client15]" using c(1) s(2) by simp
  moreover have "late_pass ?s" by simp
  ultimately show ?thesis by blast
qed



text \<open>When a system call fails during the start, the error path crashes instead of reporting it: \<open>error\<close> cleans up,
  and the clean-up iterates over the table, which is still a null pointer.\<close>

theorem failing_start_crashes:
  assumes "clients s = NullMap" "\<not> errno_eintr s" "2 \<le> argc"
    and "sock = -1 \<or> bind_r < 0 \<or> listen_r = -1 \<or> epoll_r = -1 \<or> ctl_r = -1"
  shows "server_main argc sock bind_r listen_r epoll_r ctl_r s = Inl NullDeref"
proof -
  have "server_error s' = Inl NullDeref" if "clients s' = NullMap" "\<not> errno_eintr s'" for s'
    using that by (simp add: server_error_def clean_def broadcast_shutdown_notification_def iter_clients_def the_clients_def)
  with assms show ?thesis
    by (auto simp: server_main_def init_server_def srv_calls_keep) (simp_all add: srv_close_def close_fd_def)
qed

lemma failing_start_crashes_witness:
  "server_main 2 3 (-1) 0 4 0 (server_with NullMap Map.empty {} (quiet_net (\<lambda>_. 0))) = Inl NullDeref"
  by (rule failing_start_crashes) simp_all

end
