(* ===== verification/Server_Transfer.thy ===== *)
theory Server_Transfer
  imports Server_Packets
begin

text \<open>The transfer of a file to every client: the exact sequence of messages.\<close>

section \<open>The messages of a transfer\<close>

text \<open>The file in pieces of 16 bytes, the last one padded with zeros.\<close>

definition pad16 :: "byte list \<Rightarrow> byte list" where
  "pad16 bs = bs @ replicate (16 - length bs) 0"

function chunks :: "byte list \<Rightarrow> byte list list" where
  "chunks bs = (if bs = [] then [] else pad16 (take 16 bs) # chunks (drop 16 bs))"
  by pat_completeness auto
termination
  by (relation "measure length") simp_all

declare chunks.simps [simp del]

lemma chunks_Nil [simp]: "chunks [] = []"
  by (simp add: chunks.simps)

lemma chunks_length: "b \<in> set (chunks bs) \<Longrightarrow> length b = 16"
proof (induction bs rule: chunks.induct)
  case (1 bs)
  then show ?case by (subst (asm) (2) chunks.simps) (auto simp: pad16_def split: if_splits)
qed

text \<open>Together the pieces are the file and up to 15 zeros.\<close>

lemma concat_chunks: "concat (chunks bs) = bs @ replicate ((16 - length bs mod 16) mod 16) 0"
proof (induction bs rule: chunks.induct)
  case (1 bs)
  show ?case
  proof (cases "length bs \<le> 16")
    case True
    then have "drop 16 bs = []" "take 16 bs = bs" by simp_all
    moreover have "(16 - length bs mod 16) mod 16 = 16 - length bs" if "bs \<noteq> []"
      using True that by (cases "length bs = 16") simp_all
    ultimately show ?thesis by (cases "bs = []") (simp_all add: chunks.simps [of bs] pad16_def)
  next
    case False
    then have ne: "bs \<noteq> []" and p: "pad16 (take 16 bs) = take 16 bs" by (auto simp: pad16_def)
    have m: "(length bs - 16) mod 16 = length bs mod 16" using False by (metis le_mod_geq nat_le_linear)
    have "concat (chunks bs) = take 16 bs @ concat (chunks (drop 16 bs))" using ne p by (simp add: chunks.simps [of bs])
    also have "concat (chunks (drop 16 bs)) = drop 16 bs @ replicate ((16 - length bs mod 16) mod 16) 0"
      using 1 [OF ne] m by simp
    finally show ?thesis by simp
  qed
qed

lemma length_chunks: "16 * length (chunks bs) \<le> length bs + 15"
proof (induction bs rule: chunks.induct)
  case (1 bs)
  then show ?case by (subst chunks.simps) (cases "length bs \<le> 16"; auto simp: Suc_le_eq)
qed

definition start_message :: "sample \<Rightarrow> int \<Rightarrow> s_message" where
  "start_message arg fd = set_buffer (take BUFFER_SIZE (name_memory arg)) (set_type (tag_junk arg fd) data_start)"

definition data_messages :: "sample \<Rightarrow> int \<Rightarrow> byte list \<Rightarrow> s_message list" where
  "data_messages arg fd file = map (\<lambda>b. set_buffer b (set_type (data_junk arg fd) data)) (chunks file)"

text \<open>All messages of a transfer to one socket.\<close>

definition file_transfer :: "sample \<Rightarrow> int \<Rightarrow> byte list \<Rightarrow> s_message list" where
  "file_transfer arg fd file =
    start_message arg fd # data_messages arg fd file @ [set_type (start_message arg fd) data_end]"

definition write_all :: "int \<Rightarrow> s_message list \<Rightarrow> net \<Rightarrow> net" where
  "write_all fd ms w = fold (\<lambda>m w. snd (write_msg fd m w)) ms w"

lemma write_all_ok:
  "writes_ok w \<Longrightarrow> writes_ok (write_all fd ms w) \<and> outbox (write_all fd ms w) = outbox w @ map (Pair fd) ms"
  unfolding write_all_def
  by (induction ms arbitrary: w) (simp_all add: write_msg_def writes_ok_def Let_def)

section \<open>The sending loop\<close>

lemma set_buffer_twice:
  "wf_message m \<Longrightarrow> length a = 16 \<Longrightarrow> length b = 16 \<Longrightarrow> set_buffer b (set_buffer a m) = set_buffer b m"
  by (simp add: set_buffer_def upd_value_def store_def value_length)

lemma fread_chunk_pad: "fread_chunk file pos = pad16 (take 16 (drop (nat pos) file))"
  by (simp add: fread_chunk_def pad16_def Let_def)

lemma send_chunks_ok:
  assumes "writes_ok (srv_net s)" "wf_message m" "0 \<le> pos" "int (length f) + 16 \<le> INT_MAX" "0 \<le> k" "k \<le> pos"
  shows "send_chunks m f fd pos k s =
    Inr (True, s\<lparr>srv_net := write_all fd (map (\<lambda>b. set_buffer b m) (chunks (drop (nat pos) f))) (srv_net s)\<rparr>)"
  using assms
proof (induction m f fd pos k s rule: send_chunks.induct)
  case (1 m f fd pos k s)
  let ?b = "fread_chunk f pos"
  show ?case
  proof (cases "pos < int (length f)")
    case False
    then show ?thesis by (simp add: send_chunks.simps write_all_def)
  next
    case True
    have b: "length ?b = 16" by (simp add: fread_chunk_pad pad16_def)
    let ?m = "set_buffer ?b m"
    have ci: "c_int (pos + 16) = Inr (pos + 16)" "c_int (k + 1) = Inr (k + 1)"
      using True "1.prems"(3-6) by (simp_all add: c_int_def)
    have w: "write_msg fd ?m (srv_net s) = (write_res (srv_net s) (writes (srv_net s)), snd (write_msg fd ?m (srv_net s)))"
      by (simp add: write_msg_def Let_def)
    have sent: "srv_send fd ?m s = (write_res (srv_net s) (writes (srv_net s)), s\<lparr>srv_net := snd (write_msg fd ?m (srv_net s))\<rparr>)"
      by (subst srv_send_def, subst w) simp
    have r: "write_res (srv_net s) (writes (srv_net s)) \<noteq> -1" using "1.prems"(1) by (rule writes_okD)
    have wf: "wf_message ?m" using "1.prems"(2) b by simp
    let ?s = "s\<lparr>srv_net := snd (write_msg fd ?m (srv_net s))\<rparr>"
    have ok: "writes_ok (srv_net ?s)" using "1.prems"(1) by (simp add: write_msg_def writes_ok_def Let_def)
    have step: "send_chunks m f fd pos k s = send_chunks ?m f fd (pos + 16) (k + 1) ?s"
      using True r by (subst send_chunks.simps) (simp add: ci sent Let_def)
    have IH: "send_chunks ?m f fd (pos + 16) (k + 1) ?s =
      Inr (True, ?s\<lparr>srv_net := write_all fd (map (\<lambda>b. set_buffer b ?m) (chunks (drop (nat (pos + 16)) f))) (srv_net ?s)\<rparr>)"
      using "1.IH" [OF True refl ci(1) refl sent [symmetric] r ci(2) ok wf] "1.prems" by simp
    have nat: "nat (pos + 16) = nat pos + 16" using "1.prems"(3) by (simp add: nat_add_distrib)
    have c: "chunks (drop (nat pos) f) = ?b # chunks (drop (nat (pos + 16)) f)"
      using True "1.prems"(3) by (subst chunks.simps) (simp add: fread_chunk_pad nat add.commute)
    have me: "map (\<lambda>b. set_buffer b ?m) (chunks (drop (nat (pos + 16)) f)) =
      map (\<lambda>b. set_buffer b m) (chunks (drop (nat (pos + 16)) f))"
      using set_buffer_twice [OF "1.prems"(2) b] chunks_length by auto
    then show ?thesis unfolding step IH c list.map me by (simp add: write_all_def)
  qed
qed

lemma send_chunks_clients: "send_chunks m f fd pos k s = Inr (ok, s') \<Longrightarrow> clients s' = clients s"
proof (induction m f fd pos k s rule: send_chunks.induct)
  case (1 m f fd pos k s)
  let ?m = "set_buffer (fread_chunk f pos) m"
  obtain r s1 where s1: "srv_send fd ?m s = (r, s1)" by fastforce
  then have k1: "clients s1 = clients s" by (auto simp: srv_send_def split_beta Let_def)
  show ?case
  proof (cases "pos < int (length f)")
    case False
    with "1.prems" show ?thesis by (simp add: send_chunks.simps)
  next
    case True
    with "1.prems" s1 obtain p where p: "c_int (pos + 16) = Inr p"
      by (subst (asm) send_chunks.simps) (auto simp: bind_res_Inr_iff)
    show ?thesis
    proof (cases "r = -1")
      case r: True
      with "1.prems" True s1 p k1 show ?thesis by (subst (asm) send_chunks.simps) auto
    next
      case r: False
      with "1.prems" True s1 p obtain q where q: "c_int (k + 1) = Inr q" "send_chunks ?m f fd p q s1 = Inr (ok, s')"
        by (subst (asm) send_chunks.simps) (auto simp: bind_res_Inr_iff)
      from "1.IH" [OF True refl p refl s1 [symmetric] r q(1) q(2)] k1 show ?thesis by simp
    qed
  qed
qed

section \<open>One client and all clients\<close>

text \<open>A sample whose file can be read and sent.\<close>

definition sample_ok :: "sample \<Rightarrow> byte list \<Rightarrow> bool" where
  "sample_ok arg f \<longleftrightarrow> sample_file arg = Some f \<and> BUFFER_SIZE \<le> length (name_memory arg) \<and>
    int (length f) + 16 \<le> INT_MAX \<and> (\<forall>fd. wf_message (tag_junk arg fd) \<and> wf_message (data_junk arg fd))"

lemma srv_send_ok:
  assumes "writes_ok (srv_net s)"
  shows "\<exists>r. r \<noteq> -1 \<and> srv_send fd m s = (r, s\<lparr>srv_net := write_all fd [m] (srv_net s)\<rparr>)"
  using assms by (auto simp: srv_send_def write_all_def write_msg_def writes_ok_def Let_def)

lemma write_all_split: "write_all fd (a # ms @ [b]) w = write_all fd [b] (write_all fd ms (write_all fd [a] w))"
  by (simp add: write_all_def)

lemma broadcast_sample_ok:
  assumes "sample_ok arg f" "writes_ok (srv_net s)" "read_client s v = Inr c"
  shows "broadcast_sample arg s k v =
    Inr (0, s\<lparr>srv_net := write_all (client_socket c) (file_transfer arg (client_socket c) f) (srv_net s)\<rparr>)"
proof -
  let ?fd = "client_socket c" and ?st = "start_message arg (client_socket c)" and ?w = "srv_net s"
  let ?dm = "set_type (data_junk arg ?fd) data"
  from srv_send_ok [OF assms(2), of ?fd ?st] obtain r1 where
    r1: "r1 \<noteq> -1" "srv_send ?fd ?st s = (r1, s\<lparr>srv_net := write_all ?fd [?st] ?w\<rparr>)" by blast
  let ?s1 = "s\<lparr>srv_net := write_all ?fd [?st] ?w\<rparr>"
  have ok1: "writes_ok (srv_net ?s1)" using write_all_ok [OF assms(2)] by simp
  have wf: "wf_message ?dm" and len: "int (length f) + 16 \<le> INT_MAX" using assms(1) by (simp_all add: sample_ok_def)
  let ?s2 = "?s1\<lparr>srv_net := write_all ?fd (data_messages arg ?fd f) (srv_net ?s1)\<rparr>"
  have sc: "send_chunks ?dm f ?fd 0 0 ?s1 = Inr (True, ?s2)"
    using send_chunks_ok [OF ok1 wf _ len, of 0 0 ?fd] by (simp add: data_messages_def)
  have ok2: "writes_ok (srv_net ?s2)" using write_all_ok [OF ok1] by simp
  from srv_send_ok [OF this, of ?fd "set_type ?st data_end"] obtain r2 where
    r2: "r2 \<noteq> -1" "srv_send ?fd (set_type ?st data_end) ?s2 =
      (r2, ?s2\<lparr>srv_net := write_all ?fd [set_type ?st data_end] (srv_net ?s2)\<rparr>)" by blast
  have st: "set_buffer (take 16 (name_memory arg)) (set_type (tag_junk arg (client_socket c)) data_start) = ?st"
    by (simp add: start_message_def)
  have "broadcast_sample arg s k v =
    Inr (0, ?s2\<lparr>srv_net := write_all ?fd [set_type ?st data_end] (srv_net ?s2)\<rparr>)"
    using assms(1,3) r1 r2 sc
    by (simp add: broadcast_sample_def sample_ok_def st Let_def)
  moreover have "write_all ?fd (file_transfer arg ?fd f) ?w =
      write_all ?fd [set_type ?st data_end] (write_all ?fd (data_messages arg ?fd f) (write_all ?fd [?st] ?w))"
    unfolding file_transfer_def by (rule write_all_split)
  ultimately show ?thesis by simp
qed

lemma srv_send_clients: "srv_send fd m s = (r, s') \<Longrightarrow> clients s' = clients s"
  using srv_calls_keep(8) [of fd m s] by simp

lemma broadcast_sample_clients:
  assumes b: "broadcast_sample arg s k v = Inr (b, s')"
  shows "clients s' = clients s"
proof (cases "sample_file arg")
  case None
  with b show ?thesis by (auto simp: broadcast_sample_def)
next
  case (Some f)
  have len: "16 \<le> length (name_memory arg)"
    using b Some by (cases "16 \<le> length (name_memory arg)") (simp_all add: broadcast_sample_def)
  with b Some obtain c where c: "read_client s v = Inr c"
    by (cases "read_client s v") (simp_all add: broadcast_sample_def Let_def)
  let ?st = "start_message arg (client_socket c)"
  have st: "set_buffer (take 16 (name_memory arg)) (set_type (tag_junk arg (client_socket c)) data_start) = ?st"
    by (simp add: start_message_def)
  obtain r1 s1 where s1: "srv_send (client_socket c) ?st s = (r1, s1)" by fastforce
  note k1 = srv_send_clients [OF s1]
  show ?thesis
  proof (cases "r1 = -1")
    case True
    with b Some len c s1 k1 show ?thesis by (auto simp: broadcast_sample_def st Let_def)
  next
    case False
    let ?sc = "send_chunks (set_type (data_junk arg (client_socket c)) data) f (client_socket c) 0 0 s1"
    from b Some len c s1 False obtain ok s2 where s2: "?sc = Inr (ok, s2)"
      by (cases ?sc) (auto simp: broadcast_sample_def st Let_def)
    note k2 = send_chunks_clients [OF s2]
    obtain r3 s3 where s3: "srv_send (client_socket c) (set_type ?st data_end) s2 = (r3, s3)" by fastforce
    note k3 = srv_send_clients [OF s3]
    from b Some len c s1 False s2 s3 k1 k2 k3 show ?thesis
      by (auto simp: broadcast_sample_def st Let_def split: if_splits)
  qed
qed

lemma keeps_map_broadcast: "keeps_map map_of_server (broadcast_sample arg)"
  unfolding keeps_map_def map_of_server_def using broadcast_sample_clients by metis

lemma transfer_data_ok:
  assumes "server_inv s" "writes_ok (srv_net s)" "\<not> threads_done s" "exit_status s = None" "sample_ok arg f"
  shows "\<exists>cs s'. transfer_data arg s = Inr s' \<and> exit_status s' = Some 0 \<and>
    distinct (map client_socket cs) \<and> set cs = ran (clients_of s) \<and>
    outbox (srv_net s') = outbox (srv_net s) @
      concat (map (\<lambda>c. map (Pair (client_socket c)) (file_transfer arg (client_socket c) f)) cs)"
proof -
  let ?g = "\<lambda>c. write_all (client_socket c) (file_transfer arg (client_socket c) f)"
  have inv: "clients_inv s" using assms(1) by (simp add: server_inv_def)
  have "\<exists>cs. client_list s cs \<and>
    iter_clients (broadcast_sample arg) s = Inr (0, s\<lparr>srv_net := fold ?g cs (srv_net s)\<rparr>) \<and>
    writes_ok (fold ?g cs (srv_net s))"
    by (rule iter_clients_net [where Q = writes_ok and P = "\<lambda>_. True", OF inv keeps_map_broadcast assms(2)])
      (simp_all add: broadcast_sample_ok [OF assms(5)] write_all_ok)
  then obtain cs where cs: "client_list s cs"
    "iter_clients (broadcast_sample arg) s = Inr (0, s\<lparr>srv_net := fold ?g cs (srv_net s)\<rparr>)" by blast
  have "outbox (fold ?g cs w) = outbox w @ concat (map (\<lambda>c. map (Pair (client_socket c)) (file_transfer arg (client_socket c) f)) cs)"
    if "writes_ok w" for w
    using that by (induction cs arbitrary: w) (simp_all add: write_all_ok)
  from this [OF assms(2)] cs assms(3,4) show ?thesis
    by (intro exI [of _ cs]) (auto simp: transfer_data_def client_list_def ran_def)
qed

section \<open>Properties\<close>

text \<open>C16. The transfer thread sends every client, one after the other, the start message with the name, the file in
  16-byte pieces (in order, the last one padded with zeros) and the end message, and then exits the whole server
  process with status 0.\<close>

theorem transfer_data_spec:
  assumes "server_inv s" "writes_ok (srv_net s)" "\<not> threads_done s" "exit_status s = None" "sample_ok arg f"
  shows "\<exists>cs s'. transfer_data arg s = Inr s' \<and> exit_status s' = Some 0 \<and>
    distinct (map client_socket cs) \<and> set cs = ran (clients_of s) \<and>
    outbox (srv_net s') = outbox (srv_net s) @
      concat (map (\<lambda>c. map (Pair (client_socket c)) (file_transfer arg (client_socket c) f)) cs)"
  by (rule transfer_data_ok [OF assms])

definition some_sample :: sample where
  "some_sample = \<lparr>name_memory = [120] @ replicate 15 0, sample_file = Some (replicate 20 7),
     tag_junk = (\<lambda>_. zero_message), data_junk = (\<lambda>_. zero_message)\<rparr>"

lemma some_sample_ok: "sample_ok some_sample (replicate 20 7)"
  by (simp add: sample_ok_def some_sample_def)

lemma chunks_20: "chunks (replicate 20 7) = [replicate 16 7, replicate 4 7 @ replicate 12 0]"
  by (simp add: chunks.simps pad16_def)

lemma transfer_data_spec_witness:
  "\<exists>s s' c. clients_of s = [8 \<mapsto> client8, 15 \<mapsto> client15] \<and> transfer_data some_sample s = Inr s' \<and>
    exit_status s' = Some 0 \<and> length (outbox (srv_net s')) = 8 \<and>
    map message_type (map snd (outbox (srv_net s'))) = [13, 14, 14, 15, 13, 14, 14, 15]"
proof -
  obtain s where s: "server_up s" "clients_of s = [8 \<mapsto> client8, 15 \<mapsto> client15]" "srv_net s = quiet_net (\<lambda>_. 0)"
    "threads_done s = False"
    using two_client_server_exists [OF quiet_clock [THEN iffD2, OF some_times(1)]] by metis
  have ft: "length (file_transfer some_sample fd (replicate 20 7)) = 4"
    "map message_type (file_transfer some_sample fd (replicate 20 7)) = [13, 14, 14, 15]" for fd
    by (simp_all add: file_transfer_def data_messages_def chunks_20 start_message_def)
  have "writes_ok (srv_net s)" "\<not> threads_done s" by (simp_all add: s)
  from transfer_data_spec [OF server_upD(1) [OF s(1)] this server_upD(3) [OF s(1)] some_sample_ok]
  obtain cs s' where s': "transfer_data some_sample s = Inr s'" "exit_status s' = Some 0" "distinct (map client_socket cs)"
    "set cs = ran (clients_of s)"
    "outbox (srv_net s') = outbox (srv_net s) @
      concat (map (\<lambda>c. map (Pair (client_socket c)) (file_transfer some_sample (client_socket c) (replicate 20 7))) cs)"
    by (elim exE conjE)
  have "set cs = {client8, client15}" using s'(4) by (simp add: s(2) ran_map_upd insert_commute)
  moreover have "distinct cs" using s'(3) by (simp add: distinct_map)
  ultimately have "length cs = 2" using distinct_card [of cs] clients_differ by simp
  then obtain a b where "cs = [a, b]" by (auto simp: numeral_2_eq_2 length_Suc_conv)
  with s'(1,2,5) s(2) show ?thesis
    by (intro exI [of _ s] exI [of _ s']) (simp add: s(3) ft comp_def)
qed

end
