(* ===== verification/User_Equipment.thy ===== *)
theory User_Equipment
  imports Env
begin

text \<open>
  \<^verbatim>\<open>clientLTE/user_equipment.c\<close>: the battery, which discharges and charges between 0 and 100 and
  announces low and high states to the eNodeB, and the simulated signals of two cells with the
  events A1 to A4 computed from them.
\<close>

section \<open>Battery\<close>

record ue_battery =
  power_percentage :: int
  power_is_low :: bool
  charging :: bool
  sent_notification :: bool
  battery_time :: int

definition initialize_battery_life :: "ue_battery \<Rightarrow> net \<Rightarrow> ue_battery \<times> net" where
  "initialize_battery_life battery w =
    (let battery = battery\<lparr>power_percentage := 100, power_is_low := False, charging := False,
                           sent_notification := False\<rparr>;
         (t, w1) = time_now w
     in (battery\<lparr>battery_time := t\<rparr>, w1))"

definition send_low_battery_notification :: "int \<Rightarrow> s_message \<Rightarrow> net \<Rightarrow> int \<times> s_message \<times> net" where
  "send_low_battery_notification socketfd message w =
    (let message = set_type message ue_battery_low;
         (r, w1) = write_msg socketfd message w
     in (if r = -1 then -1 else 0, message, w1))"

definition send_high_battery_notification :: "int \<Rightarrow> s_message \<Rightarrow> net \<Rightarrow> int \<times> s_message \<times> net" where
  "send_high_battery_notification socketfd message w =
    (let message = set_type message ue_battery_high;
         (r, w1) = write_msg socketfd message w
     in (if r = -1 then -1 else 0, message, w1))"

definition low_battery_threshold :: int where "low_battery_threshold = 20"

definition check_battery_status ::
  "int \<Rightarrow> int \<Rightarrow> s_message \<Rightarrow> ue_battery \<Rightarrow> net \<Rightarrow> s_message \<times> ue_battery \<times> net"
where
  "check_battery_status socketfd step message battery w =
    (if power_percentage battery \<le> low_battery_threshold \<and>
        low_battery_threshold - step < power_percentage battery \<and> \<not> charging battery
     then let battery = battery\<lparr>power_is_low := True\<rparr> in
          if \<not> sent_notification battery
          then let (r, message, w1) = send_low_battery_notification socketfd message w
               in (message, (if r = 0 then battery\<lparr>sent_notification := True\<rparr> else battery), w1)
          else (message, battery, w)
     else if low_battery_threshold \<le> power_percentage battery \<and>
        power_percentage battery < low_battery_threshold + step \<and> charging battery
     then let battery = battery\<lparr>power_is_low := False\<rparr> in
          if \<not> sent_notification battery
          then let (r, message, w1) = send_high_battery_notification socketfd message w
               in (message, (if r = 0 then battery\<lparr>sent_notification := True\<rparr> else battery), w1)
          else (message, battery, w)
     else (message, battery, w))"

text \<open>The reset at both ends of the scale, after the step of \<open>update_battery\<close>.\<close>

definition battery_ends :: "ue_battery \<Rightarrow> ue_battery" where
  "battery_ends battery =
    (if power_percentage battery \<le> 0
     then battery\<lparr>sent_notification := False, power_percentage := 0, charging := True\<rparr>
     else if 100 \<le> power_percentage battery
     then battery\<lparr>sent_notification := False, power_percentage := 100, charging := False\<rparr>
     else battery)"

definition update_battery :: "int \<Rightarrow> s_message \<Rightarrow> ue_battery \<Rightarrow> net \<Rightarrow> int \<times> s_message \<times> ue_battery \<times> net" where
  "update_battery socketfd message battery w =
    (let step = 12;
         battery_decrease_time = 1;
         (message, battery, w) = check_battery_status socketfd step message battery w;
         (now, w) = time_now w;
         (battery, w) =
           (if battery_decrease_time \<le> now - battery_time battery
            then let battery = battery\<lparr>power_percentage :=
                       to_int8 (if \<not> charging battery then power_percentage battery - step
                                else power_percentage battery + step)\<rparr>;
                     (t, w) = time_now w
                 in (battery\<lparr>battery_time := t\<rparr>, w)
            else (battery, w))
     in (1, message, battery_ends battery, w))"

definition decrease_after_ping :: "int \<Rightarrow> s_message \<Rightarrow> ue_battery \<Rightarrow> net \<Rightarrow> s_message \<times> ue_battery \<times> net" where
  "decrease_after_ping socketfd message battery w =
    (let decrase_amount = 2;
         (message, battery, w) = check_battery_status socketfd decrase_amount message battery w;
         battery =
           (if power_percentage battery - decrase_amount < 0 then battery\<lparr>power_percentage := 0\<rparr>
            else if power_percentage battery \<noteq> 0 \<and> 0 \<le> power_percentage battery - decrase_amount
            then battery\<lparr>power_percentage := to_int8 (power_percentage battery - decrase_amount)\<rparr>
            else battery)
     in (message, battery, w))"

section \<open>Signals of the cells\<close>

definition NUMBER_OF_CELLS :: nat where "NUMBER_OF_CELLS = 2"

record s_cell_signal =
  rsrp :: int
  thresholds :: "int list"
  signal_course :: int

record s_cells =
  cells_signals :: "s_cell_signal list"
  cells_time :: int
  current_event :: s_event

definition max_rsrp :: int where "max_rsrp = 97"

text \<open>One pass of the initialising loop, and the loop over the cells.\<close>

definition initialize_cell :: "nat \<Rightarrow> s_cells \<times> net \<Rightarrow> s_cells \<times> net" where
  "initialize_cell i = (\<lambda>(cells, w).
    let (r, w1) = c_rand w;
        sig = (cells_signals cells ! i)\<lparr>rsrp := to_int8 (r smod max_rsrp), thresholds := [19, 77],
                signal_course := 5\<rparr>
    in (cells\<lparr>cells_signals := (cells_signals cells)[i := sig], current_event := def\<rparr>, w1))"

definition initialize_cells :: "s_cells \<Rightarrow> net \<Rightarrow> s_cells \<times> net" where
  "initialize_cells cells w =
    (let (cells, w1) = foldl (\<lambda>s i. initialize_cell i s) (cells, w) [0..<NUMBER_OF_CELLS];
         (t, w2) = time_now w1
     in (cells\<lparr>cells_time := t\<rparr>, w2))"

definition update_rsrp :: "s_cell_signal \<Rightarrow> s_cell_signal" where
  "update_rsrp sig =
    (let sig = sig\<lparr>rsrp := to_int8 (rsrp sig + signal_course sig)\<rparr>;
         sig = (if max_rsrp < rsrp sig then sig\<lparr>rsrp := max_rsrp\<rparr> else sig);
         sig = (if rsrp sig < 0 then sig\<lparr>rsrp := 0\<rparr> else sig)
     in if max_rsrp \<le> rsrp sig \<or> rsrp sig \<le> 0
        then sig\<lparr>signal_course := to_int8 (signal_course sig * -1)\<rparr> else sig)"

definition update_rsrps :: "s_cells \<Rightarrow> net \<Rightarrow> s_cells \<times> net" where
  "update_rsrps cells w =
    (let (now, w1) = time_now w in
     if 1 < now - cells_time cells
     then let cells = cells\<lparr>cells_signals :=
                foldl (\<lambda>sigs i. sigs[i := update_rsrp (sigs ! i)]) (cells_signals cells) [0..<NUMBER_OF_CELLS]\<rparr>;
              (t, w2) = time_now w1
          in (cells\<lparr>cells_time := t\<rparr>, w2)
     else (cells, w1))"

text \<open>The static variables of \<open>check_events\<close>.\<close>

record event_statics =
  event_change :: int
  a3_checked :: bool
  a4_checked :: bool

definition init_statics :: event_statics where
  "init_statics = \<lparr>event_change = 5, a3_checked = False, a4_checked = False\<rparr>"

abbreviation "cell0 cells \<equiv> cells_signals cells ! 0"
abbreviation "cell1 cells \<equiv> cells_signals cells ! 1"

definition check_events :: "s_cells \<Rightarrow> event_statics \<Rightarrow> s_event \<times> event_statics" where
  "check_events cells st =
    (let st = (if rsrp (cell0 cells) < thresholds (cell0 cells) ! 0 \<and> 5 = event_change st
               then st\<lparr>event_change := 1\<rparr> else st);
         st = (if thresholds (cell0 cells) ! 1 < rsrp (cell0 cells) \<and> 5 = event_change st
               then st\<lparr>event_change := 2\<rparr> else st)
     in
     if thresholds (cell0 cells) ! 0 < rsrp (cell0 cells) \<and> 1 = event_change st
     then (a1, st\<lparr>event_change := 5\<rparr>)
     else if rsrp (cell0 cells) < thresholds (cell0 cells) ! 1 \<and> 2 = event_change st
     then (a2, st\<lparr>event_change := 5\<rparr>)
     else
       let st = (if rsrp (cell1 cells) < rsrp (cell0 cells) then st\<lparr>a3_checked := False\<rparr> else st) in
       if rsrp (cell0 cells) < rsrp (cell1 cells) \<and> \<not> a3_checked st
       then (a3, st\<lparr>event_change := 5, a3_checked := True\<rparr>)
       else
         let st = (if rsrp (cell1 cells) < thresholds (cell1 cells) ! 1 then st\<lparr>a4_checked := False\<rparr> else st) in
         if thresholds (cell1 cells) ! 1 < rsrp (cell1 cells) \<and> \<not> a4_checked st
         then (a4, st\<lparr>event_change := 5, a4_checked := True\<rparr>)
         else (def, st))"

definition set_current_signal_event :: "s_cells \<Rightarrow> event_statics \<Rightarrow> net \<Rightarrow> s_cells \<times> event_statics \<times> net" where
  "set_current_signal_event cells st w =
    (let (cells, w1) = update_rsrps cells w;
         (e, st) = check_events cells st
     in (cells\<lparr>current_event := e\<rparr>, st, w1))"

end
