(* ===== verification/Handle_Messages.thy ===== *)
theory Handle_Messages
  imports User_Equipment
begin

text \<open>
  \<^verbatim>\<open>clientLTE/handle_messages.c\<close>, \<^verbatim>\<open>shutdown.c\<close> and \<^verbatim>\<open>init_connection.c\<close>: the answers of the user
  equipment to single messages, the file it downloads into, and the connection.
\<close>

section \<open>Files\<close>

text \<open>
  The value of a \<open>FILE *\<close> variable: not yet assigned, null, open on a name, or closed.  Files are
  opened for appending only (\<open>"ab+"\<close>), so a file is its contents; whether an \<open>fopen\<close> succeeds is up
  to the environment.
\<close>

datatype file_ptr = Indeterminate | NullFile | OpenFile string | ClosedFile

record filesystem =
  contents :: "string \<rightharpoonup> byte list"
  fopen_ok :: "nat \<Rightarrow> bool"
  fopens :: nat

definition fopen_append :: "string \<Rightarrow> filesystem \<Rightarrow> file_ptr \<times> filesystem" where
  "fopen_append name d =
    (if fopen_ok d (fopens d)
     then (OpenFile name,
       d\<lparr>fopens := Suc (fopens d),
         contents := (contents d)(name \<mapsto> (case contents d name of None \<Rightarrow> [] | Some bs \<Rightarrow> bs))\<rparr>)
     else (NullFile, d\<lparr>fopens := Suc (fopens d)\<rparr>))"

fun fwrite_all :: "file_ptr \<Rightarrow> byte list \<Rightarrow> filesystem \<Rightarrow> filesystem res" where
  "fwrite_all Indeterminate bs d = Inl Dangling"
| "fwrite_all NullFile bs d = Inl NullDeref"
| "fwrite_all ClosedFile bs d = Inl Dangling"
| "fwrite_all (OpenFile name) bs d =
    Inr (d\<lparr>contents := (contents d)(name \<mapsto> (case contents d name of None \<Rightarrow> bs | Some bs0 \<Rightarrow> bs0 @ bs))\<rparr>)"

fun fclose_file :: "file_ptr \<Rightarrow> file_ptr res" where
  "fclose_file Indeterminate = Inl Dangling"
| "fclose_file NullFile = Inl NullDeref"
| "fclose_file ClosedFile = Inl Dangling"
| "fclose_file (OpenFile name) = Inr ClosedFile"

text \<open>The C string at the start of an object of these bytes.\<close>

definition c_string_at :: "byte list \<Rightarrow> string res" where
  "c_string_at bs =
    (if 0 \<in> set bs then Inr (map (\<lambda>b. char_of (uint b)) (takeWhile (\<lambda>b. b \<noteq> 0) bs)) else Inl OutOfBounds)"

section \<open>Messages\<close>

definition receive_ping :: "int \<Rightarrow> s_message \<Rightarrow> int" where
  "receive_ping socketfd message = (if msg_code ping = message_type message then 0 else 1)"

definition send_pong :: "int \<Rightarrow> s_message \<Rightarrow> net \<Rightarrow> int \<times> s_message \<times> net" where
  "send_pong socketfd message w =
    (let message = set_type message pong;
         (r, w1) = write_msg socketfd message w
     in (if r = -1 then -1 else 0, message, w1))"

definition send_ue_off_signal :: "int \<Rightarrow> s_message \<Rightarrow> net \<Rightarrow> int \<times> s_message \<times> net" where
  "send_ue_off_signal socketfd message w =
    (let message = set_type message ue_off;
         (r, w1) = write_msg socketfd message w
     in (if r = -1 then -1 else 0, message, w1))"

definition receive_measurement_control_request :: "int \<Rightarrow> s_message \<Rightarrow> bool" where
  "receive_measurement_control_request socketfd message = True"

definition send_measurement_report :: "int \<Rightarrow> s_message \<Rightarrow> s_cells \<Rightarrow> net \<Rightarrow> s_message \<times> net" where
  "send_measurement_report socketfd message cells w =
    (let message = set_type message measurement_report;
         message = set_events (current_event cells) message;
         (r, w1) = write_msg socketfd message w
     in (message, w1))"

text \<open>\<open>download_data\<close> also counts in the global \<open>bytes_received\<close>, an \<open>int\<close>.\<close>

definition download_data :: "int \<Rightarrow> s_message \<Rightarrow> file_ptr \<Rightarrow> filesystem \<times> int \<Rightarrow> (filesystem \<times> int) res" where
  "download_data socketfd message fp = (\<lambda>(d, bytes_received).
    bind_res (fwrite_all fp (get_buffer message) d) (\<lambda>d.
    bind_res (c_int (bytes_received + int BUFFER_SIZE)) (\<lambda>n. Inr (d, n))))"

section \<open>Shutdown and connection\<close>

definition check_for_shutdown :: "int \<Rightarrow> s_message \<Rightarrow> net \<Rightarrow> bool \<times> net" where
  "check_for_shutdown socketfd message w =
    (if message_type message = msg_code enb_off
     then let (r, w1) = close_fd socketfd w in (True, w1)
     else (False, w))"

text \<open>\<open>sock\<close> and \<open>conn\<close> are the results of \<open>socket\<close> and \<open>connect\<close>.\<close>

definition init_connection :: "int \<Rightarrow> int \<Rightarrow> net \<Rightarrow> int \<times> int \<times> net" where
  "init_connection sock conn w =
    (if sock = -1 then (0, sock, w)
     else if conn < 0 then (0, sock, snd (close_fd sock w))
     else (1, sock, w))"

end
