(* ===== verification/Rrc.thy ===== *)
theory Rrc
  imports Env
begin

text \<open>
  \<^verbatim>\<open>clientLTE/rrc.c\<close>: the connection request of the user equipment, and the completion it sends when
  the setup of the eNodeB arrives.
\<close>

text \<open>
  \<open>rand() % (int)pow(2, 8)\<close> and \<open>rand() % (int)pow(2, 32)\<close>.  The second conversion is out of the range
  of \<open>int\<close>, which C leaves undefined: what it yields is the parameter \<open>pow32\<close>.
\<close>

definition generate_ue_identity :: "int \<Rightarrow> s_stmsi \<Rightarrow> net \<Rightarrow> (s_stmsi \<times> net) res" where
  "generate_ue_identity pow32 u w =
    (let (r1, w1) = c_rand w;
         u = u\<lparr>mme_code := to_uint8 (r1 smod 256)\<rparr>;
         (r2, w2) = c_rand w1
     in if pow32 = 0 then Inl DivByZero
        else Inr (u\<lparr>mtmsi := to_uint32 (r2 smod pow32)\<rparr>, w2))"

definition send_rrc_connection_request ::
  "int \<Rightarrow> s_message \<Rightarrow> (s_stmsi \<Rightarrow> net \<Rightarrow> (s_stmsi \<times> net) res) \<Rightarrow> net \<Rightarrow> (int \<times> s_message \<times> net) res"
where
  "send_rrc_connection_request socketfd message gen w =
    (let message = set_type message rrc_request in
     bind_res (gen (get_ue_identity message) w) (\<lambda>(u, w1).
       let message = set_ue_identity u message;
           message = set_establishment_cause MO_SIGNALING message;
           (r, w2) = write_msg socketfd message w1
       in Inr (if r = -1 then -1 else 0, message, w2)))"

definition send_rrc_setup_complete :: "int \<Rightarrow> s_message \<Rightarrow> net \<Rightarrow> int \<times> s_message \<times> net" where
  "send_rrc_setup_complete socketfd message w =
    (if message_type message = msg_code rrc_setup
     then let message = set_type message rrc_complete;
              message = set_mcc 234 message;
              message = set_mnc 15 message;
              (r, w1) = write_msg socketfd message w
          in (if r = -1 then -1 else 0, message, w1)
     else (-1, message, w))"

definition receive_rrc_setup ::
  "int \<Rightarrow> s_message \<Rightarrow> s_message \<Rightarrow> net \<Rightarrow> int \<times> s_message \<times> s_message \<times> net"
where
  "receive_rrc_setup socketfd received message w =
    (case recv_bytes w of
       (None, w1) \<Rightarrow> (-1, received, message, w1)
     | (Some bs, w1) \<Rightarrow>
         let received = recv_into received bs;
             (r, received, w2) = send_rrc_setup_complete socketfd received w1
         in (if r = -1 then -1 else 0, received, message, w2))"

lemma wf_send_rrc_setup_complete:
  "wf_message m \<Longrightarrow> send_rrc_setup_complete fd m w = (r, m', w') \<Longrightarrow> wf_message m'"
  by (auto simp: send_rrc_setup_complete_def Let_def split: prod.splits if_splits)

text \<open>What arrives is completed only if it is a setup; anything else is an error.\<close>

lemma send_rrc_setup_complete_other:
  "message_type m \<noteq> msg_code rrc_setup \<Longrightarrow> send_rrc_setup_complete fd m w = (-1, m, w)"
  by (simp add: send_rrc_setup_complete_def)

text \<open>After \<open>receive_rrc_setup\<close> the buffer \<open>received\<close> never holds the type \<open>enb_off\<close>, unless that is
  what has just arrived or was there before.\<close>

lemma receive_rrc_setup_type:
  assumes "receive_rrc_setup fd rcv m w = (r, rcv', m', w')" "r = 0"
  shows "message_type rcv' = msg_code rrc_complete"
  using assms
  by (auto simp: receive_rrc_setup_def send_rrc_setup_complete_def Let_def split: prod.splits option.splits if_splits)

end
