(* ===== verification/Ue_Main.thy ===== *)
theory Ue_Main
  imports Handle_Messages Random_Access Rrc
begin

text \<open>
  \<^verbatim>\<open>clientLTE/main.c\<close>: the globals and locals of the user equipment, its start-up, one pass of the main
  loop and of the battery thread, and its end.  The two threads share the message buffer and the
  battery; a pass of either is one step here.  Creating threads and mutexes succeeds.
\<close>

section \<open>State\<close>

record ue =
  ue_running :: bool
  ue_socket :: int
  ue_message :: s_message
  ue_received :: s_message
  ue_bat :: ue_battery
  ue_cells :: s_cells
  ue_statics :: event_statics
  ue_file :: file_ptr
  ue_packets :: int
  ue_bytes :: int
  ue_disk :: filesystem
  ue_net :: net

section \<open>The main loop\<close>

text \<open>The handlers of the \<open>switch\<close>, one for each label.\<close>

definition ue_on_ping :: "ue \<Rightarrow> ue" where
  "ue_on_ping s =
    (if receive_ping (ue_socket s) (ue_message s) = 0
     then let (r, m, w) = send_pong (ue_socket s) (ue_message s) (ue_net s) in
          if r = -1 then s\<lparr>ue_message := m, ue_net := w\<rparr>
          else let (m, b, w) = decrease_after_ping (ue_socket s) m (ue_bat s) w
               in s\<lparr>ue_message := m, ue_bat := b, ue_net := w\<rparr>
     else s)"

definition ue_on_data_start :: "ue \<Rightarrow> ue res" where
  "ue_on_data_start s =
    bind_res (c_string_at (message_value (ue_message s))) (\<lambda>name.
      let (fp, d) = fopen_append name (ue_disk s) in Inr (s\<lparr>ue_file := fp, ue_disk := d\<rparr>))"

definition ue_on_data :: "ue \<Rightarrow> ue res" where
  "ue_on_data s =
    bind_res (download_data (ue_socket s) (ue_message s) (ue_file s) (ue_disk s, ue_bytes s)) (\<lambda>(d, n).
    bind_res (c_int (ue_packets s + 1)) (\<lambda>k. Inr (s\<lparr>ue_disk := d, ue_bytes := n, ue_packets := k\<rparr>)))"

definition ue_on_data_end :: "ue \<Rightarrow> ue res" where
  "ue_on_data_end s =
    bind_res (fclose_file (ue_file s)) (\<lambda>fp. Inr (s\<lparr>ue_packets := 0, ue_file := fp\<rparr>))"

definition ue_on_measurement :: "ue \<Rightarrow> ue" where
  "ue_on_measurement s =
    (if receive_measurement_control_request (ue_socket s) (ue_received s)
     then let (m, w) = send_measurement_report (ue_socket s) (ue_message s) (ue_cells s) (ue_net s)
          in s\<lparr>ue_message := m, ue_net := w\<rparr>
     else s)"

definition ue_switch :: "ue \<Rightarrow> ue res" where
  "ue_switch s =
    (case msg_label (message_type (ue_message s)) of
       Some ping \<Rightarrow> Inr (ue_on_ping s)
     | Some data_start \<Rightarrow> ue_on_data_start s
     | Some data \<Rightarrow> ue_on_data s
     | Some data_end \<Rightarrow> ue_on_data_end s
     | Some measurement_control_request \<Rightarrow> Inr (ue_on_measurement s)
     | _ \<Rightarrow> Inr s)"

text \<open>\<open>recv\<close> with \<open>MSG_DONTWAIT\<close>, whose result is ignored.\<close>

definition ue_recv :: "ue \<Rightarrow> ue" where
  "ue_recv s =
    (let (r, w) = recv_bytes (ue_net s)
     in s\<lparr>ue_message := (case r of None \<Rightarrow> ue_message s | Some bs \<Rightarrow> recv_into (ue_message s) bs), ue_net := w\<rparr>)"

definition ue_after_switch :: "ue \<Rightarrow> ue" where
  "ue_after_switch s =
    (let (c, st, w) = set_current_signal_event (ue_cells s) (ue_statics s) (ue_net s)
     in s\<lparr>ue_cells := c, ue_statics := st, ue_net := w, ue_message := (ue_message s)\<lparr>message_type := to_uint32 (-1)\<rparr>\<rparr>)"

definition ue_body :: "ue \<Rightarrow> ue res" where
  "ue_body s = bind_res (ue_switch (ue_recv s)) (\<lambda>s. Inr (ue_after_switch s))"

text \<open>The loop condition, evaluated by both threads: whether to go on, and the state after it.\<close>

definition ue_guard :: "ue \<Rightarrow> bool \<times> ue" where
  "ue_guard s =
    (if ue_running s
     then let (off, w) = check_for_shutdown (ue_socket s) (ue_received s) (ue_net s)
          in (\<not> off, s\<lparr>ue_net := w\<rparr>)
     else (False, s))"

text \<open>One pass of the main loop: \<open>None\<close> when the loop has been left.\<close>

definition ue_main_pass :: "ue \<Rightarrow> (bool \<times> ue) res" where
  "ue_main_pass s =
    (let (go, s) = ue_guard s in
     if go then bind_res (ue_body s) (\<lambda>s. Inr (True, s)) else Inr (False, s))"

definition battery_thread_pass :: "ue \<Rightarrow> bool \<times> ue" where
  "battery_thread_pass s =
    (let (go, s) = ue_guard s in
     if go
     then let (r, m, b, w) = update_battery (ue_socket s) (ue_message s) (ue_bat s) (ue_net s)
          in (True, s\<lparr>ue_message := m, ue_bat := b, ue_net := w\<rparr>)
     else (False, s))"

definition signal_handler :: "int \<Rightarrow> ue \<Rightarrow> ue" where
  "signal_handler signum s = s\<lparr>ue_running := False\<rparr>"

text \<open>After the loop.\<close>

definition ue_finish :: "ue \<Rightarrow> ue" where
  "ue_finish s =
    (if message_type (ue_message s) \<noteq> msg_code enb_off
     then let (r, m, w) = send_ue_off_signal (ue_socket s) (ue_message s) (ue_net s)
          in s\<lparr>ue_message := m, ue_net := w\<rparr>
     else s)"

section \<open>Start-up\<close>

text \<open>
  \<open>None\<close>: \<open>main\<close> has returned 0 before the loop.  \<open>sock\<close>, \<open>conn\<close> and \<open>pow32\<close> as in
  \<^const>\<open>init_connection\<close> and \<^const>\<open>generate_ue_identity\<close>; the initial state holds the zeroed globals and
  whatever is in the uninitialised locals.
\<close>

definition ue_initialize :: "ue \<Rightarrow> ue" where
  "ue_initialize s =
    (let (b, w) = initialize_battery_life (ue_bat s) (ue_net s);
         (c, w) = initialize_cells (ue_cells s) w
     in s\<lparr>ue_bat := b, ue_cells := c, ue_net := w\<rparr>)"

definition ue_rrc :: "int \<Rightarrow> ue \<Rightarrow> ue option res" where
  "ue_rrc pow32 s =
    bind_res (send_rrc_connection_request (ue_socket s) (ue_message s) (generate_ue_identity pow32) (ue_net s))
      (\<lambda>(r, m, w).
        let s = s\<lparr>ue_message := m, ue_net := w\<rparr> in
        if r = -1 then Inr None
        else let (r, rcv, m, w) = receive_rrc_setup (ue_socket s) (ue_received s) (ue_message s) (ue_net s)
             in Inr (Some (s\<lparr>ue_received := rcv, ue_message := m, ue_net := w\<rparr>)))"

definition ue_rach :: "int \<Rightarrow> ue \<Rightarrow> ue option res" where
  "ue_rach pow32 s =
    (let (r, m, w) = send_prach_preamble (ue_socket s) (ue_message s) generate_ra_rnti (ue_net s);
         s = s\<lparr>ue_message := m, ue_net := w\<rparr>
     in if r = -1 then Inr None
        else let (r, rcv, m, w) = receive_prach_response (ue_socket s) (ue_received s) (ue_message s) (ue_net s);
                 s = s\<lparr>ue_received := rcv, ue_message := m, ue_net := w\<rparr>
             in if r = -1 then Inr None else if r = 1 then Inr None else ue_rrc pow32 s)"

definition ue_start :: "int \<Rightarrow> int \<Rightarrow> int \<Rightarrow> ue \<Rightarrow> ue option res" where
  "ue_start sock conn pow32 s =
    (let s = ue_initialize s;
         (ok, fd, w) = init_connection sock conn (ue_net s);
         s = s\<lparr>ue_socket := fd, ue_net := w\<rparr>
     in if ok = 0 then Inr None else ue_rach pow32 s)"

end
