(* ===== verification/Battery_Props.thy ===== *)
theory Battery_Props
  imports User_Equipment
begin

text \<open>The battery of the user equipment: its range, and an abstract battery that says what it announces.\<close>

section \<open>The battery stays in range\<close>

definition battery_inv :: "ue_battery \<Rightarrow> bool" where
  "battery_inv b \<longleftrightarrow> 0 \<le> power_percentage b \<and> power_percentage b \<le> 100"

lemma check_battery_status_keeps:
  assumes "check_battery_status fd step m b w = (m', b', w')"
  shows "power_percentage b' = power_percentage b" "charging b' = charging b"
    "battery_time b' = battery_time b" "message_value m' = message_value m"
    "wf_message m \<Longrightarrow> wf_message m'"
  using assms
  by (auto simp: check_battery_status_def send_low_battery_notification_def
      send_high_battery_notification_def Let_def split: if_splits prod.splits)

lemma battery_ends_inv: "battery_inv (battery_ends b)"
  by (simp add: battery_inv_def battery_ends_def)

lemma battery_inv_initialize: "battery_inv (fst (initialize_battery_life b w))"
  by (simp add: initialize_battery_life_def battery_inv_def env_defs)

lemma battery_inv_update:
  "update_battery fd m b w = (r, m', b', w') \<Longrightarrow> battery_inv b'"
  by (auto simp: update_battery_def Let_def battery_ends_inv split: prod.splits)

lemma battery_inv_ping:
  assumes "battery_inv b" "decrease_after_ping fd m b w = (m', b', w')"
  shows "battery_inv b'"
proof -
  obtain m1 b1 w1 where c: "check_battery_status fd 2 m b w = (m1, b1, w1)" by (metis prod_cases3)
  with assms check_battery_status_keeps(1) [OF c] show ?thesis
    by (auto simp: decrease_after_ping_def battery_inv_def c_conv)
qed

section \<open>What the battery announces\<close>

text \<open>
  The battery as an abstract machine: percentage, direction, whether this direction has been
  announced.  \<open>bat_step\<close> is a call of \<open>update_battery\<close>, with or without a second having passed;
  \<open>bat_ping\<close> is \<open>decrease_after_ping\<close>.  Both return the types announced.
\<close>

type_synonym bat = "int \<times> bool \<times> bool"

definition bat_abs :: "ue_battery \<Rightarrow> bat" where
  "bat_abs b = (power_percentage b, charging b, sent_notification b)"

fun bat_note :: "int \<Rightarrow> bat \<Rightarrow> e_message_type list" where
  "bat_note step (p, ch, sent) =
    (if sent then []
     else if \<not> ch \<and> p \<le> 20 \<and> 20 - step < p then [ue_battery_low]
     else if ch \<and> 20 \<le> p \<and> p < 20 + step then [ue_battery_high]
     else [])"

fun bat_ends :: "bat \<Rightarrow> bat" where
  "bat_ends (p, ch, sent) =
    (if p \<le> 0 then (0, True, False) else if 100 \<le> p then (100, False, False) else (p, ch, sent))"

fun bat_step :: "bool \<Rightarrow> bat \<Rightarrow> e_message_type list \<times> bat" where
  "bat_step tick (p, ch, sent) =
    (bat_note 12 (p, ch, sent),
     bat_ends (if tick then (if ch then p + 12 else p - 12) else p, ch,
               sent \<or> bat_note 12 (p, ch, sent) \<noteq> []))"

fun bat_ping :: "bat \<Rightarrow> e_message_type list \<times> bat" where
  "bat_ping (p, ch, sent) =
    (bat_note 2 (p, ch, sent), (max 0 (p - 2), ch, sent \<or> bat_note 2 (p, ch, sent) \<noteq> []))"

definition types_sent :: "net \<Rightarrow> int list" where
  "types_sent w = map (\<lambda>(fd, m). message_type m) (outbox w)"

lemma types_sent_simps [simp]:
  "types_sent (w\<lparr>readings := n\<rparr>) = types_sent w"
  "types_sent (w\<lparr>outbox := outbox w @ [(fd, m)], writes := k\<rparr>) = types_sent w @ [message_type m]"
  "types_sent (w\<lparr>writes := k, outbox := outbox w @ [(fd, m)]\<rparr>) = types_sent w @ [message_type m]"
  by (simp_all add: types_sent_def)

lemma writes_ok_upd [simp]:
  "writes_ok (w\<lparr>readings := n\<rparr>) = writes_ok w" "writes_ok (w\<lparr>writes := k, outbox := obx\<rparr>) = writes_ok w"
  by (simp_all add: writes_ok_def)

lemma check_battery_status_abs:
  assumes "writes_ok w" "check_battery_status fd step m b w = (m', b', w')"
  shows "types_sent w' = types_sent w @ map msg_code (bat_note step (bat_abs b))"
    and "sent_notification b' = (sent_notification b \<or> bat_note step (bat_abs b) \<noteq> [])"
    and "writes_ok w'" "clock w' = clock w" "readings w' = readings w"
  using assms
  by (auto simp: check_battery_status_def bat_abs_def low_battery_threshold_def
      send_low_battery_notification_def send_high_battery_notification_def write_msg_ok Let_def writes_okD
      split: if_splits)

lemma update_battery_abs:
  assumes ok: "writes_ok w" and inv: "battery_inv b" and u: "update_battery fd m b w = (r, m', b', w')"
  shows "let (ns, s) = bat_step (1 \<le> clock w (readings w) - battery_time b) (bat_abs b) in
    r = 1 \<and> bat_abs b' = s \<and> types_sent w' = types_sent w @ map msg_code ns \<and> writes_ok w'"
proof -
  obtain m1 b1 w1 where c: "check_battery_status fd 12 m b w = (m1, b1, w1)" by (metis prod_cases3)
  note k = check_battery_status_keeps [OF c] and a = check_battery_status_abs [OF ok c]
  let ?p = "power_percentage b"
  have "to_int8 (?p - 12) = ?p - 12" "to_int8 (?p + 12) = ?p + 12"
    using inv by (auto simp: battery_inv_def intro!: to_int8_id)
  with u k a show ?thesis
    by (auto simp: update_battery_def c time_now_def Let_def bat_abs_def battery_ends_def split: if_splits)
qed

lemma decrease_after_ping_abs:
  assumes ok: "writes_ok w" and inv: "battery_inv b" and u: "decrease_after_ping fd m b w = (m', b', w')"
  shows "let (ns, s) = bat_ping (bat_abs b) in
    bat_abs b' = s \<and> types_sent w' = types_sent w @ map msg_code ns \<and> writes_ok w'"
proof -
  obtain m1 b1 w1 where c: "check_battery_status fd 2 m b w = (m1, b1, w1)" by (metis prod_cases3)
  note k = check_battery_status_keeps [OF c] and a = check_battery_status_abs [OF ok c]
  let ?p = "power_percentage b"
  have "0 \<le> ?p" "2 \<le> ?p \<Longrightarrow> to_int8 (?p - 2) = ?p - 2"
    using inv by (auto simp: battery_inv_def intro!: to_int8_id)
  with u k a show ?thesis
    by (auto simp: decrease_after_ping_def c Let_def bat_abs_def max_def split: if_splits)
qed

text \<open>Runs of the battery: calls of \<open>update_battery\<close> and pings.\<close>

datatype bat_op = Update | Pinged

fun run_battery :: "int \<Rightarrow> bat_op list \<Rightarrow> s_message \<times> ue_battery \<times> net \<Rightarrow> s_message \<times> ue_battery \<times> net" where
  "run_battery fd [] s = s"
| "run_battery fd (Update # ops) (m, b, w) =
    (let (r, m, b, w) = update_battery fd m b w in run_battery fd ops (m, b, w))"
| "run_battery fd (Pinged # ops) (m, b, w) =
    (let (m, b, w) = decrease_after_ping fd m b w in run_battery fd ops (m, b, w))"

text \<open>Without pings the battery goes through these states, having announced \<open>n\<close> changes.\<close>

definition bat_cycle :: "nat \<Rightarrow> bat \<Rightarrow> bool" where
  "bat_cycle n = (\<lambda>(p, ch, sent).
    \<not> ch \<and> \<not> sent \<and> even n \<and> p \<in> {100, 88, 76, 64, 52, 40, 28, 16} \<or>
    \<not> ch \<and> sent \<and> odd n \<and> p \<in> {16, 4} \<or>
    ch \<and> \<not> sent \<and> odd n \<and> p \<in> {0, 12, 24} \<or>
    ch \<and> sent \<and> even n \<and> p \<in> {24, 36, 48, 60, 72, 84, 96})"

definition alternating :: "nat \<Rightarrow> int list" where
  "alternating n = map (\<lambda>i. msg_code (if even i then ue_battery_low else ue_battery_high)) [0..<n]"

lemma alternating_Suc:
  "alternating (Suc n) = alternating n @ [msg_code (if even n then ue_battery_low else ue_battery_high)]"
  by (simp add: alternating_def)

lemma bat_cycle_step:
  assumes "bat_cycle n s" "bat_step tick s = (ns, s')"
  shows "bat_cycle (n + length ns) s' \<and> alternating (n + length ns) = alternating n @ map msg_code ns"
proof -
  obtain p ch sent where s: "s = (p, ch, sent)" by (cases s)
  have eq: "ns = fst (bat_step tick s)" "s' = snd (bat_step tick s)" using assms(2) by simp_all
  show ?thesis
    using assms(1) unfolding eq s
    by (cases tick; unfold bat_cycle_def prod.case; elim disjE conjE insertE emptyE;
        simp add: alternating_Suc)
qed

lemma run_updates_cycle:
  assumes "writes_ok w" "battery_inv b" "bat_cycle n (bat_abs b)" "types_sent w = ts @ alternating n"
    "run_battery fd (replicate k Update) (m, b, w) = (m', b', w')"
  shows "\<exists>n'. bat_cycle n' (bat_abs b') \<and> types_sent w' = ts @ alternating n'"
  using assms
proof (induction k arbitrary: m b w n)
  case 0
  then show ?case by auto
next
  case (Suc k)
  obtain r m1 b1 w1 where u: "update_battery fd m b w = (r, m1, b1, w1)" by (metis prod_cases4)
  obtain ns s where st: "bat_step (1 \<le> clock w (readings w) - battery_time b) (bat_abs b) = (ns, s)"
    by (metis surj_pair)
  from update_battery_abs [OF Suc.prems(1,2) u] st
  have a: "bat_abs b1 = s" "types_sent w1 = types_sent w @ map msg_code ns" "writes_ok w1" by auto
  from bat_cycle_step [OF Suc.prems(3) st] a(1)
  have cy: "bat_cycle (n + length ns) (bat_abs b1)"
    "alternating (n + length ns) = alternating n @ map msg_code ns" by auto
  from Suc.prems(4) a(2) cy(2) have "types_sent w1 = ts @ alternating (n + length ns)" by simp
  from Suc.IH [OF a(3) battery_inv_update [OF u] cy(1) this] Suc.prems(5) u show ?case by simp
qed

section \<open>Properties\<close>

text \<open>The battery percentage stays between 0 and 100, through every sequence of battery updates
  and pings from the initial state, whatever the clock says and whether or not the messages can be
  sent; so the eight-bit field never wraps.\<close>

theorem battery_stays_in_range:
  assumes "initialize_battery_life b0 w0 = (b, w)" "run_battery fd ops (m, b, w) = (m', b', w')"
  shows "0 \<le> power_percentage b' \<and> power_percentage b' \<le> 100"
proof -
  have "battery_inv (fst (snd (run_battery fd ops (m, b, w))))" if "battery_inv b" for ops m b w
    using that
  proof (induction ops arbitrary: m b w)
    case Nil
    then show ?case by simp
  next
    case (Cons op ops)
    show ?case
    proof (cases op)
      case Update
      obtain r m1 b1 w1 where u: "update_battery fd m b w = (r, m1, b1, w1)" by (metis prod_cases4)
      from Cons.IH [OF battery_inv_update [OF u]] Update u show ?thesis by simp
    next
      case Pinged
      obtain m1 b1 w1 where u: "decrease_after_ping fd m b w = (m1, b1, w1)" by (metis prod_cases3)
      from Cons.IH [OF battery_inv_ping [OF Cons.prems u]] Pinged u show ?thesis by simp
    qed
  qed
  moreover have "battery_inv b" using battery_inv_initialize [of b0 w0] assms(1) by simp
  ultimately have "battery_inv (fst (snd (run_battery fd ops (m, b, w))))" by blast
  then show ?thesis using assms(2) by (simp add: battery_inv_def)
qed

lemma types_sent_quiet [simp]: "types_sent (quiet_net c) = []"
  by (simp add: quiet_net_def types_sent_def)

definition some_battery :: ue_battery where
  "some_battery = \<lparr>power_percentage = 3, power_is_low = True, charging = True, sent_notification = True,
    battery_time = 0\<rparr>"

lemma battery_stays_in_range_witness:
  "\<exists>b w m' b' w'. initialize_battery_life some_battery (quiet_net int) = (b, w) \<and>
    run_battery 4 [Update, Pinged, Update] (zero_message, b, w) = (m', b', w') \<and>
    0 \<le> power_percentage b' \<and> power_percentage b' \<le> 100"
proof -
  obtain b w where i: "initialize_battery_life some_battery (quiet_net int) = (b, w)" by (metis surj_pair)
  obtain m' b' w' where "run_battery 4 [Update, Pinged, Update] (zero_message, b, w) = (m', b', w')"
    by (metis prod_cases3)
  from battery_stays_in_range [OF i this] this i show ?thesis by metis
qed

text \<open>The return value says nothing about the battery.\<close>

lemma update_battery_returns_one: "update_battery fd m b w = (r, m', b', w') \<Longrightarrow> r = 1"
  by (auto simp: update_battery_def Let_def split: prod.splits)

text \<open>C25. \<open>update_battery\<close> implements the abstract battery \<open>bat_step\<close>: the percentage moves by 12 when
  a second has passed, turns round at the ends, and the low or high state is announced at most once
  in each direction, with the message of exactly that type.\<close>

theorem update_battery_refines:
  assumes "writes_ok w" "0 \<le> power_percentage b" "power_percentage b \<le> 100"
    and "bat_step (1 \<le> clock w (readings w) - battery_time b) (bat_abs b) = (ns, s)"
  shows "\<exists>r m' b' w'. update_battery fd m b w = (r, m', b', w') \<and> bat_abs b' = s \<and>
    types_sent w' = types_sent w @ map msg_code ns"
proof -
  obtain r m' b' w' where u: "update_battery fd m b w = (r, m', b', w')" by (metis prod_cases4)
  have "battery_inv b" using assms(2,3) by (simp add: battery_inv_def)
  from update_battery_abs [OF assms(1) this u] assms(4) u show ?thesis by auto
qed

lemma update_battery_refines_witness:
  "\<exists>r m' b' w'. update_battery 4 zero_message (some_battery\<lparr>power_percentage := 16, charging := False,
      sent_notification := False\<rparr>) (quiet_net (\<lambda>_. 1)) = (r, m', b', w') \<and>
    bat_abs b' = (4, False, True) \<and> types_sent w' = [5]"
  using update_battery_refines [of "quiet_net (\<lambda>_. 1)" "some_battery\<lparr>power_percentage := 16, charging := False,
      sent_notification := False\<rparr>" "[ue_battery_low]" "(4, False, True)" 4 zero_message]
  by (simp add: bat_abs_def some_battery_def quiet_net_def types_sent_def writes_ok_def)

text \<open>C29. Without pings, the notifications of any number of battery updates alternate strictly,
  starting with low: each discharge is announced once as low, each charge once as high, whatever
  times the clock gives; the number is even exactly when the battery is charging and has announced it, or is
  discharging and has not.\<close>

theorem battery_notifications_alternate:
  assumes "writes_ok w" "initialize_battery_life b0 w = (b, w1)"
    and "run_battery fd (replicate k Update) (m, b, w1) = (m', b', w')"
  shows "\<exists>n. types_sent w' = types_sent w @ alternating n \<and>
    (even n \<longleftrightarrow> charging b' = sent_notification b')"
proof -
  have b: "battery_inv b" "bat_cycle 0 (bat_abs b)" "writes_ok w1" "types_sent w1 = types_sent w @ alternating 0"
    using assms(1,2)
    by (auto simp: initialize_battery_life_def env_defs battery_inv_def bat_cycle_def bat_abs_def alternating_def)
  from run_updates_cycle [OF b(3,1,2,4) assms(3)] show ?thesis
    by (auto simp: bat_cycle_def bat_abs_def)
qed

lemma battery_notifications_alternate_witness:
  "\<exists>b w1 m' b' w' n. initialize_battery_life some_battery (quiet_net int) = (b, w1) \<and>
    run_battery 4 (replicate 18 Update) (zero_message, b, w1) = (m', b', w') \<and> types_sent w' = alternating n"
proof -
  obtain b w1 where i: "initialize_battery_life some_battery (quiet_net int) = (b, w1)" by (metis surj_pair)
  obtain m' b' w' where r: "run_battery 4 (replicate 18 Update) (zero_message, b, w1) = (m', b', w')"
    by (metis prod_cases3)
  from battery_notifications_alternate [OF _ i r] i r show ?thesis by auto
qed

definition missed_low :: "bat_op list" where
  "missed_low = [Pinged, Pinged, Pinged, Update, Update, Update, Update, Update, Update, Update, Pinged, Update]"

lemma run_battery_abs:
  assumes "writes_ok w" "battery_inv b" "\<forall>n. readings w \<le> n \<longrightarrow> clock w n + 1 \<le> clock w (Suc n)"
    "battery_time b + 1 \<le> clock w (readings w)"
  shows "\<exists>m' b' w'. run_battery fd (Update # ops) (m, b, w) = run_battery fd ops (m', b', w') \<and>
    bat_abs b' = snd (bat_step True (bat_abs b)) \<and>
    types_sent w' = types_sent w @ map msg_code (fst (bat_step True (bat_abs b))) \<and>
    writes_ok w' \<and> battery_inv b' \<and> (\<forall>n. readings w' \<le> n \<longrightarrow> clock w' n + 1 \<le> clock w' (Suc n)) \<and>
    battery_time b' + 1 \<le> clock w' (readings w')"
proof -
  obtain r m' b' w' where u: "update_battery fd m b w = (r, m', b', w')" by (metis prod_cases4)
  obtain m1 b1 w1 where c: "check_battery_status fd 12 m b w = (m1, b1, w1)" by (metis prod_cases3)
  note k = check_battery_status_keeps [OF c] and a = check_battery_status_abs [OF assms(1) c]
  have e: "battery_time (battery_ends x) = battery_time x" for x by (simp add: battery_ends_def)
  have t: "battery_time b' = clock w (Suc (readings w))" "clock w' = clock w"
    "readings w' = Suc (Suc (readings w))"
    using u c k a assms(4) by (auto simp: update_battery_def time_now_def Let_def e split: if_splits)
  from update_battery_abs [OF assms(1,2) u] assms(4) u t assms(3) battery_inv_update [OF u]
  show ?thesis by (intro exI [of _ m'] exI [of _ b'] exI [of _ w']) (auto simp del: bat_step.simps split: prod.splits)
qed

lemma run_pinged_abs:
  assumes "writes_ok w" "battery_inv b" "\<forall>n. readings w \<le> n \<longrightarrow> clock w n + 1 \<le> clock w (Suc n)"
    "battery_time b + 1 \<le> clock w (readings w)"
  shows "\<exists>m' b' w'. run_battery fd (Pinged # ops) (m, b, w) = run_battery fd ops (m', b', w') \<and>
    bat_abs b' = snd (bat_ping (bat_abs b)) \<and>
    types_sent w' = types_sent w @ map msg_code (fst (bat_ping (bat_abs b))) \<and>
    writes_ok w' \<and> battery_inv b' \<and> (\<forall>n. readings w' \<le> n \<longrightarrow> clock w' n + 1 \<le> clock w' (Suc n)) \<and>
    battery_time b' + 1 \<le> clock w' (readings w')"
proof -
  obtain m' b' w' where u: "decrease_after_ping fd m b w = (m', b', w')" by (metis prod_cases3)
  obtain m1 b1 w1 where c: "check_battery_status fd 2 m b w = (m1, b1, w1)" by (metis prod_cases3)
  note k = check_battery_status_keeps [OF c] and a = check_battery_status_abs [OF assms(1) c]
  have t: "battery_time b' = battery_time b" "clock w' = clock w" "readings w' = readings w"
    using u c k a by (auto simp: decrease_after_ping_def Let_def split: if_splits)
  from decrease_after_ping_abs [OF assms(1,2) u] u t assms(3,4) battery_inv_ping [OF assms(2) u]
  show ?thesis by (intro exI [of _ m'] exI [of _ b'] exI [of _ w']) (auto simp del: bat_ping.simps split: prod.splits)
qed

fun run_bat :: "bat_op list \<Rightarrow> bat \<Rightarrow> e_message_type list \<times> bat" where
  "run_bat [] s = ([], s)"
| "run_bat (op # ops) s =
    (let (ns, s1) = (case op of Update \<Rightarrow> bat_step True s | Pinged \<Rightarrow> bat_ping s);
         (ns', s2) = run_bat ops s1
     in (ns @ ns', s2))"

lemma run_battery_run_bat:
  assumes "writes_ok w" "battery_inv b" "\<forall>n. readings w \<le> n \<longrightarrow> clock w n + 1 \<le> clock w (Suc n)"
    "battery_time b + 1 \<le> clock w (readings w)" "run_battery fd ops (m, b, w) = (m', b', w')"
  shows "bat_abs b' = snd (run_bat ops (bat_abs b)) \<and>
    types_sent w' = types_sent w @ map msg_code (fst (run_bat ops (bat_abs b)))"
  using assms
proof (induction ops arbitrary: m b w)
  case Nil
  then show ?case by simp
next
  case (Cons op ops)
  let ?f = "case op of Update \<Rightarrow> bat_step True (bat_abs b) | Pinged \<Rightarrow> bat_ping (bat_abs b)"
  obtain m1 b1 w1 where s: "run_battery fd (op # ops) (m, b, w) = run_battery fd ops (m1, b1, w1)"
    "bat_abs b1 = snd ?f" "types_sent w1 = types_sent w @ map msg_code (fst ?f)" "writes_ok w1" "battery_inv b1"
    "\<forall>n. readings w1 \<le> n \<longrightarrow> clock w1 n + 1 \<le> clock w1 (Suc n)" "battery_time b1 + 1 \<le> clock w1 (readings w1)"
  proof (cases op)
    case Update
    with run_battery_abs [OF Cons.prems(1-4), of fd ops m] that show ?thesis
      by (auto simp del: bat_step.simps run_battery.simps)
  next
    case Pinged
    with run_pinged_abs [OF Cons.prems(1-4), of fd ops m] that show ?thesis
      by (auto simp del: bat_ping.simps run_battery.simps)
  qed
  from Cons.prems(5) have "run_battery fd ops (m1, b1, w1) = (m', b', w')" unfolding s(1) .
  from Cons.IH [OF s(4-7) this] s(2,3) show ?case by (simp add: split_beta Let_def)
qed

text \<open>With pings a discharge can go unannounced: three pings shift the percentage to 94, seven
  updates take it to 10, a ping to 8, which is below the window of the next check, and the update
  after it turns the battery round at 0.  The eNodeB never hears of the low state.\<close>

theorem battery_low_missed:
  assumes "writes_ok w" "\<forall>n. clock w n + 1 \<le> clock w (Suc n)" "initialize_battery_life b0 w = (b, w1)"
    and "run_battery fd missed_low (m, b, w1) = (m', b', w')"
  shows "power_percentage b' = 0 \<and> charging b' \<and> types_sent w' = types_sent w"
proof -
  have b: "writes_ok w1" "battery_inv b" "\<forall>n. readings w1 \<le> n \<longrightarrow> clock w1 n + 1 \<le> clock w1 (Suc n)"
    "battery_time b + 1 \<le> clock w1 (readings w1)" "bat_abs b = (100, False, False)" "types_sent w1 = types_sent w"
    using assms(1-3) by (auto simp: initialize_battery_life_def env_defs battery_inv_def bat_abs_def)
  have "run_bat missed_low (100, False, False) = ([], 0, True, False)"
    by (simp add: missed_low_def)
  with run_battery_run_bat [OF b(1-4) assms(4)] b(5,6) show ?thesis
    by (simp add: bat_abs_def)
qed

lemma battery_low_missed_witness:
  "\<exists>b w1 m' b' w'. initialize_battery_life some_battery (quiet_net int) = (b, w1) \<and>
    run_battery 4 missed_low (zero_message, b, w1) = (m', b', w') \<and> power_percentage b' = 0 \<and> types_sent w' = []"
proof -
  obtain b w1 where i: "initialize_battery_life some_battery (quiet_net int) = (b, w1)" by (metis surj_pair)
  obtain m' b' w' where r: "run_battery 4 missed_low (zero_message, b, w1) = (m', b', w')"
    by (metis prod_cases3)
  from battery_low_missed [OF _ _ i r] i r show ?thesis by (simp add: quiet_net_def types_sent_def writes_ok_def)
qed

end
