(* ===== verification/Signal_Props.thy ===== *)
theory Signal_Props
  imports User_Equipment
begin

text \<open>The signals of the cells: their range and movement, and the order of the events computed from them.\<close>

section \<open>Signals stay in range and keep moving\<close>

definition signal_inv :: "s_cell_signal \<Rightarrow> bool" where
  "signal_inv sig \<longleftrightarrow> 0 \<le> rsrp sig \<and> rsrp sig \<le> 97 \<and> thresholds sig = [19, 77] \<and>
    (signal_course sig = 5 \<and> rsrp sig < 97 \<or> signal_course sig = -5 \<and> 0 < rsrp sig)"

definition cells_inv :: "s_cells \<Rightarrow> bool" where
  "cells_inv cells \<longleftrightarrow> length (cells_signals cells) = 2 \<and>
    signal_inv (cell0 cells) \<and> signal_inv (cell1 cells)"

lemma update_rsrp_up:
  "0 \<le> rsrp sig \<Longrightarrow> rsrp sig < 97 \<Longrightarrow> signal_course sig = 5 \<Longrightarrow>
    update_rsrp sig = (if rsrp sig + 5 < 97 then sig\<lparr>rsrp := rsrp sig + 5\<rparr>
      else sig\<lparr>rsrp := 97, signal_course := -5\<rparr>)"
  by (auto simp: update_rsrp_def Let_def max_rsrp_def to_int8_id)

lemma update_rsrp_down:
  "0 < rsrp sig \<Longrightarrow> rsrp sig \<le> 97 \<Longrightarrow> signal_course sig = -5 \<Longrightarrow>
    update_rsrp sig = (if 0 < rsrp sig - 5 then sig\<lparr>rsrp := rsrp sig - 5\<rparr>
      else sig\<lparr>rsrp := 0, signal_course := 5\<rparr>)"
  by (auto simp: update_rsrp_def Let_def max_rsrp_def to_int8_id)

lemma update_rsrp_inv:
  assumes "signal_inv sig"
  shows "signal_inv (update_rsrp sig)" "rsrp (update_rsrp sig) \<noteq> rsrp sig"
    "\<bar>rsrp (update_rsrp sig) - rsrp sig\<bar> \<le> 5"
proof -
  consider "0 \<le> rsrp sig" "rsrp sig < 97" "signal_course sig = 5"
    | "0 < rsrp sig" "rsrp sig \<le> 97" "signal_course sig = -5"
    using assms by (auto simp: signal_inv_def)
  then have "signal_inv (update_rsrp sig) \<and> rsrp (update_rsrp sig) \<noteq> rsrp sig \<and>
      \<bar>rsrp (update_rsrp sig) - rsrp sig\<bar> \<le> 5"
    using assms by cases (auto simp: update_rsrp_up update_rsrp_down signal_inv_def)
  then show "signal_inv (update_rsrp sig)" "rsrp (update_rsrp sig) \<noteq> rsrp sig"
    "\<bar>rsrp (update_rsrp sig) - rsrp sig\<bar> \<le> 5" by simp_all
qed

lemma two_cells: "[0..<NUMBER_OF_CELLS] = [0, 1]"
  by (simp add: NUMBER_OF_CELLS_def numeral_2_eq_2)

lemma update_rsrps_cells:
  assumes "length (cells_signals cells) = 2" "update_rsrps cells w = (cells', w')"
  shows "cells_signals cells' = (if 1 < clock w (readings w) - cells_time cells
    then map update_rsrp (cells_signals cells) else cells_signals cells)"
proof -
  from assms(1) obtain s0 s1 where "cells_signals cells = [s0, s1]"
    by (metis (no_types, lifting) One_nat_def Suc_length_conv length_0_conv numeral_2_eq_2)
  with assms(2) show ?thesis
    by (auto simp: update_rsrps_def two_cells env_defs split: if_splits)
qed

lemma cells_inv_update:
  assumes "cells_inv cells" "update_rsrps cells w = (cells', w')"
  shows "cells_inv cells'"
proof -
  have len: "length (cells_signals cells) = 2" using assms(1) by (simp add: cells_inv_def)
  show ?thesis
    using assms(1) update_rsrps_cells [OF len assms(2)]
    by (auto simp: cells_inv_def update_rsrp_inv split: if_splits)
qed

lemma cells_inv_cong: "cells_signals c = cells_signals c' \<Longrightarrow> cells_inv c = cells_inv c'"
  by (simp add: cells_inv_def)

lemma cells_inv_signal_event:
  assumes "cells_inv cells" "set_current_signal_event cells st w = (cells', st', w')"
  shows "cells_inv cells'"
proof -
  obtain c1 w1 where u: "update_rsrps cells w = (c1, w1)" by fastforce
  then have "cells_signals cells' = cells_signals c1"
    using assms(2) by (auto simp: set_current_signal_event_def split: prod.splits)
  with cells_inv_update [OF assms(1) u] show ?thesis by (simp add: cells_inv_def)
qed

lemma cells_inv_initialize:
  assumes "length (cells_signals cells) = 2" "rand_ok w"
  shows "cells_inv (fst (initialize_cells cells w))"
proof -
  have r: "0 \<le> rand_res w n smod 97" "rand_res w n smod 97 < 97" for n
    using assms(2) by (simp_all add: rand_ok_def smod_nonneg)
  have r7: "rand_res w n smod 97 \<le> 97" for n using r(2) [of n] by simp
  have r8: "to_int8 (rand_res w n smod 97) = rand_res w n smod 97" for n
    using r [of n] by (intro to_int8_id) simp_all
  show ?thesis
    using assms(1) r
    by (simp add: initialize_cells_def two_cells initialize_cell_def env_defs cells_inv_def signal_inv_def
        max_rsrp_def r8 r7)
qed

lemma initial_signals:
  assumes "length (cells_signals cells) = 2" "rand_ok w" "i < 2"
  shows "rsrp (cells_signals (fst (initialize_cells cells w)) ! i) \<in> {0..96}"
proof -
  have r: "0 \<le> rand_res w n smod 97" "rand_res w n smod 97 < 97" for n
    using assms(2) by (simp_all add: rand_ok_def smod_nonneg)
  have r96: "rand_res w n smod 97 \<le> 96" for n using r(2) [of n] by linarith
  have r8: "to_int8 (rand_res w n smod 97) = rand_res w n smod 97" for n
    using r [of n] by (intro to_int8_id) linarith+
  show ?thesis
    using assms(1,3) r
    by (cases i) (simp_all add: initialize_cells_def two_cells initialize_cell_def env_defs max_rsrp_def r8 r96)
qed

text \<open>A rising signal reaches the top after as many updates as it has steps of 5 left.\<close>

lemma signal_rises:
  assumes "0 \<le> rsrp sig" "rsrp sig < 97" "signal_course sig = 5" "97 - rsrp sig \<le> 5 * int n"
  shows "\<exists>k \<le> n. rsrp ((update_rsrp ^^ k) sig) = 97 \<and> signal_course ((update_rsrp ^^ k) sig) = -5"
  using assms
proof (induction n arbitrary: sig)
  case 0
  then show ?case by simp
next
  case (Suc n)
  show ?case
  proof (cases "rsrp sig + 5 < 97")
    case True
    with Suc.prems have u: "update_rsrp sig = sig\<lparr>rsrp := rsrp sig + 5\<rparr>" by (simp add: update_rsrp_up)
    have "\<exists>k\<le>n. rsrp ((update_rsrp ^^ k) (update_rsrp sig)) = 97 \<and>
        signal_course ((update_rsrp ^^ k) (update_rsrp sig)) = -5"
      by (rule Suc.IH) (use Suc.prems True in \<open>simp_all add: u\<close>)
    then obtain k where "k \<le> n" "rsrp ((update_rsrp ^^ Suc k) sig) = 97"
      "signal_course ((update_rsrp ^^ Suc k) sig) = -5"
      by (auto simp: funpow_Suc_right simp del: funpow.simps)
    then show ?thesis by (intro exI [of _ "Suc k"]) auto
  next
    case False
    with Suc.prems show ?thesis by (intro exI [of _ "Suc 0"]) (simp add: update_rsrp_up)
  qed
qed

lemma signal_falls:
  assumes "0 < rsrp sig" "rsrp sig \<le> 97" "signal_course sig = -5" "rsrp sig \<le> 5 * int n"
  shows "\<exists>k \<le> n. rsrp ((update_rsrp ^^ k) sig) = 0 \<and> signal_course ((update_rsrp ^^ k) sig) = 5"
  using assms
proof (induction n arbitrary: sig)
  case 0
  then show ?case by simp
next
  case (Suc n)
  show ?case
  proof (cases "0 < rsrp sig - 5")
    case True
    with Suc.prems have u: "update_rsrp sig = sig\<lparr>rsrp := rsrp sig - 5\<rparr>" by (simp add: update_rsrp_down)
    have "\<exists>k\<le>n. rsrp ((update_rsrp ^^ k) (update_rsrp sig)) = 0 \<and>
        signal_course ((update_rsrp ^^ k) (update_rsrp sig)) = 5"
      by (rule Suc.IH) (use Suc.prems True in \<open>simp_all add: u\<close>)
    then obtain k where "k \<le> n" "rsrp ((update_rsrp ^^ Suc k) sig) = 0"
      "signal_course ((update_rsrp ^^ Suc k) sig) = 5"
      by (auto simp: funpow_Suc_right simp del: funpow.simps)
    then show ?thesis by (intro exI [of _ "Suc k"]) auto
  next
    case False
    with Suc.prems show ?thesis by (intro exI [of _ "Suc 0"]) (simp add: update_rsrp_down)
  qed
qed

section \<open>Events\<close>

text \<open>The events a sequence of measurements gives rise to.\<close>

fun run_events :: "s_cells list \<Rightarrow> event_statics \<Rightarrow> s_event list" where
  "run_events [] st = []"
| "run_events (c # cs) st = (let (e, st) = check_events c st in e # run_events cs st)"

lemma length_run_events [simp]: "length (run_events cs st) = length cs"
  by (induction cs arbitrary: st) (auto split: prod.split)

lemma check_events_a3:
  assumes "check_events c st = (e, st')"
  shows "e = a3 \<Longrightarrow> rsrp (cell0 c) < rsrp (cell1 c) \<and> a3_checked st'"
    and "a3_checked st \<Longrightarrow> \<not> rsrp (cell1 c) < rsrp (cell0 c) \<Longrightarrow> e \<noteq> a3 \<and> a3_checked st'"
  using assms by (auto simp: check_events_def Let_def split: if_splits)

lemma no_a3_while_checked:
  "a3_checked st \<Longrightarrow> \<forall>i<j. \<not> rsrp (cell1 (cs ! i)) < rsrp (cell0 (cs ! i)) \<Longrightarrow> j < length cs \<Longrightarrow>
    rsrp (cell0 (cs ! j)) < rsrp (cell1 (cs ! j)) \<Longrightarrow> run_events cs st ! j \<noteq> a3"
proof (induction cs arbitrary: st j)
  case Nil
  then show ?case by simp
next
  case (Cons c cs)
  obtain e st1 where ce: "check_events c st = (e, st1)" by fastforce
  show ?case
  proof (cases j)
    case 0
    with Cons.prems check_events_a3(2) [OF ce] ce show ?thesis by simp
  next
    case (Suc j')
    with Cons.prems have "\<not> rsrp (cell1 c) < rsrp (cell0 c)" by force
    with check_events_a3(2) [OF ce Cons.prems(1)] have "a3_checked st1" by simp
    moreover have "\<forall>i<j'. \<not> rsrp (cell1 (cs ! i)) < rsrp (cell0 (cs ! i))"
      using Cons.prems(2) Suc by force
    ultimately show ?thesis using Cons.IH [of st1 j'] Cons.prems Suc ce by simp
  qed
qed

lemma a3_at: "run_events cs st ! j = a3 \<Longrightarrow> j < length cs \<Longrightarrow> rsrp (cell0 (cs ! j)) < rsrp (cell1 (cs ! j))"
proof (induction cs arbitrary: st j)
  case Nil
  then show ?case by simp
next
  case (Cons c cs)
  obtain e st1 where ce: "check_events c st = (e, st1)" by fastforce
  with Cons check_events_a3(1) [OF ce] show ?case by (cases j) auto
qed

lemma a3_separated:
  assumes "run_events cs st ! i = a3" "run_events cs st ! j = a3" "i < j" "j < length cs"
  shows "\<exists>k. i < k \<and> k < j \<and> rsrp (cell1 (cs ! k)) < rsrp (cell0 (cs ! k))"
  using assms
proof (induction cs arbitrary: st i j)
  case Nil
  then show ?case by simp
next
  case (Cons c cs)
  obtain e st1 where ce: "check_events c st = (e, st1)" by fastforce
  obtain j' where j: "j = Suc j'" "j' < length cs" using Cons.prems by (cases j) auto
  show ?case
  proof (cases i)
    case 0
    with Cons.prems(1) ce check_events_a3(1) [OF ce] have "a3_checked st1" by simp
    moreover have aj: "run_events cs st1 ! j' = a3" using Cons.prems(2) j ce by simp
    ultimately have "\<exists>k<j'. rsrp (cell1 (cs ! k)) < rsrp (cell0 (cs ! k))"
      using no_a3_while_checked [of st1 j' cs] a3_at [OF aj j(2)] j(2) by blast
    then obtain k where "k < j'" "rsrp (cell1 (cs ! k)) < rsrp (cell0 (cs ! k))" by blast
    with 0 j show ?thesis by (intro exI [of _ "Suc k"]) simp
  next
    case (Suc i')
    with Cons.IH [of st1 i' j'] Cons.prems j ce obtain k where
      "i' < k" "k < j'" "rsrp (cell1 (cs ! k)) < rsrp (cell0 (cs ! k))" by auto
    with Suc j show ?thesis by (intro exI [of _ "Suc k"]) simp
  qed
qed

lemma check_events_a1:
  assumes "check_events c st = (e, st')"
  shows "e = a1 \<Longrightarrow> thresholds (cell0 c) ! 0 < rsrp (cell0 c) \<and> event_change st = 1"
    and "event_change st' = 1 \<Longrightarrow> event_change st = 1 \<or> rsrp (cell0 c) < thresholds (cell0 c) ! 0"
  using assms by (auto simp: check_events_def Let_def split: if_splits)

lemma a1_armed:
  assumes "run_events cs st ! j = a1" "j < length cs" "event_change st \<noteq> 1"
  shows "\<exists>i<j. rsrp (cell0 (cs ! i)) < thresholds (cell0 (cs ! i)) ! 0"
  using assms
proof (induction cs arbitrary: st j)
  case Nil
  then show ?case by simp
next
  case (Cons c cs)
  obtain e st1 where ce: "check_events c st = (e, st1)" by fastforce
  show ?case
  proof (cases j)
    case 0
    with Cons.prems ce check_events_a1(1) [OF ce] show ?thesis by auto
  next
    case (Suc j')
    show ?thesis
    proof (cases "event_change st1 = 1")
      case True
      with check_events_a1(2) [OF ce] Cons.prems(3) Suc show ?thesis by (intro exI [of _ 0]) simp
    next
      case False
      with Cons.IH [of st1 j'] Cons.prems Suc ce obtain i where
        "i < j'" "rsrp (cell0 (cs ! i)) < thresholds (cell0 (cs ! i)) ! 0" by auto
      with Suc show ?thesis by (intro exI [of _ "Suc i"]) simp
    qed
  qed
qed

section \<open>Properties\<close>

fun run_rsrps :: "nat \<Rightarrow> s_cells \<times> net \<Rightarrow> s_cells \<times> net" where
  "run_rsrps 0 s = s"
| "run_rsrps (Suc n) (cells, w) = run_rsrps n (update_rsrps cells w)"

lemma run_rsrps_inv: "cells_inv cells \<Longrightarrow> run_rsrps n (cells, w) = (cells', w') \<Longrightarrow> cells_inv cells'"
proof (induction n arbitrary: cells w)
  case 0
  then show ?case by simp
next
  case (Suc n)
  obtain c1 w1 where "update_rsrps cells w = (c1, w1)" by fastforce
  with Suc.IH [OF cells_inv_update [OF Suc.prems(1) this]] Suc.prems(2) show ?case by simp
qed

text \<open>C39. The signal powers: initialised between 0 and 96, and after any number of updates (whatever
  the clock says) they are between 0 and 97; an update that is due moves every signal, by at most 5,
  so no signal sticks at an end of the scale.\<close>

theorem signals_keep_moving:
  assumes "length (cells_signals c0) = 2" "rand_ok w0" "initialize_cells c0 w0 = (c, w)"
    "run_rsrps n (c, w) = (c', w')" "i < 2"
  shows "0 \<le> rsrp (cells_signals c ! i) \<and> rsrp (cells_signals c ! i) \<le> 96 \<and>
    0 \<le> rsrp (cells_signals c' ! i) \<and> rsrp (cells_signals c' ! i) \<le> 97 \<and>
    (1 < clock w' (readings w') - cells_time c' \<longrightarrow>
      rsrp (cells_signals (fst (update_rsrps c' w')) ! i) \<noteq> rsrp (cells_signals c' ! i) \<and>
      \<bar>rsrp (cells_signals (fst (update_rsrps c' w')) ! i) - rsrp (cells_signals c' ! i)\<bar> \<le> 5)"
proof -
  have "cells_inv c" using cells_inv_initialize [OF assms(1,2)] assms(3) by simp
  from run_rsrps_inv [OF this assms(4)] have inv: "cells_inv c'" .
  then have len: "length (cells_signals c') = 2" and "signal_inv (cell0 c')" "signal_inv (cell1 c')"
    by (simp_all add: cells_inv_def)
  then have "signal_inv (cells_signals c' ! i)" using assms(5) by (cases i) auto
  moreover obtain c2 w2 where "update_rsrps c' w' = (c2, w2)" by fastforce
  moreover have "rsrp (cells_signals c ! i) \<in> {0..96}" using initial_signals [OF assms(1,2,5)] assms(3) by simp
  ultimately show ?thesis
    using update_rsrps_cells [OF len] update_rsrp_inv(2,3) [of "cells_signals c' ! i"] assms(5) len
    by (auto simp: signal_inv_def)
qed

definition some_cells :: s_cells where
  "some_cells = \<lparr>cells_signals = replicate 2 \<lparr>rsrp = 0, thresholds = [0, 0], signal_course = 0\<rparr>,
    cells_time = 0, current_event = def\<rparr>"

lemma signals_keep_moving_witness:
  "\<exists>c w c' w'. initialize_cells some_cells (quiet_net (\<lambda>n. 2 * int n)) = (c, w) \<and>
    run_rsrps 3 (c, w) = (c', w') \<and> 0 \<le> rsrp (cells_signals c' ! 1) \<and> rsrp (cells_signals c' ! 1) \<le> 97"
proof -
  obtain c w where i: "initialize_cells some_cells (quiet_net (\<lambda>n. 2 * int n)) = (c, w)" by (metis surj_pair)
  obtain c' w' where r: "run_rsrps 3 (c, w) = (c', w')" by (metis surj_pair)
  have l: "length (cells_signals some_cells) = 2" by (simp add: some_cells_def)
  from signals_keep_moving [OF l quiet_net_ok(2) i r, of 1] i r show ?thesis by auto
qed

text \<open>Two reports of event A3 (the neighbour has become stronger) are always separated by a
  measurement in which the neighbour was weaker, and each is made at a measurement in which it is
  stronger.\<close>

theorem event_a3_not_repeated:
  assumes "run_events cs st ! i = a3" "run_events cs st ! j = a3" "i < j" "j < length cs"
  shows "\<exists>k. i < k \<and> k < j \<and> rsrp (cell1 (cs ! k)) < rsrp (cell0 (cs ! k)) \<and>
    rsrp (cell0 (cs ! i)) < rsrp (cell1 (cs ! i)) \<and> rsrp (cell0 (cs ! j)) < rsrp (cell1 (cs ! j))"
  using a3_separated [OF assms] a3_at [OF assms(1)] a3_at [OF assms(2,4)] assms(3,4) by auto

definition two_signals :: "int \<Rightarrow> int \<Rightarrow> s_cells" where
  "two_signals x y = \<lparr>cells_signals = [\<lparr>rsrp = x, thresholds = [19, 77], signal_course = 5\<rparr>,
    \<lparr>rsrp = y, thresholds = [19, 77], signal_course = 5\<rparr>], cells_time = 0, current_event = def\<rparr>"

lemma event_a3_not_repeated_witness:
  "run_events [two_signals 30 40, two_signals 50 45, two_signals 45 50] init_statics = [a3, def, a3] \<and>
   (\<exists>k. 0 < k \<and> k < 2 \<and> rsrp (cell1 ([two_signals 30 40, two_signals 50 45, two_signals 45 50] ! k)) <
      rsrp (cell0 ([two_signals 30 40, two_signals 50 45, two_signals 45 50] ! k)))"
proof -
  have r: "run_events [two_signals 30 40, two_signals 50 45, two_signals 45 50] init_statics = [a3, def, a3]"
    by (simp add: check_events_def two_signals_def init_statics_def)
  from event_a3_not_repeated [of "[two_signals 30 40, two_signals 50 45, two_signals 45 50]" init_statics 0 2] r
  show ?thesis by auto
qed

text \<open>Event A1 (the serving cell is good again) is only reported after an earlier measurement
  found it below its lower threshold.\<close>

theorem event_a1_after_low:
  assumes "run_events cs init_statics ! j = a1" "j < length cs"
  shows "\<exists>i<j. rsrp (cell0 (cs ! i)) < thresholds (cell0 (cs ! i)) ! 0"
  by (rule a1_armed [OF assms]) (simp add: init_statics_def)

lemma event_a1_after_low_witness:
  "\<exists>i<1. rsrp (cell0 ([two_signals 14 14, two_signals 20 20] ! i)) <
    thresholds (cell0 ([two_signals 14 14, two_signals 20 20] ! i)) ! 0"
  using event_a1_after_low [of "[two_signals 14 14, two_signals 20 20]" 1]
  by (simp add: check_events_def two_signals_def init_statics_def)

text \<open>The report of event A1 is lost when the neighbour overtakes at the wrong moment: event A3
  resets the state that remembers the low measurement, so a serving cell that recovers from 14 over
  19 to 24 is not reported, while the same recovery with a weak neighbour is.\<close>

theorem event_a1_lost_by_a3:
  "run_events [two_signals 14 10, two_signals 19 20, two_signals 24 15] init_statics = [def, a3, def] \<and>
   run_events [two_signals 14 10, two_signals 19 10, two_signals 24 10] init_statics = [def, def, a1]"
  by (simp_all add: check_events_def two_signals_def init_statics_def)

end
