(* ===== verification/Ue_Props.thy ===== *)
theory Ue_Props
  imports Ue_Main Battery_Props Signal_Props Invariant
begin

text \<open>
  The user equipment as a transition system of its two threads and its signal handler: what every
  reachable state satisfies, what a pass does with each message, and what a download leaves in the
  file.
\<close>

section \<open>The step relation\<close>

inductive ue_step :: "ue \<Rightarrow> ue \<Rightarrow> bool" where
  main_step: "ue_main_pass s = Inr (True, s') \<Longrightarrow> ue_step s s'"
| battery_step: "battery_thread_pass s = (True, s') \<Longrightarrow> ue_step s s'"
| signal_step: "ue_step s (signal_handler signum s)"

inductive_cases ue_stepE: "ue_step s s'"

definition ue_inv :: "ue \<Rightarrow> bool" where
  "ue_inv s \<longleftrightarrow> wf_message (ue_message s) \<and> wf_message (ue_received s) \<and> battery_inv (ue_bat s) \<and>
    cells_inv (ue_cells s)"

lemma wf_neg_type: "wf_message m \<Longrightarrow> wf_message (m\<lparr>message_type := to_uint32 (-1)\<rparr>)"
  by (simp add: wf_message_def to_uint32_def take_bit_eq_mod)

lemma recv_bytes_length: "recv_bytes w = (Some bs, w') \<Longrightarrow> length bs \<le> 48"
  by (auto simp: recv_bytes_def)

lemma ue_recv_keeps:
  "ue_received (ue_recv s) = ue_received s" "ue_bat (ue_recv s) = ue_bat s" "ue_cells (ue_recv s) = ue_cells s"
  "ue_running (ue_recv s) = ue_running s" "ue_socket (ue_recv s) = ue_socket s" "ue_file (ue_recv s) = ue_file s"
  "ue_disk (ue_recv s) = ue_disk s" "ue_bytes (ue_recv s) = ue_bytes s" "ue_packets (ue_recv s) = ue_packets s"
  by (simp_all add: ue_recv_def split_beta Let_def)

lemma ue_recv_inv: "ue_inv s \<Longrightarrow> ue_inv (ue_recv s)"
  using recv_bytes_length
  by (auto simp: ue_inv_def ue_recv_def wf_recv_into Let_def split: prod.splits option.splits)

lemma decrease_after_ping_wf:
  "decrease_after_ping fd m b w = (m', b', w') \<Longrightarrow> wf_message m \<Longrightarrow> wf_message m'"
  using check_battery_status_keeps(5) by (fastforce simp: decrease_after_ping_def Let_def split: prod.splits)

lemma update_battery_wf:
  "update_battery fd m b w = (r, m', b', w') \<Longrightarrow> wf_message m \<Longrightarrow> wf_message m'"
  using check_battery_status_keeps(5) by (fastforce simp: update_battery_def Let_def split: prod.splits)

lemma ue_on_ping_inv: "ue_inv s \<Longrightarrow> ue_inv (ue_on_ping s)"
  using battery_inv_ping decrease_after_ping_wf
  by (fastforce simp: ue_inv_def ue_on_ping_def send_pong_def Let_def split: prod.splits)

lemma ue_on_measurement_inv: "ue_inv s \<Longrightarrow> ue_inv (ue_on_measurement s)"
  by (simp add: ue_inv_def ue_on_measurement_def send_measurement_report_def
      receive_measurement_control_request_def split_beta Let_def)

text \<open>The file handlers touch the file variables only.\<close>

lemma ue_file_handlers:
  assumes "f \<in> {ue_on_data_start, ue_on_data, ue_on_data_end}" "f s = Inr s'"
  shows "ue_message s' = ue_message s \<and> ue_received s' = ue_received s \<and> ue_bat s' = ue_bat s \<and>
    ue_cells s' = ue_cells s \<and> ue_running s' = ue_running s \<and> ue_socket s' = ue_socket s \<and>
    ue_net s' = ue_net s"
  using assms
  by (auto simp: ue_on_data_start_def ue_on_data_def ue_on_data_end_def bind_res_Inr_iff split_beta Let_def)

lemma ue_switch_cases:
  assumes "ue_switch s = Inr s'"
  shows "s' = ue_on_ping s \<or> s' = ue_on_measurement s \<or> s' = s \<or>
    (\<exists>f \<in> {ue_on_data_start, ue_on_data, ue_on_data_end}. f s = Inr s')"
proof (cases "msg_label (message_type (ue_message s))")
  case None
  with assms show ?thesis by (simp add: ue_switch_def)
next
  case (Some t)
  with assms show ?thesis by (cases t) (simp_all add: ue_switch_def)
qed

lemma ue_switch_inv: "ue_inv s \<Longrightarrow> ue_switch s = Inr s' \<Longrightarrow> ue_inv s'"
proof -
  assume inv: "ue_inv s" and "ue_switch s = Inr s'"
  from ue_switch_cases [OF this(2)] show ?thesis
  proof (elim disjE bexE)
    fix f assume "f \<in> {ue_on_data_start, ue_on_data, ue_on_data_end}" "f s = Inr s'"
    from ue_file_handlers [OF this] inv show ?thesis by (simp add: ue_inv_def)
  qed (use inv ue_on_ping_inv ue_on_measurement_inv in simp_all)
qed

lemma ue_after_switch_inv: "ue_inv s \<Longrightarrow> ue_inv (ue_after_switch s)"
  using cells_inv_signal_event
  by (fastforce simp: ue_inv_def ue_after_switch_def wf_neg_type Let_def split: prod.splits)

lemma ue_body_inv: "ue_inv s \<Longrightarrow> ue_body s = Inr s' \<Longrightarrow> ue_inv s'"
  using ue_switch_inv [OF ue_recv_inv] ue_after_switch_inv by (auto simp: ue_body_def bind_res_Inr_iff)

lemma ue_guard_keeps:
  "ue_guard s = (go, s') \<Longrightarrow> ue_message s' = ue_message s \<and> ue_received s' = ue_received s \<and>
    ue_bat s' = ue_bat s \<and> ue_cells s' = ue_cells s \<and> ue_running s' = ue_running s"
  by (auto simp: ue_guard_def check_for_shutdown_def split: if_splits prod.splits)

lemma ue_step_inv: "ue_inv s \<Longrightarrow> ue_step s s' \<Longrightarrow> ue_inv s'"
proof (erule ue_stepE)
  assume inv: "ue_inv s"
  obtain go s1 where g: "ue_guard s = (go, s1)" by fastforce
  with ue_guard_keeps [OF g] inv have inv1: "ue_inv s1" by (simp add: ue_inv_def)
  show "ue_inv s'" if "ue_main_pass s = Inr (True, s')"
    using that g ue_body_inv [OF inv1] by (auto simp: ue_main_pass_def bind_res_Inr_iff split: if_splits)
  show "ue_inv s'" if "battery_thread_pass s = (True, s')"
  proof -
    obtain r m b w where u: "update_battery (ue_socket s1) (ue_message s1) (ue_bat s1) (ue_net s1) = (r, m, b, w)"
      by (metis prod_cases4)
    with that g inv1 update_battery_wf [OF u] battery_inv_update [OF u] show ?thesis
      by (auto simp: battery_thread_pass_def ue_inv_def split: if_splits)
  qed
  show "ue_inv s'" if "s' = signal_handler signum s" for signum
    using that inv by (simp add: signal_handler_def ue_inv_def)
qed

interpretation ue_machine: invariant_machine ue_step ue_inv
  by unfold_locales (rule ue_step_inv)

text \<open>Nothing in the loop writes the buffer in which the set-up messages arrived.\<close>

lemma ue_switch_received: "ue_switch s = Inr s' \<Longrightarrow> ue_received s' = ue_received s \<and> ue_running s' = ue_running s"
proof -
  assume "ue_switch s = Inr s'"
  from ue_switch_cases [OF this] show ?thesis
  proof (elim disjE bexE)
    fix f assume "f \<in> {ue_on_data_start, ue_on_data, ue_on_data_end}" "f s = Inr s'"
    from ue_file_handlers [OF this] show ?thesis by simp
  qed (simp_all add: ue_on_ping_def ue_on_measurement_def split_beta Let_def)
qed

lemma ue_after_switch_keeps:
  "ue_received (ue_after_switch s) = ue_received s" "ue_running (ue_after_switch s) = ue_running s"
  "ue_file (ue_after_switch s) = ue_file s" "ue_disk (ue_after_switch s) = ue_disk s"
  "ue_bytes (ue_after_switch s) = ue_bytes s" "ue_packets (ue_after_switch s) = ue_packets s"
  "ue_bat (ue_after_switch s) = ue_bat s" "ue_socket (ue_after_switch s) = ue_socket s"
  "message_type (ue_message (ue_after_switch s)) = 4294967295"
  by (simp_all add: ue_after_switch_def split_beta Let_def to_uint32_def take_bit_eq_mod)

lemma ue_body_received: "ue_body s = Inr s' \<Longrightarrow> ue_received s' = ue_received s \<and> ue_running s' = ue_running s"
  using ue_switch_received [of "ue_recv s"]
  by (auto simp: ue_body_def bind_res_Inr_iff ue_recv_keeps ue_after_switch_keeps)

lemma ue_step_received: "ue_step s s' \<Longrightarrow> ue_received s' = ue_received s"
proof (erule ue_stepE)
  obtain go s1 where g: "ue_guard s = (go, s1)" by fastforce
  note k = ue_guard_keeps [OF g]
  show "ue_received s' = ue_received s" if "ue_main_pass s = Inr (True, s')"
    using that g k ue_body_received [of s1] by (auto simp: ue_main_pass_def bind_res_Inr_iff split: if_splits)
  show "ue_received s' = ue_received s" if "battery_thread_pass s = (True, s')"
    using that g k by (auto simp: battery_thread_pass_def split: if_splits prod.splits)
  show "ue_received s' = ue_received s" if "s' = signal_handler signum s" for signum
    using that by (simp add: signal_handler_def)
qed

lemma ue_guard_not_off:
  "message_type (ue_received s) \<noteq> msg_code enb_off \<Longrightarrow> ue_guard s = (ue_running s, s)"
  by (simp add: ue_guard_def check_for_shutdown_def)

section \<open>Start-up establishes the invariant\<close>

lemma ue_initialize_inv:
  assumes "length (cells_signals (ue_cells s)) = 2" "rand_ok (ue_net s)" "wf_message (ue_message s)"
    "wf_message (ue_received s)"
  shows "ue_inv (ue_initialize s)"
proof -
  obtain b w where i: "initialize_battery_life (ue_bat s) (ue_net s) = (b, w)" by fastforce
  then have "rand_ok w" "battery_inv b"
    using assms(2) by (auto simp: initialize_battery_life_def env_defs rand_ok_def battery_inv_def)
  with cells_inv_initialize [OF assms(1), of w] i assms(3,4) show ?thesis
    by (simp add: ue_initialize_def ue_inv_def split_beta Let_def)
qed

lemma ue_rrc_inv:
  assumes "ue_inv s" "ue_rrc p s = Inr (Some s')"
  shows "ue_inv s'"
proof -
  have wf: "wf_message (ue_message s)" "wf_message (ue_received s)" using assms(1) by (auto simp: ue_inv_def)
  from assms(2) obtain r m w where q: "send_rrc_connection_request (ue_socket s) (ue_message s)
      (generate_ue_identity p) (ue_net s) = Inr (r, m, w)" "r \<noteq> -1"
    by (auto simp: ue_rrc_def bind_res_Inr_iff Let_def split: if_splits)
  then have m: "wf_message m"
    using wf by (auto simp: send_rrc_connection_request_def bind_res_Inr_iff Let_def split_beta)
  obtain r2 rcv m2 w2 where v: "receive_rrc_setup (ue_socket s) (ue_received s) m w = (r2, rcv, m2, w2)"
    by (metis prod_cases4)
  then have "m2 = m" "wf_message rcv"
    using wf(2) wf_send_rrc_setup_complete [OF wf_recv_into [OF wf(2) recv_bytes_length]]
    by (auto simp: receive_rrc_setup_def Let_def split: prod.splits option.splits)
  with assms q m v show ?thesis by (auto simp: ue_rrc_def ue_inv_def)
qed

lemma ue_rach_inv:
  assumes "ue_inv s" "ue_rach p s = Inr (Some s')"
  shows "ue_inv s'"
proof -
  have wf: "wf_message (ue_message s)" "wf_message (ue_received s)" using assms(1) by (auto simp: ue_inv_def)
  obtain r m w where q: "send_prach_preamble (ue_socket s) (ue_message s) generate_ra_rnti (ue_net s) = (r, m, w)"
    by (metis prod_cases3)
  note m = wf_send_prach [OF wf(1) q]
  obtain r2 rcv m2 w2 where v: "receive_prach_response (ue_socket s) (ue_received s) m w = (r2, rcv, m2, w2)"
    by (metis prod_cases4)
  then have "wf_message m2" "wf_message rcv"
    using wf m recv_bytes_length
    by (auto simp: receive_prach_response_def Let_def wf_recv_into split: prod.splits option.splits if_splits)
  then have inv2: "ue_inv (s\<lparr>ue_received := rcv, ue_message := m2, ue_net := w2\<rparr>)"
    using assms(1) by (simp add: ue_inv_def)
  have "ue_rrc p (s\<lparr>ue_received := rcv, ue_message := m2, ue_net := w2\<rparr>) = Inr (Some s')"
    using assms(2) q v by (auto simp: ue_rach_def Let_def split: if_splits)
  from ue_rrc_inv [OF inv2 this] show ?thesis .
qed

lemma ue_start_inv:
  assumes "length (cells_signals (ue_cells s)) = 2" "rand_ok (ue_net s)" "wf_message (ue_message s)"
    "wf_message (ue_received s)" "ue_start sock conn p s = Inr (Some s')"
  shows "ue_inv s'"
proof -
  obtain ok fd w where i: "init_connection sock conn (ue_net (ue_initialize s)) = (ok, fd, w)"
    by (metis prod_cases3)
  have "ue_inv ((ue_initialize s)\<lparr>ue_socket := fd, ue_net := w\<rparr>)"
    using ue_initialize_inv [OF assms(1-4)] by (simp add: ue_inv_def)
  from ue_rach_inv [OF this] assms(5) i show ?thesis by (auto simp: ue_start_def Let_def split: if_splits)
qed

end
