(* ===== verification/Ue_Download.thy ===== *)
theory Ue_Download
  imports Ue_Props
begin

text \<open>
  Downloads: how the passes of the two threads of the user equipment, in any order, change the file
  variables.  \<open>dl_step\<close> is the download as a machine of its own, driven by what each \<open>recv\<close> yields;
  the program implements it (\<open>ue_run_dl\<close>) whatever else arrives in between.
\<close>

section \<open>The download machine\<close>

type_synonym dl = "file_ptr \<times> filesystem \<times> int \<times> int"

definition dl_of :: "ue \<Rightarrow> dl" where
  "dl_of s = (ue_file s, ue_disk s, ue_packets s, ue_bytes s)"

fun dl_step :: "s_message option \<Rightarrow> dl \<Rightarrow> dl res" where
  "dl_step None st = Inr st"
| "dl_step (Some m) (fp, d, k, n) =
    (case msg_label (message_type m) of
       Some data_start \<Rightarrow>
         bind_res (c_string_at (message_value m)) (\<lambda>name.
           case fopen_append name d of (fp', d') \<Rightarrow> Inr (fp', d', k, n))
     | Some data \<Rightarrow>
         bind_res (fwrite_all fp (get_buffer m) d) (\<lambda>d'.
         bind_res (c_int (n + 16)) (\<lambda>n'. bind_res (c_int (k + 1)) (\<lambda>k'. Inr (fp, d', k', n'))))
     | Some data_end \<Rightarrow> bind_res (fclose_file fp) (\<lambda>fp'. Inr (fp', d, 0, n))
     | _ \<Rightarrow> Inr (fp, d, k, n))"

fun dl_run :: "s_message option list \<Rightarrow> dl \<Rightarrow> dl res" where
  "dl_run [] st = Inr st"
| "dl_run (mo # mos) st = bind_res (dl_step mo st) (dl_run mos)"

section \<open>What does not touch the receiving side\<close>

definition recv_part :: "net \<Rightarrow> (nat \<Rightarrow> byte list option) \<times> nat" where
  "recv_part w = (recv_res w, recvs w)"

lemma recv_part_calls:
  "recv_part (snd (write_msg fd m w)) = recv_part w" "recv_part (snd (time_now w)) = recv_part w"
  by (simp_all add: recv_part_def env_defs)

lemma recv_part_check: "recv_part (snd (snd (check_battery_status fd st m b w))) = recv_part w"
  by (simp add: check_battery_status_def send_low_battery_notification_def
      send_high_battery_notification_def split_beta Let_def recv_part_calls)

lemma recv_part_update: "recv_part (snd (snd (snd (update_battery fd m b w)))) = recv_part w"
  by (simp add: update_battery_def split_beta Let_def recv_part_calls recv_part_check)

lemma recv_part_ping: "recv_part (snd (snd (decrease_after_ping fd m b w))) = recv_part w"
  by (simp add: decrease_after_ping_def split_beta Let_def recv_part_check)

lemma recv_part_event: "recv_part (snd (snd (set_current_signal_event c st w))) = recv_part w"
  by (simp add: set_current_signal_event_def update_rsrps_def split_beta Let_def recv_part_calls)

lemma recv_part_on_ping: "recv_part (ue_net (ue_on_ping s)) = recv_part (ue_net s)"
  by (simp add: ue_on_ping_def send_pong_def split_beta Let_def recv_part_calls recv_part_ping)

lemma recv_part_on_measurement: "recv_part (ue_net (ue_on_measurement s)) = recv_part (ue_net s)"
  by (simp add: ue_on_measurement_def send_measurement_report_def split_beta Let_def recv_part_calls)

lemma recv_part_after_switch: "recv_part (ue_net (ue_after_switch s)) = recv_part (ue_net s)"
  by (simp add: ue_after_switch_def split_beta Let_def recv_part_event)

lemma recv_part_switch: "ue_switch s = Inr s' \<Longrightarrow> recv_part (ue_net s') = recv_part (ue_net s)"
proof -
  assume "ue_switch s = Inr s'"
  from ue_switch_cases [OF this] show ?thesis
  proof (elim disjE bexE)
    fix f assume "f \<in> {ue_on_data_start, ue_on_data, ue_on_data_end}" "f s = Inr s'"
    from ue_file_handlers [OF this] show ?thesis by simp
  qed (simp_all add: recv_part_on_ping recv_part_on_measurement)
qed

section \<open>One pass\<close>

text \<open>Between passes the message buffer holds a type no case of the \<open>switch\<close> handles.\<close>

definition ue_idle :: "ue \<Rightarrow> bool" where
  "ue_idle s \<longleftrightarrow> msg_label (message_type (ue_message s)) \<notin>
    Some ` {ping, data_start, data, data_end, measurement_control_request}"

lemma ue_switch_dl:
  "bind_res (ue_switch s) (\<lambda>s'. Inr (dl_of s')) = dl_step (Some (ue_message s)) (dl_of s)"
proof -
  have p: "dl_of (ue_on_ping s) = dl_of s" "dl_of (ue_on_measurement s) = dl_of s"
    by (simp_all add: ue_on_ping_def ue_on_measurement_def dl_of_def split_beta Let_def)
  have b: "bind_res (ue_on_data_start s) (\<lambda>s'. Inr (dl_of s')) =
      bind_res (c_string_at (message_value (ue_message s))) (\<lambda>name.
           case fopen_append name (ue_disk s) of (fp', d') \<Rightarrow> Inr (fp', d', ue_packets s, ue_bytes s))"
    "bind_res (ue_on_data s) (\<lambda>s'. Inr (dl_of s')) =
      bind_res (fwrite_all (ue_file s) (get_buffer (ue_message s)) (ue_disk s)) (\<lambda>d'.
         bind_res (c_int (ue_bytes s + 16)) (\<lambda>n'. bind_res (c_int (ue_packets s + 1)) (\<lambda>k'. Inr (ue_file s, d', k', n'))))"
    "bind_res (ue_on_data_end s) (\<lambda>s'. Inr (dl_of s')) =
      bind_res (fclose_file (ue_file s)) (\<lambda>fp'. Inr (fp', ue_disk s, 0, ue_bytes s))"
    by (simp_all add: ue_on_data_start_def ue_on_data_def ue_on_data_end_def download_data_def dl_of_def split_beta)
  show ?thesis
  proof (cases "msg_label (message_type (ue_message s))")
    case None
    then show ?thesis by (simp add: ue_switch_def dl_of_def)
  next
    case (Some t)
    with p b show ?thesis by (cases t) (simp_all add: ue_switch_def dl_of_def)
  qed
qed

lemma dl_step_idle: "ue_idle s \<Longrightarrow> dl_step (Some (ue_message s)) st = Inr st"
  by (cases st) (auto simp: ue_idle_def split: option.split e_message_type.split)

definition recv_next :: "ue \<Rightarrow> byte list option" where
  "recv_next s = recv_res (ue_net s) (recvs (ue_net s))"

lemma ue_recv_message:
  assumes "wf_message (ue_message s)" "recv_next s = map_option msg_bytes mo"
    "pred_option wf_message mo"
  shows "ue_message (ue_recv s) = (case mo of None \<Rightarrow> ue_message s | Some m \<Rightarrow> m)"
    and "recv_part (ue_net (ue_recv s)) = (recv_res (ue_net s), Suc (recvs (ue_net s)))"
  using assms by (auto simp: recv_next_def ue_recv_def recv_bytes_def recv_part_def Let_def split: option.split)

lemma ue_body_dl:
  assumes "ue_inv s" "ue_idle s" "recv_next s = map_option msg_bytes mo" "pred_option wf_message mo"
  shows "bind_res (ue_body s) (\<lambda>s'. Inr (dl_of s')) = dl_step mo (dl_of s)"
proof -
  have wf: "wf_message (ue_message s)" using assms(1) by (simp add: ue_inv_def)
  note rm = ue_recv_message(1) [OF wf assms(3,4)]
  have st: "dl_of (ue_recv s) = dl_of s" by (simp add: dl_of_def ue_recv_keeps)
  have af: "dl_of (ue_after_switch s) = dl_of s" for s by (simp add: dl_of_def ue_after_switch_keeps)
  have "bind_res (ue_body s) (\<lambda>s'. Inr (dl_of s')) = dl_step (Some (ue_message (ue_recv s))) (dl_of s)"
    using ue_switch_dl [of "ue_recv s"] by (simp add: ue_body_def af st)
  also have "\<dots> = dl_step mo (dl_of s)"
  proof (cases mo)
    case None
    with dl_step_idle [OF assms(2)] show ?thesis by (simp add: rm)
  next
    case (Some m)
    then show ?thesis by (simp add: rm)
  qed
  finally show ?thesis .
qed

lemma ue_after_switch_idle: "ue_idle (ue_after_switch s)"
  by (simp add: ue_idle_def ue_after_switch_keeps msg_label_def)

section \<open>Schedules\<close>

datatype ue_op = Main_pass | Battery_pass

fun ue_run :: "ue_op list \<Rightarrow> ue \<Rightarrow> ue res" where
  "ue_run [] s = Inr s"
| "ue_run (Main_pass # ops) s =
    bind_res (ue_main_pass s) (\<lambda>(go, s). if go then ue_run ops s else Inr s)"
| "ue_run (Battery_pass # ops) s = (let (go, s) = battery_thread_pass s in ue_run ops s)"

definition ue_going :: "ue \<Rightarrow> bool" where
  "ue_going s \<longleftrightarrow> ue_inv s \<and> ue_idle s \<and> ue_running s \<and> message_type (ue_received s) \<noteq> msg_code enb_off"

definition incoming :: "ue \<Rightarrow> s_message option list \<Rightarrow> bool" where
  "incoming s mos \<longleftrightarrow> (\<forall>i < length mos. pred_option wf_message (mos ! i) \<and>
    recv_res (ue_net s) (recvs (ue_net s) + i) = map_option msg_bytes (mos ! i))"

lemma incoming_Cons:
  assumes "incoming s (mo # mos)"
  shows "recv_next s = map_option msg_bytes mo" "pred_option wf_message mo"
    "recv_part (ue_net s') = (recv_res (ue_net s), Suc (recvs (ue_net s))) \<Longrightarrow> incoming s' mos"
proof -
  have i: "pred_option wf_message ((mo # mos) ! i) \<and>
    recv_res (ue_net s) (recvs (ue_net s) + i) = map_option msg_bytes ((mo # mos) ! i)" if "i < Suc (length mos)" for i
    using assms that by (simp add: incoming_def)
  show "recv_next s = map_option msg_bytes mo" "pred_option wf_message mo"
    using i [of 0] by (simp_all add: recv_next_def)
  show "incoming s' mos" if "recv_part (ue_net s') = (recv_res (ue_net s), Suc (recvs (ue_net s)))"
    using that i [of "Suc _"] by (auto simp: incoming_def recv_part_def)
qed

lemma battery_pass_going:
  assumes "ue_going s"
  shows "\<exists>s'. battery_thread_pass s = (True, s') \<and> ue_going s' \<and> dl_of s' = dl_of s \<and>
    recv_part (ue_net s') = recv_part (ue_net s)"
proof -
  have g: "ue_guard s = (True, s)" using assms by (simp add: ue_going_def ue_guard_not_off)
  obtain r m b w where u: "update_battery (ue_socket s) (ue_message s) (ue_bat s) (ue_net s) = (r, m, b, w)"
    by (metis prod_cases4)
  let ?s = "s\<lparr>ue_message := m, ue_bat := b, ue_net := w\<rparr>"
  have p: "battery_thread_pass s = (True, ?s)" by (simp add: battery_thread_pass_def g u)
  have "ue_inv ?s" using ue_step_inv [OF _ battery_step [OF p]] assms by (simp add: ue_going_def)
  moreover have "message_type m = message_type (ue_message s) \<or> message_type m = msg_code ue_battery_low \<or>
      message_type m = msg_code ue_battery_high"
    using u by (auto simp: update_battery_def check_battery_status_def send_low_battery_notification_def
        send_high_battery_notification_def Let_def split: prod.splits if_splits)
  then have "ue_idle ?s" using assms by (auto simp: ue_going_def ue_idle_def simp del: msg_code.simps)
  moreover have "recv_part w = recv_part (ue_net s)" using recv_part_update [of "ue_socket s"] u by (metis snd_conv)
  ultimately show ?thesis using p assms by (auto simp: ue_going_def dl_of_def)
qed

lemma main_pass_going:
  assumes "ue_going s" "recv_next s = map_option msg_bytes mo" "pred_option wf_message mo"
  shows "bind_res (ue_main_pass s) (\<lambda>(go, s'). Inr (go, dl_of s')) = bind_res (dl_step mo (dl_of s)) (\<lambda>st. Inr (True, st))"
    and "ue_main_pass s = Inr (go, s') \<Longrightarrow>
      go \<and> ue_going s' \<and> recv_part (ue_net s') = (recv_res (ue_net s), Suc (recvs (ue_net s)))"
proof -
  have g: "ue_guard s = (True, s)" and inv: "ue_inv s" and idle: "ue_idle s" and wf: "wf_message (ue_message s)"
    using assms(1) by (simp_all add: ue_going_def ue_guard_not_off ue_inv_def)
  have "bind_res (ue_main_pass s) (\<lambda>(go, s'). Inr (go, dl_of s')) =
    bind_res (bind_res (ue_body s) (\<lambda>s'. Inr (dl_of s'))) (\<lambda>st. Inr (True, st))"
    by (simp add: ue_main_pass_def g)
  then show "bind_res (ue_main_pass s) (\<lambda>(go, s'). Inr (go, dl_of s')) =
      bind_res (dl_step mo (dl_of s)) (\<lambda>st. Inr (True, st))"
    unfolding ue_body_dl [OF inv idle assms(2,3)] .
  assume "ue_main_pass s = Inr (go, s')"
  then have go: "go" and body: "ue_body s = Inr s'" by (auto simp: ue_main_pass_def g bind_res_Inr_iff)
  then obtain s1 where s1: "ue_switch (ue_recv s) = Inr s1" "s' = ue_after_switch s1"
    by (auto simp: ue_body_def bind_res_Inr_iff)
  then show "go \<and> ue_going s' \<and> recv_part (ue_net s') = (recv_res (ue_net s), Suc (recvs (ue_net s)))"
    using go ue_body_inv [OF inv body] ue_body_received [OF body] assms(1) ue_after_switch_idle [of s1]
      recv_part_switch [OF s1(1)] ue_recv_message(2) [OF wf assms(2,3)]
    by (auto simp: ue_going_def recv_part_after_switch)
qed

lemma ue_run_dl:
  assumes "ue_going s" "incoming s mos" "length (filter (\<lambda>op. op = Main_pass) ops) = length mos"
  shows "bind_res (ue_run ops s) (\<lambda>s'. Inr (dl_of s')) = dl_run mos (dl_of s) \<and>
    (\<forall>s'. ue_run ops s = Inr s' \<longrightarrow> ue_going s' \<and> recvs (ue_net s') = recvs (ue_net s) + length mos)"
  using assms
proof (induction ops arbitrary: s mos)
  case Nil
  then show ?case by simp
next
  case (Cons op ops)
  show ?case
  proof (cases op)
    case Battery_pass
    from battery_pass_going [OF Cons.prems(1)] obtain s1 where
      s1: "battery_thread_pass s = (True, s1)" "ue_going s1" "dl_of s1 = dl_of s"
        "recv_part (ue_net s1) = recv_part (ue_net s)" by blast
    then have "incoming s1 mos" using Cons.prems(2) by (simp add: incoming_def recv_part_def)
    from Cons.IH [OF s1(2) this] Cons.prems(3) Battery_pass s1 show ?thesis by (simp add: recv_part_def)
  next
    case Main_pass
    with Cons.prems(3) obtain mo mos' where mos: "mos = mo # mos'" by (cases mos) auto
    note inc = incoming_Cons [OF Cons.prems(2) [unfolded mos]]
    note mp = main_pass_going [OF Cons.prems(1) inc(1,2)]
    show ?thesis
    proof (cases "ue_main_pass s")
      case (Inl e)
      with mp(1) have "dl_step mo (dl_of s) = Inl e" by (cases "dl_step mo (dl_of s)") auto
      with Inl Main_pass mos show ?thesis by simp
    next
      case (Inr p)
      obtain go s1 where p: "p = (go, s1)" by fastforce
      with Inr mp(2) have s1: "go" "ue_going s1" "recv_part (ue_net s1) = (recv_res (ue_net s), Suc (recvs (ue_net s)))"
        by blast+
      from mp(1) Inr p have "dl_step mo (dl_of s) = Inr (dl_of s1)"
        by (cases "dl_step mo (dl_of s)") auto
      with Cons.IH [OF s1(2) inc(3) [OF s1(3)]] Cons.prems(3) Main_pass mos Inr p s1(1,3) show ?thesis by (simp add: recv_part_def)
    qed
  qed
qed

section \<open>A whole download\<close>

text \<open>The messages of a download among those that arrive.\<close>

definition file_message :: "s_message \<Rightarrow> bool" where
  "file_message m \<longleftrightarrow> msg_label (message_type m) \<in> Some ` {data_start, data, data_end}"

definition file_messages :: "s_message option list \<Rightarrow> s_message list" where
  "file_messages mos = filter file_message (concat (map (case_option [] (\<lambda>m. [m])) mos))"

lemma dl_run_file_messages: "dl_run mos st = dl_run (map Some (file_messages mos)) st"
proof (induction mos arbitrary: st)
  case Nil
  show ?case by (simp add: file_messages_def)
next
  case (Cons mo mos)
  show ?case
  proof (cases "\<exists>m. mo = Some m \<and> file_message m")
    case True
    with Cons show ?thesis by (auto simp: file_messages_def intro!: bind_res_cong)
  next
    case False
    then have "dl_step mo st = Inr st"
      by (cases mo; cases st) (auto simp: file_message_def split: option.split e_message_type.split)
    moreover have "file_messages (mo # mos) = file_messages mos"
      using False by (cases mo) (auto simp: file_messages_def)
    ultimately show ?thesis using Cons by simp
  qed
qed

lemma dl_run_append: "dl_run (xs @ ys) st = bind_res (dl_run xs st) (dl_run ys)"
  by (induction xs arbitrary: st) (auto intro!: bind_res_cong)

lemma dl_run_data:
  assumes "\<forall>m \<in> set ms. message_type m = msg_code data" "0 \<le> k" "0 \<le> n"
    "n + 16 * int (length ms) \<le> INT_MAX" "k + int (length ms) \<le> INT_MAX"
    "contents d name = Some bs"
  shows "dl_run (map Some ms) (OpenFile name, d, k, n) =
    Inr (OpenFile name, d\<lparr>contents := (contents d)(name \<mapsto> bs @ concat (map get_buffer ms))\<rparr>,
      k + int (length ms), n + 16 * int (length ms))"
  using assms
proof (induction ms arbitrary: d k n bs)
  case Nil
  then have "(contents d)(name \<mapsto> bs) = contents d" by auto
  then show ?case by simp
next
  case (Cons m ms)
  let ?d = "d\<lparr>contents := (contents d)(name \<mapsto> bs @ get_buffer m)\<rparr>"
  have step: "dl_step (Some m) (OpenFile name, d, k, n) = Inr (OpenFile name, ?d, k + 1, n + 16)"
    using Cons.prems msg_label_code [of data] by (simp del: msg_label_code)
  have "dl_run (map Some ms) (OpenFile name, ?d, k + 1, n + 16) =
    Inr (OpenFile name, ?d\<lparr>contents := (contents ?d)(name \<mapsto> (bs @ get_buffer m) @ concat (map get_buffer ms))\<rparr>,
      k + 1 + int (length ms), n + 16 + 16 * int (length ms))"
    by (rule Cons.IH) (use Cons.prems in simp_all)
  moreover have "(contents ?d)(name \<mapsto> x) = (contents d)(name \<mapsto> x)" for x by (rule ext) simp
  moreover have "d\<lparr>contents := c, contents := c2\<rparr> = d\<lparr>contents := c2\<rparr>" for c c2 by simp
  ultimately have "dl_run (map Some ms) (OpenFile name, ?d, k + 1, n + 16) =
    Inr (OpenFile name, d\<lparr>contents := (contents d)(name \<mapsto> (bs @ get_buffer m) @ concat (map get_buffer ms))\<rparr>,
      k + 1 + int (length ms), n + 16 + 16 * int (length ms))" by (simp only:)
  moreover have "k + 1 + int (length ms) = k + int (length (m # ms))"
    "n + 16 + 16 * int (length ms) = n + 16 * int (length (m # ms))" by simp_all
  ultimately show ?case
    by (simp only: list.map dl_run.simps step bind_res_simps append_assoc concat.simps)
qed

definition old_contents :: "filesystem \<Rightarrow> string \<Rightarrow> byte list" where
  "old_contents d name = (case contents d name of None \<Rightarrow> [] | Some bs \<Rightarrow> bs)"

lemma dl_run_download:
  assumes "message_type st = msg_code data_start" "c_string_at (message_value st) = Inr name"
    "\<forall>m \<in> set ms. message_type m = msg_code data" "message_type en = msg_code data_end"
    "fopen_ok d (fopens d)" "0 \<le> k" "0 \<le> n" "n + 16 * int (length ms) \<le> INT_MAX" "k + int (length ms) \<le> INT_MAX"
  shows "dl_run (map Some (st # ms @ [en])) (fp, d, k, n) =
    Inr (ClosedFile, d\<lparr>fopens := Suc (fopens d),
        contents := (contents d)(name \<mapsto> old_contents d name @ concat (map get_buffer ms))\<rparr>,
      0, n + 16 * int (length ms))"
proof -
  let ?d = "d\<lparr>fopens := Suc (fopens d), contents := (contents d)(name \<mapsto> old_contents d name)\<rparr>"
  have l: "msg_label 13 = Some data_start" "msg_label 15 = Some data_end"
    using msg_label_code [of data_start] msg_label_code [of data_end] by simp_all
  have "dl_step (Some st) (fp, d, k, n) = Inr (OpenFile name, ?d, k, n)"
    using assms(1,2,5) by (simp add: l fopen_append_def old_contents_def)
  moreover have "dl_run (map Some ms) (OpenFile name, ?d, k, n) = Inr (OpenFile name,
      ?d\<lparr>contents := (contents ?d)(name \<mapsto> old_contents d name @ concat (map get_buffer ms))\<rparr>,
      k + int (length ms), n + 16 * int (length ms))"
    by (rule dl_run_data) (use assms in simp_all)
  ultimately show ?thesis using assms(4) by (simp add: dl_run_append l)
qed

end
