(* ===== verification/Ue_Theorems.thy ===== *)
theory Ue_Theorems
  imports Ue_Download
begin

text \<open>The properties of the user equipment, with a concrete equipment for their witnesses.\<close>

section \<open>A concrete user equipment\<close>

definition msg_of_type :: "e_message_type \<Rightarrow> s_message" where
  "msg_of_type t = set_type zero_message t"

lemma wf_msg_of_type [simp]: "wf_message (msg_of_type t)"
  by (simp add: msg_of_type_def)

lemma type_msg_of_type [simp]: "message_type (msg_of_type t) = msg_code t"
  by (simp add: msg_of_type_def)

definition some_ue :: "s_message option list \<Rightarrow> ue" where
  "some_ue mos = \<lparr>ue_running = True, ue_socket = 4, ue_message = msg_of_type rrc_request,
     ue_received = msg_of_type rrc_complete,
     ue_bat = \<lparr>power_percentage = 20, power_is_low = False, charging = False, sent_notification = False,
       battery_time = 0\<rparr>,
     ue_cells = two_signals 30 40, ue_statics = init_statics, ue_file = Indeterminate, ue_packets = 0, ue_bytes = 0,
     ue_disk = \<lparr>contents = Map.empty, fopen_ok = (\<lambda>_. True), fopens = 0\<rparr>,
     ue_net = (quiet_net int)\<lparr>recv_res := (\<lambda>n. if n < length mos then map_option msg_bytes (mos ! n) else None)\<rparr>\<rparr>"

lemma some_ue_going [simp]: "ue_going (some_ue mos)"
  by (simp add: ue_going_def ue_inv_def some_ue_def battery_inv_def cells_inv_def signal_inv_def two_signals_def
      ue_idle_def msg_label_def message_types_def)

lemma some_ue_incoming: "\<forall>mo \<in> set mos. pred_option wf_message mo \<Longrightarrow> incoming (some_ue mos) mos"
  by (simp add: incoming_def some_ue_def quiet_net_def)

lemma some_ue_recv [simp]: "recv_next (some_ue (mo # mos)) = map_option msg_bytes mo"
  by (simp add: recv_next_def some_ue_def quiet_net_def)

lemma some_ue_simps [simp]:
  "ue_running (some_ue mos)" "ue_socket (some_ue mos) = 4" "ue_file (some_ue mos) = Indeterminate"
  "outbox (ue_net (some_ue mos)) = []" "closed (ue_net (some_ue mos)) = []" "writes_ok (ue_net (some_ue mos))"
  "ue_packets (some_ue mos) = 0" "ue_bytes (some_ue mos) = 0" "contents (ue_disk (some_ue mos)) = Map.empty"
  "fopen_ok (ue_disk (some_ue mos)) n" "bat_abs (ue_bat (some_ue mos)) = (20, False, False)"
  "power_percentage (ue_bat (some_ue mos)) = 20" "current_event (ue_cells (some_ue mos)) = def"
  "ue_inv (some_ue mos)" "message_type (ue_received (some_ue mos)) = 4"
  using some_ue_going [of mos]
  by (simp_all add: ue_going_def) (simp_all add: some_ue_def bat_abs_def two_signals_def writes_ok_def quiet_net_def)

lemma some_ue_start_conditions:
  "length (cells_signals (ue_cells (some_ue mos))) = 2" "rand_ok (ue_net (some_ue mos))"
  "wf_message (ue_message (some_ue mos))" "wf_message (ue_received (some_ue mos))"
  by (simp_all add: some_ue_def two_signals_def rand_ok_def quiet_net_def)

abbreviation starting_ue :: ue where
  "starting_ue \<equiv> some_ue [Some (msg_of_type random_access_response), Some (msg_of_type rrc_setup)]"

lemma some_ue_starts_at: "\<exists>s. ue_start 4 0 7 (starting_ue\<lparr>ue_net := (ue_net starting_ue)\<lparr>readings := n\<rparr>\<rparr>) = Inr (Some s)"
proof -
  have r8: "to_int8 0 = 0" by (simp add: to_int8_def)
  have "preamble_index_bits 25 = 0" by (rule preamble_index_small) simp_all
  moreover have "get_rapid (msg_of_type random_access_response) = 0"
    by (simp add: msg_of_type_def get_rapid_def zero_message_def load_s_def load_u_def)
  ultimately show ?thesis
    by (simp add: get_set_preamble ue_start_def ue_initialize_def ue_rach_def ue_rrc_def some_ue_def initialize_battery_life_def
        initialize_cells_def two_cells initialize_cell_def env_defs init_connection_def send_prach_preamble_def
        generate_ra_rnti_def receive_prach_response_def quiet_net_def send_rrc_connection_request_def
        generate_ue_identity_def receive_rrc_setup_def send_rrc_setup_complete_def smod_nonneg r8 to_int16_id)
qed

lemma some_ue_starts: "\<exists>s. ue_start 4 0 7 starting_ue = Inr (Some s)"
proof -
  have "starting_ue\<lparr>ue_net := (ue_net starting_ue)\<lparr>readings := 0\<rparr>\<rparr> = starting_ue" by (simp add: some_ue_def quiet_net_def)
  with some_ue_starts_at [of 0] show ?thesis by simp
qed

section \<open>Passes that handle one message\<close>

lemma ue_main_pass_message:
  assumes "ue_going s" "recv_next s = Some (msg_bytes m)" "wf_message m"
  shows "ue_main_pass s = bind_res (ue_switch (ue_recv s)) (\<lambda>s. Inr (True, ue_after_switch s))"
    and "ue_message (ue_recv s) = m"
proof -
  have g: "ue_guard s = (True, s)" and wf: "wf_message (ue_message s)"
    using assms(1) by (simp_all add: ue_going_def ue_guard_not_off ue_inv_def)
  show "ue_main_pass s = bind_res (ue_switch (ue_recv s)) (\<lambda>s. Inr (True, ue_after_switch s))"
    by (simp add: ue_main_pass_def g ue_body_def)
  show "ue_message (ue_recv s) = m"
    using ue_recv_message(1) [OF wf, of "Some m"] assms(2,3) by simp
qed

lemma ue_after_switch_outbox:
  "outbox (ue_net (ue_after_switch s)) = outbox (ue_net s)" "closed (ue_net (ue_after_switch s)) = closed (ue_net s)"
  by (simp_all add: ue_after_switch_def set_current_signal_event_def update_rsrps_def env_defs split_beta)

lemma ue_recv_outbox:
  "outbox (ue_net (ue_recv s)) = outbox (ue_net s)" "closed (ue_net (ue_recv s)) = closed (ue_net s)"
  "write_res (ue_net (ue_recv s)) = write_res (ue_net s)"
  by (simp_all add: ue_recv_def recv_bytes_def)

lemma ue_run_download:
  assumes "ue_going s" "incoming s mos" "length (filter (\<lambda>op. op = Main_pass) ops) = length mos"
    and "file_messages mos = st # ms @ [en]" "message_type st = msg_code data_start"
    "\<forall>m \<in> set ms. message_type m = msg_code data" "message_type en = msg_code data_end"
    and "c_string_at (message_value st) = Inr name" "fopen_ok (ue_disk s) (fopens (ue_disk s))"
    and "0 \<le> ue_packets s" "0 \<le> ue_bytes s" "ue_bytes s + 16 * int (length ms) \<le> INT_MAX"
    "ue_packets s + int (length ms) \<le> INT_MAX"
  shows "\<exists>s'. ue_run ops s = Inr s' \<and> ue_file s' = ClosedFile \<and> ue_packets s' = 0 \<and>
    contents (ue_disk s') name = Some (old_contents (ue_disk s) name @ concat (map get_buffer ms)) \<and>
    (\<forall>other. other \<noteq> name \<longrightarrow> contents (ue_disk s') other = contents (ue_disk s) other)"
proof -
  from ue_run_dl [OF assms(1-3)] dl_run_file_messages [of mos] assms(4)
    dl_run_download [OF assms(5,8,6,7,9-13), of "ue_file s"]
  have r: "bind_res (ue_run ops s) (\<lambda>s'. Inr (dl_of s')) = Inr (ClosedFile, (ue_disk s)\<lparr>fopens := Suc (fopens (ue_disk s)),
        contents := (contents (ue_disk s))(name \<mapsto> old_contents (ue_disk s) name @ concat (map get_buffer ms))\<rparr>,
      0, ue_bytes s + 16 * int (length ms))"
    by (simp only: dl_of_def)
  then obtain s' where "ue_run ops s = Inr s'" by (auto simp: bind_res_Inr_iff)
  with r show ?thesis by (simp add: dl_of_def)
qed

text \<open>A pass that receives a ping.\<close>

lemma ue_pass_pong:
  assumes "ue_going s" "writes_ok (ue_net s)" "wf_message m" "message_type m = msg_code ping"
    "recv_next s = Some (msg_bytes m)"
  shows "\<exists>s' rest. ue_main_pass s = Inr (True, s') \<and>
    outbox (ue_net s') = outbox (ue_net s) @ (ue_socket s, set_type m pong) # rest \<and>
    map (\<lambda>(fd, m). message_type m) rest = map msg_code (fst (bat_ping (bat_abs (ue_bat s)))) \<and>
    power_percentage (ue_bat s') = max 0 (power_percentage (ue_bat s) - 2)"
proof -
  let ?r = "ue_recv s"
  note mp = ue_main_pass_message [OF assms(1,5,3)]
  have ok: "writes_ok (ue_net ?r)" using assms(2) by (simp add: writes_ok_def ue_recv_outbox)
  let ?w1 = "(ue_net ?r)\<lparr>writes := Suc (writes (ue_net ?r)),
      outbox := outbox (ue_net s) @ [(ue_socket s, set_type m pong)]\<rparr>"
  have pong: "send_pong (ue_socket s) m (ue_net ?r) = (0, set_type m pong, ?w1)"
    using ok by (simp add: send_pong_def write_msg_ok [OF ok] writes_okD [OF ok] ue_recv_outbox(1) Let_def)
  obtain m2 b2 w2 where d: "decrease_after_ping (ue_socket s) (set_type m pong) (ue_bat s) ?w1 = (m2, b2, w2)"
    by (metis prod_cases3)
  have inv: "battery_inv (ue_bat s)" using assms(1) by (simp add: ue_going_def ue_inv_def)
  have ok1: "writes_ok ?w1" using ok by simp
  from decrease_after_ping_abs [OF ok1 inv d]
  have a: "bat_abs b2 = snd (bat_ping (bat_abs (ue_bat s)))"
    "types_sent w2 = types_sent ?w1 @ map msg_code (fst (bat_ping (bat_abs (ue_bat s))))"
    by (auto simp: split_beta simp del: bat_ping.simps)
  obtain rest where rest: "outbox w2 = outbox ?w1 @ rest"
  proof -
    obtain m3 b3 w3 where c: "check_battery_status (ue_socket s) 2 (set_type m pong) (ue_bat s) ?w1 = (m3, b3, w3)"
      by (metis prod_cases3)
    then have "\<exists>rest. outbox w3 = outbox ?w1 @ rest"
      by (auto simp: check_battery_status_def send_low_battery_notification_def send_high_battery_notification_def
          write_msg_def Let_def split: if_splits)
    moreover have "w2 = w3" using d c by (auto simp: decrease_after_ping_def Let_def)
    ultimately show ?thesis using that by blast
  qed
  have "ue_switch ?r = Inr (?r\<lparr>ue_message := m2, ue_bat := b2, ue_net := w2\<rparr>)"
    using assms(4) d by (simp add: ue_switch_def ue_on_ping_def mp(2) receive_ping_def pong ue_recv_keeps
        msg_label_code del: msg_code.simps)
  moreover have "map (\<lambda>(fd, m). message_type m) rest = map msg_code (fst (bat_ping (bat_abs (ue_bat s))))"
    using a(2) rest by (simp add: types_sent_def del: bat_ping.simps)
  moreover have "power_percentage b2 = max 0 (power_percentage (ue_bat s) - 2)"
    using a(1) by (simp add: bat_abs_def)
  ultimately show ?thesis using rest
    by (intro exI [of _ "ue_after_switch (?r\<lparr>ue_message := m2, ue_bat := b2, ue_net := w2\<rparr>)"] exI [of _ rest])
      (simp add: mp(1) ue_after_switch_outbox ue_after_switch_keeps del: bat_ping.simps)
qed

text \<open>A pass that receives a measurement control request.\<close>

lemma ue_pass_report:
  assumes "ue_going s" "writes_ok (ue_net s)" "wf_message m" "message_type m = msg_code measurement_control_request"
    "recv_next s = Some (msg_bytes m)"
  shows "\<exists>s' r. ue_main_pass s = Inr (True, s') \<and> outbox (ue_net s') = outbox (ue_net s) @ [(ue_socket s, r)] \<and>
    wf_message r \<and> message_type r = msg_code measurement_report \<and> get_events r = event_code (current_event (ue_cells s))"
proof -
  let ?r = "ue_recv s"
  let ?m = "set_events (current_event (ue_cells s)) (set_type m measurement_report)"
  note mp = ue_main_pass_message [OF assms(1,5,3)]
  have ok: "writes_ok (ue_net ?r)" using assms(2) by (simp add: writes_ok_def ue_recv_outbox)
  let ?s1 = "?r\<lparr>ue_message := ?m, ue_net := (ue_net ?r)\<lparr>writes := Suc (writes (ue_net ?r)),
      outbox := outbox (ue_net s) @ [(ue_socket s, ?m)]\<rparr>\<rparr>"
  have "ue_switch ?r = Inr ?s1"
    using assms(4) ok by (simp add: ue_switch_def ue_on_measurement_def receive_measurement_control_request_def
        send_measurement_report_def mp(2) write_msg_ok ue_recv_keeps ue_recv_outbox Let_def del: msg_code.simps)
  then show ?thesis using assms(3)
    by (intro exI [of _ "ue_after_switch ?s1"] exI [of _ ?m])
      (simp add: mp(1) ue_after_switch_outbox get_set_events del: msg_code.simps)
qed

section \<open>Properties\<close>

text \<open>After a successful start every state the user equipment reaches, whatever the order of its
  main loop, battery thread and signals and whatever the network delivers, has the battery between
  0 and 100, the signals between 0 and 97, and message buffers of the right shape; and the set-up
  buffer is never written again.\<close>

theorem ue_reachable_invariant:
  assumes "length (cells_signals (ue_cells s0)) = 2" "rand_ok (ue_net s0)" "wf_message (ue_message s0)"
    "wf_message (ue_received s0)" "ue_start sock conn p s0 = Inr (Some s)" "ue_step\<^sup>*\<^sup>* s s'"
  shows "0 \<le> power_percentage (ue_bat s') \<and> power_percentage (ue_bat s') \<le> 100 \<and>
    (\<forall>i < 2. 0 \<le> rsrp (cells_signals (ue_cells s') ! i) \<and> rsrp (cells_signals (ue_cells s') ! i) \<le> 97) \<and>
    wf_message (ue_message s') \<and> ue_received s' = ue_received s"
proof -
  have inv: "ue_inv s" by (rule ue_start_inv [OF assms(1-5)])
  have "ue_inv s'" by (rule ue_machine.reachable_inv [OF assms(6) inv])
  moreover have "ue_received s' = ue_received s"
    by (rule ue_machine.reachable_constant [OF assms(6) inv]) (rule ue_step_received)
  moreover have "i = 0 \<or> i = 1" if "i < 2" for i :: nat using that by auto
  ultimately show ?thesis by (auto simp: ue_inv_def battery_inv_def cells_inv_def signal_inv_def)
qed

lemma ue_reachable_invariant_witness:
  "\<exists>s. ue_start 4 0 7 (some_ue [Some (msg_of_type random_access_response), Some (msg_of_type rrc_setup)]) = Inr (Some s) \<and>
    0 \<le> power_percentage (ue_bat (signal_handler 2 s)) \<and> power_percentage (ue_bat (signal_handler 2 s)) \<le> 100"
proof -
  obtain s where s: "ue_start 4 0 7 (some_ue [Some (msg_of_type random_access_response), Some (msg_of_type rrc_setup)]) = Inr (Some s)"
    using some_ue_starts by blast
  have st: "ue_step\<^sup>*\<^sup>* s (signal_handler 2 s)" by (rule r_into_rtranclp) (rule signal_step)
  from ue_reachable_invariant [OF some_ue_start_conditions s st] s show ?thesis by blast
qed

text \<open>C22. The eNodeB's shutdown notice is ignored: the loop condition looks at the set-up buffer, which
  nothing in the loop writes, while messages arrive in another one.  In every state reached from a
  completed set-up the loop goes on exactly as long as no signal has come, and a pass that receives
  the notice goes on, sends nothing and leaves the socket open.\<close>

theorem ue_ignores_shutdown_notice:
  assumes "message_type (ue_received s) \<noteq> msg_code enb_off" "ue_inv s" "ue_step\<^sup>*\<^sup>* s s'"
  shows "ue_guard s' = (ue_running s', s') \<and>
    (\<forall>m. ue_running s' \<and> wf_message m \<and> message_type m = msg_code enb_off \<and> recv_next s' = Some (msg_bytes m) \<longrightarrow>
      (\<exists>s''. ue_main_pass s' = Inr (True, s'') \<and> ue_running s'' \<and>
        outbox (ue_net s'') = outbox (ue_net s') \<and> closed (ue_net s'') = closed (ue_net s')))"
proof -
  have inv: "ue_inv s'" by (rule ue_machine.reachable_inv [OF assms(3,2)])
  have "ue_received s' = ue_received s"
    by (rule ue_machine.reachable_constant [OF assms(3,2)]) (rule ue_step_received)
  with assms(1) have off: "message_type (ue_received s') \<noteq> msg_code enb_off" by simp
  note g = ue_guard_not_off [OF off]
  have "\<exists>s''. ue_main_pass s' = Inr (True, s'') \<and> ue_running s'' \<and>
      outbox (ue_net s'') = outbox (ue_net s') \<and> closed (ue_net s'') = closed (ue_net s')"
    if "ue_running s'" "wf_message m" "message_type m = msg_code enb_off" "recv_next s' = Some (msg_bytes m)" for m
  proof -
    have "ue_message (ue_recv s') = m"
      using ue_recv_message(1) [of s' "Some m"] inv that by (simp add: ue_inv_def)
    then have "ue_switch (ue_recv s') = Inr (ue_recv s')"
      using that(3) by (simp add: ue_switch_def del: msg_code.simps)
    with that(1) show ?thesis
      by (intro exI [of _ "ue_after_switch (ue_recv s')"])
        (simp add: ue_main_pass_def g ue_body_def ue_after_switch_keeps ue_recv_keeps ue_after_switch_outbox ue_recv_outbox)
  qed
  with g show ?thesis by blast
qed

lemma ue_ignores_shutdown_notice_witness:
  "\<exists>s''. ue_main_pass (some_ue [Some (msg_of_type enb_off)]) = Inr (True, s'') \<and> ue_running s'' \<and> closed (ue_net s'') = []"
proof -
  let ?s = "some_ue [Some (msg_of_type enb_off)]"
  have "message_type (ue_received ?s) \<noteq> msg_code enb_off" "ue_inv ?s" by simp_all
  from ue_ignores_shutdown_notice [OF this rtranclp.rtrancl_refl]
  show ?thesis using wf_msg_of_type [of enb_off] type_msg_of_type [of enb_off]
    by (fastforce simp del: msg_code.simps type_msg_of_type)
qed

text \<open>C26. A ping that arrives is answered in the same pass by a pong with the same contents, sent before
  anything else, and costs 2 percent of battery (not below 0); besides the pong only the low or high
  notification the battery then owes is sent.\<close>

theorem ue_answers_ping:
  assumes "ue_going s" "writes_ok (ue_net s)" "wf_message m" "message_type m = msg_code ping"
    "recv_next s = Some (msg_bytes m)"
  shows "\<exists>s' rest. ue_main_pass s = Inr (True, s') \<and>
    outbox (ue_net s') = outbox (ue_net s) @ (ue_socket s, set_type m pong) # rest \<and>
    map (\<lambda>(fd, m). message_type m) rest = map msg_code (fst (bat_ping (bat_abs (ue_bat s)))) \<and>
    power_percentage (ue_bat s') = max 0 (power_percentage (ue_bat s) - 2)"
  by (rule ue_pass_pong [OF assms])

lemma ue_answers_ping_witness:
  "\<exists>s' rest. ue_main_pass (some_ue [Some (msg_of_type ping)]) = Inr (True, s') \<and>
    outbox (ue_net s') = (4, set_type (msg_of_type ping) pong) # rest \<and>
    map (\<lambda>(fd, m). message_type m) rest = [5] \<and> power_percentage (ue_bat s') = 18"
proof -
  let ?s = "some_ue [Some (msg_of_type ping)]"
  have "writes_ok (ue_net ?s)" "message_type (msg_of_type ping) = msg_code ping"
    "recv_next ?s = Some (msg_bytes (msg_of_type ping))"
    by simp_all
  from ue_answers_ping [OF some_ue_going this(1) wf_msg_of_type this(2,3)] show ?thesis by simp
qed

text \<open>A measurement control request is answered in the same pass by exactly one measurement report
  that carries the current event of the cells.\<close>

theorem ue_reports_current_event:
  assumes "ue_going s" "writes_ok (ue_net s)" "wf_message m" "message_type m = msg_code measurement_control_request"
    "recv_next s = Some (msg_bytes m)"
  shows "\<exists>s' r. ue_main_pass s = Inr (True, s') \<and> outbox (ue_net s') = outbox (ue_net s) @ [(ue_socket s, r)] \<and>
    message_type r = msg_code measurement_report \<and> get_events r = event_code (current_event (ue_cells s))"
  using ue_pass_report [OF assms] by blast

lemma ue_reports_current_event_witness:
  "\<exists>s' r. ue_main_pass (some_ue [Some (msg_of_type measurement_control_request)]) = Inr (True, s') \<and>
    outbox (ue_net s') = [(4, r)] \<and> message_type r = 12 \<and> get_events r = 4"
proof -
  let ?m = "msg_of_type measurement_control_request"
  let ?s = "some_ue [Some ?m]"
  have "writes_ok (ue_net ?s)" "message_type ?m = msg_code measurement_control_request"
    "recv_next ?s = Some (msg_bytes ?m)"
    by simp_all
  from ue_reports_current_event [OF some_ue_going this(1) wf_msg_of_type this(2,3)] show ?thesis by simp
qed

text \<open>A download under the schedules of whole passes: if among the messages that arrive those of a transfer are a start, any number of
  data messages and an end, then whatever else arrives before, between and after them (pings,
  measurement requests, unknown messages, nothing) and however the passes of the battery thread
  are interleaved, the named file ends up with the sixteen bytes of every data message appended in
  order, the file is closed and the packet count is back at 0.\<close>

theorem ue_download:
  assumes "ue_going s" "incoming s mos" "length (filter (\<lambda>op. op = Main_pass) ops) = length mos"
    and "file_messages mos = st # ms @ [en]" "message_type st = msg_code data_start"
    "\<forall>m \<in> set ms. message_type m = msg_code data" "message_type en = msg_code data_end"
    and "c_string_at (message_value st) = Inr name" "fopen_ok (ue_disk s) (fopens (ue_disk s))"
    and "0 \<le> ue_packets s" "0 \<le> ue_bytes s" "ue_bytes s + 16 * int (length ms) \<le> INT_MAX"
    "ue_packets s + int (length ms) \<le> INT_MAX"
  shows "\<exists>s'. ue_run ops s = Inr s' \<and> ue_file s' = ClosedFile \<and> ue_packets s' = 0 \<and>
    contents (ue_disk s') name = Some (old_contents (ue_disk s) name @ concat (map get_buffer ms)) \<and>
    (\<forall>other. other \<noteq> name \<longrightarrow> contents (ue_disk s') other = contents (ue_disk s) other)"
  by (rule ue_run_download [OF assms])

definition named_start :: s_message where
  "named_start = set_buffer [120, 0, 0, 0, 0, 0, 0, 0, 0, 0, 0, 0, 0, 0, 0, 0] (msg_of_type data_start)"

definition data_of :: "byte list \<Rightarrow> s_message" where
  "data_of bs = set_buffer bs (msg_of_type data)"

text \<open>A sample transfer.\<close>

abbreviation sample_messages :: "s_message option list" where
  "sample_messages \<equiv> [Some named_start, Some (data_of (replicate 16 7)), None, Some (data_of (replicate 16 9)),
     Some (msg_of_type data_end)]"

abbreviation sample_passes :: "ue_op list" where
  "sample_passes \<equiv> [Main_pass, Main_pass, Battery_pass, Main_pass, Main_pass, Main_pass]"

lemma sample_incoming: "incoming (some_ue sample_messages) sample_messages"
  by (rule some_ue_incoming) (simp add: named_start_def data_of_def)

lemma sample_file_messages:
  "file_messages sample_messages = named_start # [data_of (replicate 16 7), data_of (replicate 16 9)] @ [msg_of_type data_end]"
  by (simp add: file_messages_def file_message_def named_start_def data_of_def del: msg_code.simps)

lemma sample_name: "c_string_at (message_value named_start) = Inr ''x''"
  by (simp add: named_start_def set_buffer_def upd_value_def store_def msg_of_type_def zero_message_def
      c_string_at_def char_of_def)

lemma sample_types: "message_type named_start = msg_code data_start" "message_type (data_of bs) = msg_code data"
  by (simp_all add: named_start_def data_of_def del: msg_code.simps)

lemma sample_buffer: "get_buffer (data_of (replicate 16 x)) = replicate 16 x"
  by (simp add: data_of_def get_set_buffer)

lemmas sample = sample_incoming sample_file_messages sample_name sample_types sample_buffer

lemma ue_download_witness:
  "\<exists>s'. ue_run sample_passes (some_ue sample_messages) = Inr s' \<and>
    ue_file s' = ClosedFile \<and> contents (ue_disk s') ''x'' = Some (replicate 16 7 @ replicate 16 9)"
  using ue_download [OF some_ue_going sample(1) _ sample(2,4) _ _ sample(3), of sample_passes]
  by (auto simp: sample old_contents_def)

end
