(* ===== verification/Ue_Threads.thy ===== *)
theory Ue_Threads
  imports Ue_Theorems
begin

text \<open>
  The threads of the user equipment, call by call.  \<open>Ue_Props\<close> takes a pass of either thread's loop
  as one step; here each call a pass makes is a step of its own, so the battery thread can come
  between the \<open>recv\<close> of the main loop and its \<open>switch\<close>, and a ping between the two halves of
  \<open>update_battery\<close>.  The mutex of the source does not prevent this: only the battery thread takes it.
\<close>

section \<open>Points of the program\<close>

text \<open>Where each thread is: the call it makes next.\<close>

datatype main_point = M_guard | M_recv | M_switch | M_after | M_join | M_exit

datatype battery_point = B_guard | B_check | B_level | B_ends | B_exit

record ue_threads =
  shared :: ue
  main_at :: main_point
  battery_at :: battery_point

abbreviation at :: "ue \<Rightarrow> main_point \<Rightarrow> battery_point \<Rightarrow> ue_threads" where
  "at s p q \<equiv> \<lparr>shared = s, main_at = p, battery_at = q\<rparr>"

section \<open>The battery thread\<close>

text \<open>The three parts of \<open>update_battery\<close>.\<close>

definition battery_check :: "ue \<Rightarrow> ue" where
  "battery_check s =
    (let (m, b, w) = check_battery_status (ue_socket s) 12 (ue_message s) (ue_bat s) (ue_net s)
     in s\<lparr>ue_message := m, ue_bat := b, ue_net := w\<rparr>)"

definition battery_level :: "ue \<Rightarrow> ue" where
  "battery_level s =
    (let (now, w) = time_now (ue_net s); b = ue_bat s in
     if 1 \<le> now - battery_time b
     then let b = b\<lparr>power_percentage :=
                to_int8 (if \<not> charging b then power_percentage b - 12 else power_percentage b + 12)\<rparr>;
              (t, w) = time_now w
          in s\<lparr>ue_bat := b\<lparr>battery_time := t\<rparr>, ue_net := w\<rparr>
     else s\<lparr>ue_net := w\<rparr>)"

definition battery_reset :: "ue \<Rightarrow> ue" where
  "battery_reset s = s\<lparr>ue_bat := battery_ends (ue_bat s)\<rparr>"

text \<open>\<open>None\<close>: the thread has ended.\<close>

fun battery_step :: "ue_threads \<Rightarrow> ue_threads option" where
  "battery_step \<lparr>shared = s, main_at = p, battery_at = B_guard\<rparr> =
    (let (go, s) = ue_guard s in Some (at s p (if go then B_check else B_exit)))"
| "battery_step \<lparr>shared = s, main_at = p, battery_at = B_check\<rparr> = Some (at (battery_check s) p B_level)"
| "battery_step \<lparr>shared = s, main_at = p, battery_at = B_level\<rparr> = Some (at (battery_level s) p B_ends)"
| "battery_step \<lparr>shared = s, main_at = p, battery_at = B_ends\<rparr> = Some (at (battery_reset s) p B_guard)"
| "battery_step \<lparr>shared = s, main_at = p, battery_at = B_exit\<rparr> = None"

section \<open>The main thread\<close>

text \<open>
  After the loop \<open>pthread_join\<close> waits for the battery thread; then the off signal is sent and \<open>main\<close>
  returns.  \<open>None\<close>: it waits, or has returned.
\<close>

fun main_step :: "ue_threads \<Rightarrow> ue_threads option res" where
  "main_step \<lparr>shared = s, main_at = M_guard, battery_at = q\<rparr> =
    (let (go, s) = ue_guard s in Inr (Some (at s (if go then M_recv else M_join) q)))"
| "main_step \<lparr>shared = s, main_at = M_recv, battery_at = q\<rparr> = Inr (Some (at (ue_recv s) M_switch q))"
| "main_step \<lparr>shared = s, main_at = M_switch, battery_at = q\<rparr> =
    bind_res (ue_switch s) (\<lambda>s. Inr (Some (at s M_after q)))"
| "main_step \<lparr>shared = s, main_at = M_after, battery_at = q\<rparr> = Inr (Some (at (ue_after_switch s) M_guard q))"
| "main_step \<lparr>shared = s, main_at = M_join, battery_at = q\<rparr> =
    Inr (if q = B_exit then Some (at (ue_finish s) M_exit q) else None)"
| "main_step \<lparr>shared = s, main_at = M_exit, battery_at = q\<rparr> = Inr None"

inductive thread_step :: "ue_threads \<Rightarrow> ue_threads \<Rightarrow> bool" where
  main_thread: "main_step t = Inr (Some t') \<Longrightarrow> thread_step t t'"
| battery_thread: "battery_step t = Some t' \<Longrightarrow> thread_step t t'"

text \<open>With the signal handler, which may run at any point.\<close>

inductive ue_threads_step :: "ue_threads \<Rightarrow> ue_threads \<Rightarrow> bool" where
  threads: "thread_step t t' \<Longrightarrow> ue_threads_step t t'"
| signal: "ue_threads_step (at s p q) (at (signal_handler signum s) p q)"

text \<open>A step, by the point of the thread that makes it.\<close>

lemma main_stepE:
  assumes "main_step t = Inr (Some t')"
  obtains (guard) s q go s' where "t = at s M_guard q" "ue_guard s = (go, s')" "t' = at s' (if go then M_recv else M_join) q"
    | (recv) s q where "t = at s M_recv q" "t' = at (ue_recv s) M_switch q"
    | (switch) s q s' where "t = at s M_switch q" "ue_switch s = Inr s'" "t' = at s' M_after q"
    | (after) s q where "t = at s M_after q" "t' = at (ue_after_switch s) M_guard q"
    | (join) s where "t = at s M_join B_exit" "t' = at (ue_finish s) M_exit B_exit"
proof (cases t)
  case (fields s p q)
  with assms that show ?thesis
    by (cases p) (auto simp: bind_res_Inr_iff split: prod.splits if_splits)
qed

lemma battery_stepE:
  assumes "battery_step t = Some t'"
  obtains (guard) s p go s' where "t = at s p B_guard" "ue_guard s = (go, s')" "t' = at s' p (if go then B_check else B_exit)"
    | (check) s p where "t = at s p B_check" "t' = at (battery_check s) p B_level"
    | (level) s p where "t = at s p B_level" "t' = at (battery_level s) p B_ends"
    | (ends) s p where "t = at s p B_ends" "t' = at (battery_reset s) p B_guard"
proof (cases t)
  case (fields s p q)
  with assms that show ?thesis by (cases q) (auto split: prod.splits)
qed

section \<open>Passes are runs of steps\<close>

lemma battery_pass_parts:
  assumes "ue_guard s = (True, s1)"
  shows "battery_thread_pass s = (True, battery_reset (battery_level (battery_check s1)))"
  using assms
  by (auto simp: battery_thread_pass_def update_battery_def battery_check_def battery_level_def battery_reset_def
      time_now_def Let_def split: prod.splits if_splits)


lemma threads_steps: "thread_step t t' \<Longrightarrow> ue_threads_step\<^sup>*\<^sup>* t t'"
  by (rule r_into_rtranclp) (rule threads)

lemma main_steps: "main_step t = Inr (Some t') \<Longrightarrow> ue_threads_step\<^sup>*\<^sup>* t t'"
  by (rule threads_steps) (rule main_thread)

lemma battery_steps: "battery_step t = Some t' \<Longrightarrow> ue_threads_step\<^sup>*\<^sup>* t t'"
  by (rule threads_steps) (rule battery_thread)

text \<open>The steps of one thread alone.\<close>

abbreviation main_alone :: "ue_threads \<Rightarrow> ue_threads \<Rightarrow> bool" where
  "main_alone t t' \<equiv> main_step t = Inr (Some t')"

abbreviation battery_alone :: "ue_threads \<Rightarrow> ue_threads \<Rightarrow> bool" where
  "battery_alone t t' \<equiv> battery_step t = Some t' \<and> main_at t = M_guard"

lemma main_pass_alone:
  assumes "ue_main_pass s = Inr (True, s')"
  shows "main_alone\<^sup>*\<^sup>* (at s M_guard q) (at s' M_guard q)"
proof -
  from assms obtain s1 s2 where g: "ue_guard s = (True, s1)" and sw: "ue_switch (ue_recv s1) = Inr s2"
    and s': "s' = ue_after_switch s2"
    by (auto simp: ue_main_pass_def ue_body_def bind_res_Inr_iff split: prod.splits if_splits)
  have "main_alone\<^sup>*\<^sup>* (at s M_guard q) (at s1 M_recv q)" by (rule r_into_rtranclp) (simp add: g)
  also have "main_alone\<^sup>*\<^sup>* \<dots> (at (ue_recv s1) M_switch q)" by (rule r_into_rtranclp) simp
  also have "main_alone\<^sup>*\<^sup>* \<dots> (at s2 M_after q)" by (rule r_into_rtranclp) (simp add: sw)
  also have "main_alone\<^sup>*\<^sup>* \<dots> (at s' M_guard q)" by (rule r_into_rtranclp) (simp add: s')
  finally show ?thesis .
qed

lemma battery_pass_alone:
  assumes "battery_thread_pass s = (True, s')"
  shows "battery_alone\<^sup>*\<^sup>* (at s M_guard B_guard) (at s' M_guard B_guard)"
proof -
  from assms obtain s1 where g: "ue_guard s = (True, s1)"
    by (auto simp: battery_thread_pass_def split: prod.splits if_splits)
  let ?s2 = "battery_check s1"
  have s': "s' = battery_reset (battery_level ?s2)" using assms battery_pass_parts [OF g] by simp
  have "battery_alone\<^sup>*\<^sup>* (at s M_guard B_guard) (at s1 M_guard B_check)" by (rule r_into_rtranclp) (simp add: g)
  also have "battery_alone\<^sup>*\<^sup>* \<dots> (at ?s2 M_guard B_level)" by (rule r_into_rtranclp) simp
  also have "battery_alone\<^sup>*\<^sup>* \<dots> (at (battery_level ?s2) M_guard B_ends)" by (rule r_into_rtranclp) simp
  also have "battery_alone\<^sup>*\<^sup>* \<dots> (at s' M_guard B_guard)" by (rule r_into_rtranclp) (simp add: s')
  finally show ?thesis .
qed

lemma main_pass_steps:
  "ue_main_pass s = Inr (True, s') \<Longrightarrow> ue_threads_step\<^sup>*\<^sup>* (at s M_guard q) (at s' M_guard q)"
  by (rule rtranclp_mono [THEN predicate2D, OF _ main_pass_alone]) (auto intro: threads main_thread)

lemma battery_pass_steps:
  "battery_thread_pass s = (True, s') \<Longrightarrow> ue_threads_step\<^sup>*\<^sup>* (at s M_guard B_guard) (at s' M_guard B_guard)"
  by (rule rtranclp_mono [THEN predicate2D, OF _ battery_pass_alone]) (auto intro: threads battery_thread)

lemma ue_step_threads: "ue_step s s' \<Longrightarrow> ue_threads_step\<^sup>*\<^sup>* (at s M_guard B_guard) (at s' M_guard B_guard)"
  by (erule ue_stepE) (auto intro: main_pass_steps battery_pass_steps signal)

text \<open>So every state the coarse machine reaches is reached here.\<close>

lemma ue_steps_threads: "ue_step\<^sup>*\<^sup>* s s' \<Longrightarrow> ue_threads_step\<^sup>*\<^sup>* (at s M_guard B_guard) (at s' M_guard B_guard)"
  by (induction rule: rtranclp_induct) (auto intro: ue_step_threads rtranclp_trans)

section \<open>The invariant\<close>

text \<open>
  Between \<open>battery_level\<close> and \<open>battery_reset\<close> the percentage may be one step below 0 or above 100.  When the
  loop condition is evaluated, and after the loop, the message buffer never holds the shutdown notice.
\<close>

definition percent_between :: "int \<Rightarrow> int \<Rightarrow> ue \<Rightarrow> bool" where
  "percent_between lo hi s \<longleftrightarrow> lo \<le> power_percentage (ue_bat s) \<and> power_percentage (ue_bat s) \<le> hi"

definition buffers_ok :: "ue \<Rightarrow> bool" where
  "buffers_ok s \<longleftrightarrow> wf_message (ue_message s) \<and> wf_message (ue_received s) \<and> cells_inv (ue_cells s)"

definition not_off :: "ue \<Rightarrow> bool" where
  "not_off s \<longleftrightarrow> message_type (ue_message s) \<noteq> msg_code enb_off"

definition threads_inv :: "ue_threads \<Rightarrow> bool" where
  "threads_inv t \<longleftrightarrow> buffers_ok (shared t) \<and> (main_at t \<in> {M_guard, M_join} \<longrightarrow> not_off (shared t)) \<and>
    (if battery_at t = B_ends then percent_between (-12) 112 (shared t) else percent_between 0 100 (shared t))"

lemma percent_between_keeps [simp]:
  "percent_between lo hi (ue_recv s) = percent_between lo hi s"
  "percent_between lo hi (ue_after_switch s) = percent_between lo hi s"
  "percent_between lo hi (ue_finish s) = percent_between lo hi s"
  "percent_between lo hi (signal_handler n s) = percent_between lo hi s"
  "percent_between lo hi (battery_check s) = percent_between lo hi s"
  using check_battery_status_keeps(1)
  by (auto simp: percent_between_def ue_recv_keeps ue_after_switch_keeps ue_finish_def signal_handler_def battery_check_def
      split: prod.splits)

lemma percent_guard: "ue_guard s = (go, s') \<Longrightarrow> percent_between lo hi s' = percent_between lo hi s"
  by (auto dest: ue_guard_keeps simp: percent_between_def)

lemma percent_ping:
  assumes "percent_between lo hi s" "-126 \<le> lo" "lo \<le> 0" "0 \<le> hi" "hi \<le> 127"
  shows "percent_between lo hi (ue_on_ping s)"
proof -
  have "lo \<le> power_percentage b' \<and> power_percentage b' \<le> hi"
    if "decrease_after_ping fd m (ue_bat s) w = (m', b', w')" for fd m w m' b' w'
  proof -
    obtain m1 b1 w1 where c: "check_battery_status fd 2 m (ue_bat s) w = (m1, b1, w1)" by (metis prod_cases3)
    have "to_int8 (power_percentage b1 - 2) = power_percentage b1 - 2"
      using assms check_battery_status_keeps(1) [OF c] by (intro to_int8_id) (auto simp: percent_between_def)
    with that c assms check_battery_status_keeps(1) [OF c] show ?thesis
      by (auto simp: decrease_after_ping_def percent_between_def Let_def split: if_splits)
  qed
  with assms(1) show ?thesis
    by (auto simp: ue_on_ping_def percent_between_def Let_def split: prod.splits)
qed

lemma percent_switch:
  assumes "ue_switch s = Inr s'" "percent_between lo hi s" "-126 \<le> lo" "lo \<le> 0" "0 \<le> hi" "hi \<le> 127"
  shows "percent_between lo hi s'"
  using ue_switch_cases [OF assms(1)]
proof (elim disjE bexE)
  fix f assume "f \<in> {ue_on_data_start, ue_on_data, ue_on_data_end}" "f s = Inr s'"
  from ue_file_handlers [OF this] assms(2) show ?thesis by (simp add: percent_between_def)
qed (use assms percent_ping in \<open>auto simp: percent_between_def ue_on_measurement_def split_beta Let_def\<close>)

lemma percent_level: "percent_between 0 100 s \<Longrightarrow> percent_between (-12) 112 (battery_level s)"
  by (auto simp: percent_between_def battery_level_def time_now_def Let_def to_int8_id)

lemma percent_reset: "percent_between 0 100 (battery_reset s)"
  by (simp add: percent_between_def battery_reset_def battery_ends_def)

lemma buffers_ok_guard: "ue_guard s = (go, s') \<Longrightarrow> buffers_ok s' = buffers_ok s \<and> not_off s' = not_off s"
  by (auto dest: ue_guard_keeps simp: buffers_ok_def not_off_def)

lemma buffers_ok_switch: "ue_switch s = Inr s' \<Longrightarrow> buffers_ok s \<Longrightarrow> buffers_ok s'"
proof -
  assume "ue_switch s = Inr s'" and b: "buffers_ok s"
  from ue_switch_cases [OF this(1)] show ?thesis
  proof (elim disjE bexE)
    fix f assume "f \<in> {ue_on_data_start, ue_on_data, ue_on_data_end}" "f s = Inr s'"
    from ue_file_handlers [OF this] b show ?thesis by (simp add: buffers_ok_def)
  next
    assume "s' = ue_on_ping s"
    with b decrease_after_ping_wf show ?thesis
      by (fastforce simp: buffers_ok_def ue_on_ping_def send_pong_def Let_def split: prod.splits)
  qed (use b in \<open>simp_all add: buffers_ok_def ue_on_measurement_def send_measurement_report_def split_beta Let_def\<close>)
qed

lemma buffers_ok_steps:
  assumes "buffers_ok s"
  shows "buffers_ok (ue_recv s)" "buffers_ok (ue_after_switch s)" "buffers_ok (ue_finish s)"
    "buffers_ok (signal_handler n s)" "buffers_ok (battery_check s)" "buffers_ok (battery_level s)" "buffers_ok (battery_reset s)"
proof -
  show "buffers_ok (ue_recv s)"
    using assms recv_bytes_length by (auto simp: buffers_ok_def ue_recv_def wf_recv_into Let_def split: prod.splits option.splits)
  show "buffers_ok (ue_after_switch s)"
    using assms cells_inv_signal_event
    by (fastforce simp: buffers_ok_def ue_after_switch_def wf_neg_type Let_def split: prod.splits)
  show "buffers_ok (battery_check s)"
    using assms check_battery_status_keeps(5) by (fastforce simp: buffers_ok_def battery_check_def Let_def split: prod.splits)
qed (use assms in \<open>simp_all add: buffers_ok_def ue_finish_def send_ue_off_signal_def signal_handler_def battery_level_def
      battery_reset_def split_beta Let_def\<close>)

lemma not_off_steps:
  "not_off (ue_after_switch s)" "not_off (signal_handler n s) = not_off s"
  "not_off s \<Longrightarrow> not_off (battery_check s)" "not_off (battery_level s) = not_off s" "not_off (battery_reset s) = not_off s"
  by (simp_all add: not_off_def ue_after_switch_keeps signal_handler_def battery_level_def battery_reset_def split_beta Let_def)
    (auto simp: battery_check_def check_battery_status_def send_low_battery_notification_def
      send_high_battery_notification_def split_beta Let_def)

lemma threads_inv_main:
  assumes "threads_inv t" "main_step t = Inr (Some t')"
  shows "threads_inv t'"
  using assms(2)
proof (cases rule: main_stepE)
  case (guard s q go s')
  with assms(1) show ?thesis
    using buffers_ok_guard [OF guard(2)] percent_guard [OF guard(2)] by (auto simp: threads_inv_def)
next
  case (switch s q s')
  with assms(1) show ?thesis
    using buffers_ok_switch [OF switch(2)] percent_switch [OF switch(2)] by (auto simp: threads_inv_def split: if_splits)
qed (use assms(1) buffers_ok_steps not_off_steps in \<open>auto simp: threads_inv_def\<close>)

lemma threads_inv_battery:
  assumes "threads_inv t" "battery_step t = Some t'"
  shows "threads_inv t'"
  using assms(2)
proof (cases rule: battery_stepE)
  case (guard s p go s')
  with assms(1) show ?thesis
    using buffers_ok_guard [OF guard(2)] percent_guard [OF guard(2)] by (auto simp: threads_inv_def)
qed (use assms(1) buffers_ok_steps not_off_steps percent_level percent_reset in \<open>auto simp: threads_inv_def\<close>)

interpretation thread_machine: invariant_machine ue_threads_step threads_inv
proof
  fix t t'
  assume inv: "threads_inv t" and "ue_threads_step t t'"
  from this(2) show "threads_inv t'"
  proof cases
    case threads
    from threads show ?thesis by cases (fact threads_inv_main [OF inv] threads_inv_battery [OF inv])+
  next
    case (signal s p q signum)
    with inv buffers_ok_steps(4) not_off_steps(2) show ?thesis by (auto simp: threads_inv_def)
  qed
qed

text \<open>The set-up buffer is written by no step.\<close>

lemma main_received:
  assumes "main_step t = Inr (Some t')"
  shows "ue_received (shared t') = ue_received (shared t)"
  using assms
proof (cases rule: main_stepE)
  case (guard s q go s')
  then show ?thesis by (auto dest: ue_guard_keeps)
next
  case (switch s q s')
  then show ?thesis using ue_switch_received by auto
qed (simp_all add: ue_recv_keeps ue_after_switch_keeps ue_finish_def split_beta Let_def)

lemma battery_received:
  assumes "battery_step t = Some t'"
  shows "ue_received (shared t') = ue_received (shared t)"
  using assms
proof (cases rule: battery_stepE)
  case (guard s p go s')
  then show ?thesis by (auto dest: ue_guard_keeps)
qed (simp_all add: battery_check_def battery_level_def battery_reset_def split_beta Let_def)

lemma threads_received:
  assumes "ue_threads_step t t'"
  shows "ue_received (shared t') = ue_received (shared t)"
  using assms
proof cases
  case threads
  then show ?thesis by cases (fact main_received battery_received)+
qed (simp add: signal_handler_def)

text \<open>The state after the set-up, with both threads in front of their loops.\<close>

lemma ue_start_not_off:
  assumes "ue_start sock conn p s = Inr (Some s')"
  shows "not_off s'"
proof -
  have "message_type (ue_message s2) = msg_code rrc_request" if "ue_rrc p s1 = Inr (Some s2)" for s1 s2
  proof -
    from that obtain r m w where q: "send_rrc_connection_request (ue_socket s1) (ue_message s1)
        (generate_ue_identity p) (ue_net s1) = Inr (r, m, w)" "r \<noteq> -1"
      by (auto simp: ue_rrc_def bind_res_Inr_iff Let_def split: if_splits)
    obtain r2 rcv m2 w2 where v: "receive_rrc_setup (ue_socket s1) (ue_received s1) m w = (r2, rcv, m2, w2)"
      by (metis prod_cases4)
    have "message_type m = msg_code rrc_request"
      using q(1) by (auto simp: send_rrc_connection_request_def bind_res_Inr_iff Let_def split_beta)
    moreover have "m2 = m" using v by (auto simp: receive_rrc_setup_def Let_def split: prod.splits option.splits)
    moreover have "ue_message s2 = m2" using that q v by (auto simp: ue_rrc_def)
    ultimately show ?thesis by simp
  qed
  with assms show ?thesis
    by (fastforce simp: ue_start_def ue_rach_def not_off_def Let_def split: prod.splits if_splits)
qed

lemma ue_start_threads_inv:
  assumes "length (cells_signals (ue_cells s)) = 2" "rand_ok (ue_net s)" "wf_message (ue_message s)"
    "wf_message (ue_received s)" "ue_start sock conn p s = Inr (Some s')"
  shows "threads_inv (at s' M_guard B_guard)"
  using ue_start_inv [OF assms] ue_start_not_off [OF assms(5)]
  by (simp add: threads_inv_def buffers_ok_def ue_inv_def percent_between_def battery_inv_def)

section \<open>Ending\<close>

text \<open>How many steps a thread can still make once the loop condition has become false.\<close>

fun main_left :: "main_point \<Rightarrow> nat" where
  "main_left M_recv = 5" | "main_left M_switch = 4" | "main_left M_after = 3"
| "main_left M_guard = 2" | "main_left M_join = 1" | "main_left M_exit = 0"

fun battery_left :: "battery_point \<Rightarrow> nat" where
  "battery_left B_check = 4" | "battery_left B_level = 3" | "battery_left B_ends = 2"
| "battery_left B_guard = 1" | "battery_left B_exit = 0"

definition steps_left :: "ue_threads \<Rightarrow> nat" where
  "steps_left t = main_left (main_at t) + battery_left (battery_at t)"

lemma steps_left_bound: "steps_left t \<le> 9"
  by (cases "main_at t"; cases "battery_at t") (simp_all add: steps_left_def)

lemma stopping_step:
  assumes "thread_step t t'" "\<not> ue_running (shared t)"
  shows "\<not> ue_running (shared t') \<and> steps_left t' < steps_left t"
  using assms(1)
proof cases
  case main_thread
  then show ?thesis
  proof (cases rule: main_stepE)
    case (guard s q go s')
    then show ?thesis using assms(2) by (auto simp: steps_left_def ue_guard_def)
  next
    case (switch s q s')
    then show ?thesis using assms(2) ue_switch_received [OF switch(2)] by (simp add: steps_left_def)
  qed (use assms(2) in \<open>simp_all add: steps_left_def ue_recv_keeps ue_after_switch_keeps ue_finish_def split_beta Let_def\<close>)
next
  case battery_thread
  then show ?thesis
  proof (cases rule: battery_stepE)
    case (guard s p go s')
    then show ?thesis using assms(2) by (auto simp: steps_left_def ue_guard_def)
  qed (use assms(2) in \<open>simp_all add: steps_left_def battery_check_def battery_level_def battery_reset_def split_beta Let_def\<close>)
qed

lemma stopping_steps:
  "(thread_step ^^ n) t t' \<Longrightarrow> \<not> ue_running (shared t) \<Longrightarrow> \<not> ue_running (shared t') \<and> steps_left t' + n \<le> steps_left t"
proof (induction n arbitrary: t')
  case (Suc n)
  then obtain u where u: "(thread_step ^^ n) t u" "thread_step u t'" by auto
  from Suc.IH [OF u(1) Suc.prems(2)] stopping_step [OF u(2)] show ?case by auto
qed simp

text \<open>In a state without a next step the main thread has crashed in a handler, or both threads are at their end.\<close>

lemma no_step_end:
  assumes "\<And>t'. \<not> thread_step t t'"
  shows "main_at t = M_exit \<and> battery_at t = B_exit \<or> (\<exists>e. main_step t = Inl e)"
proof (cases t)
  case (fields s p q)
  have "battery_step t = None" using assms battery_thread [of t] by (cases "battery_step t") auto
  then have q: "q = B_exit" by (cases q) (auto simp: fields split: prod.splits)
  show ?thesis
  proof (cases "main_step t")
    case (Inr r)
    then have "r = None" using assms main_thread [of t] by (cases r) auto
    with Inr show ?thesis by (cases p) (auto simp: fields q bind_res_Inr_iff split: prod.splits)
  qed simp
qed


text \<open>The end: neither the socket nor the results of \<open>write\<close> change, and the last message is the off signal.\<close>

lemma write_res_battery:
  "write_res (snd (snd (check_battery_status fd st m b w))) = write_res w"
  "write_res (snd (snd (decrease_after_ping fd m b w))) = write_res w"
proof -
  show c: "write_res (snd (snd (check_battery_status fd st m b w))) = write_res w" for st m b w
    by (simp add: check_battery_status_def send_low_battery_notification_def send_high_battery_notification_def
        write_msg_def split_beta Let_def)
  show "write_res (snd (snd (decrease_after_ping fd m b w))) = write_res w"
    by (simp add: decrease_after_ping_def split_beta Let_def c)
qed

lemma write_res_switch:
  assumes "ue_switch s = Inr s'"
  shows "write_res (ue_net s') = write_res (ue_net s) \<and> ue_socket s' = ue_socket s"
  using ue_switch_cases [OF assms]
proof (elim disjE bexE)
  fix f assume "f \<in> {ue_on_data_start, ue_on_data, ue_on_data_end}" "f s = Inr s'"
  from ue_file_handlers [OF this] show ?thesis by simp
qed (simp_all add: ue_on_ping_def send_pong_def ue_on_measurement_def send_measurement_report_def write_msg_def split_beta
    Let_def write_res_battery)

lemma write_res_guard: "ue_guard s = (go, s') \<Longrightarrow> write_res (ue_net s') = write_res (ue_net s) \<and> ue_socket s' = ue_socket s"
  by (auto simp: ue_guard_def check_for_shutdown_def close_fd_def Let_def split: if_splits)

lemma write_res_steps:
  "write_res (ue_net (ue_recv s)) = write_res (ue_net s)" "ue_socket (ue_recv s) = ue_socket s"
  "write_res (ue_net (ue_after_switch s)) = write_res (ue_net s)" "ue_socket (ue_after_switch s) = ue_socket s"
  "write_res (ue_net (battery_check s)) = write_res (ue_net s)" "ue_socket (battery_check s) = ue_socket s"
  "write_res (ue_net (battery_level s)) = write_res (ue_net s)" "ue_socket (battery_level s) = ue_socket s"
  "ue_net (battery_reset s) = ue_net s" "ue_socket (battery_reset s) = ue_socket s"
  by (simp_all add: ue_recv_def ue_after_switch_def set_current_signal_event_def update_rsrps_def battery_check_def
      battery_level_def battery_reset_def env_defs split_beta write_res_battery)

text \<open>What holds on the way to the end, relative to the invariant.\<close>

definition ending :: "int \<Rightarrow> ue_threads \<Rightarrow> bool" where
  "ending fd t \<longleftrightarrow> threads_inv t \<and> writes_ok (ue_net (shared t)) \<and> ue_socket (shared t) = fd \<and>
    (main_at t = M_exit \<longrightarrow> battery_at t = B_exit \<and>
      (\<exists>m. last (outbox (ue_net (shared t))) = (fd, m) \<and> message_type m = msg_code ue_off))"

lemma ue_finish_sends:
  assumes "not_off s" "writes_ok (ue_net s)"
  shows "\<exists>m. outbox (ue_net (ue_finish s)) = outbox (ue_net s) @ [(ue_socket s, m)] \<and> message_type m = msg_code ue_off"
    and "writes_ok (ue_net (ue_finish s))" "ue_socket (ue_finish s) = ue_socket s"
  using assms
  by (simp_all add: ue_finish_def not_off_def send_ue_off_signal_def write_msg_ok writes_okD Let_def split_beta)

lemma ending_step:
  assumes "ending fd t" "thread_step t t'"
  shows "ending fd t'"
proof -
  have inv: "threads_inv t" using assms(1) by (simp add: ending_def)
  then have inv': "threads_inv t'" using assms(2) thread_machine.step_inv threads by blast
  from assms(2) show ?thesis
  proof cases
    case main_thread
    then show ?thesis
    proof (cases rule: main_stepE)
      case (guard s q go s')
      then show ?thesis using assms(1) inv' write_res_guard [OF guard(2)] by (auto simp: ending_def writes_ok_def)
    next
      case (switch s q s')
      then show ?thesis using assms(1) inv' write_res_switch [OF switch(2)] by (auto simp: ending_def writes_ok_def)
    next
      case (join s)
      have "not_off s" "writes_ok (ue_net s)" using inv assms(1) join(1) by (simp_all add: threads_inv_def ending_def)
      from ue_finish_sends [OF this] show ?thesis using assms(1) inv' join by (auto simp: ending_def)
    qed (use assms(1) inv' write_res_steps in \<open>simp_all add: ending_def writes_ok_def\<close>)
  next
    case battery_thread
    then show ?thesis
    proof (cases rule: battery_stepE)
      case (guard s p go s')
      then show ?thesis using assms(1) inv' write_res_guard [OF guard(2)] by (auto simp: ending_def writes_ok_def)
    qed (use assms(1) inv' write_res_steps in \<open>auto simp: ending_def writes_ok_def\<close>)
  qed
qed

lemma ending_steps: "(thread_step ^^ n) t t' \<Longrightarrow> ending fd t \<Longrightarrow> ending fd t'"
  by (induction n arbitrary: t') (auto intro: ending_step)


section \<open>Properties\<close>

text \<open>C21. After a successful start, whatever the order in which the calls of the main loop and of the battery thread
  and the signals come: the message buffers have the right shape, the signals stay between 0 and 97, the battery stays
  between 0 and 100 except while the battery thread is about to correct an overshoot of at most one step of 12, which
  is within eight bits, and the set-up buffer is never written again.\<close>

theorem ue_threads_invariant:
  assumes "length (cells_signals (ue_cells s0)) = 2" "rand_ok (ue_net s0)" "wf_message (ue_message s0)"
    "wf_message (ue_received s0)" "ue_start sock conn p s0 = Inr (Some s)"
    "ue_threads_step\<^sup>*\<^sup>* (at s M_guard B_guard) t"
  shows "-12 \<le> power_percentage (ue_bat (shared t)) \<and> power_percentage (ue_bat (shared t)) \<le> 112 \<and>
    (battery_at t \<noteq> B_ends \<longrightarrow> 0 \<le> power_percentage (ue_bat (shared t)) \<and> power_percentage (ue_bat (shared t)) \<le> 100) \<and>
    (\<forall>i < 2. 0 \<le> rsrp (cells_signals (ue_cells (shared t)) ! i) \<and> rsrp (cells_signals (ue_cells (shared t)) ! i) \<le> 97) \<and>
    wf_message (ue_message (shared t)) \<and> ue_received (shared t) = ue_received s"
proof -
  have inv: "threads_inv (at s M_guard B_guard)" by (rule ue_start_threads_inv [OF assms(1-5)])
  have "threads_inv t" by (rule thread_machine.reachable_inv [OF assms(6) inv])
  moreover have "ue_received (shared t) = ue_received (shared (at s M_guard B_guard))"
    by (rule thread_machine.reachable_constant [OF assms(6) inv]) (rule threads_received)
  moreover have "i = 0 \<or> i = 1" if "i < 2" for i :: nat using that by auto
  ultimately show ?thesis
    by (auto simp: threads_inv_def buffers_ok_def percent_between_def cells_inv_def signal_inv_def split: if_splits)
qed

lemma ue_threads_invariant_witness:
  "\<exists>s t. ue_start 4 0 7 (some_ue [Some (msg_of_type random_access_response), Some (msg_of_type rrc_setup)]) = Inr (Some s) \<and>
    ue_threads_step\<^sup>*\<^sup>* (at s M_guard B_guard) t \<and> \<not> ue_running (shared t) \<and> power_percentage (ue_bat (shared t)) \<le> 100"
proof -
  obtain s where s: "ue_start 4 0 7 (some_ue [Some (msg_of_type random_access_response), Some (msg_of_type rrc_setup)]) = Inr (Some s)"
    using some_ue_starts by blast
  let ?t = "at (signal_handler 2 s) M_guard B_guard"
  have st: "ue_threads_step\<^sup>*\<^sup>* (at s M_guard B_guard) ?t" by (rule r_into_rtranclp) (rule signal)
  have "\<not> ue_running (shared ?t)" by (simp add: signal_handler_def)
  with ue_threads_invariant [OF some_ue_start_conditions s st] s st show ?thesis by (intro exI [of _ s] exI [of _ ?t]) simp
qed

text \<open>C12. Once a signal has come the user equipment ends, whatever the schedule: from any point at most nine calls
  are made; when no thread can go on, then unless a handler has crashed both threads are at their end, and the last
  message sent is the off signal.\<close>

theorem ue_ends_after_signal:
  assumes "threads_inv t" "writes_ok (ue_net (shared t))" "\<not> ue_running (shared t)" "main_at t \<noteq> M_exit"
    "(thread_step ^^ n) t t'"
  shows "n \<le> 9 \<and> ((\<exists>t''. thread_step t' t'') \<or> (\<exists>e. main_step t' = Inl e) \<or>
    main_at t' = M_exit \<and> battery_at t' = B_exit \<and>
    (\<exists>m. last (outbox (ue_net (shared t'))) = (ue_socket (shared t), m) \<and> message_type m = msg_code ue_off))"
proof -
  have "ending (ue_socket (shared t)) t" using assms(1,2,4) by (simp add: ending_def)
  from ending_steps [OF assms(5) this] have e: "ending (ue_socket (shared t)) t'" .
  have "n \<le> 9" using stopping_steps [OF assms(5,3)] steps_left_bound [of t] by simp
  with e no_step_end [of t'] show ?thesis by (auto simp: ending_def)
qed

lemma ue_ends_after_signal_witness:
  "\<exists>t'. (thread_step ^^ 3) (at (signal_handler 2 (some_ue [])) M_guard B_guard) t' \<and> main_at t' = M_exit \<and>
    (\<exists>m. last (outbox (ue_net (shared t'))) = (4, m) \<and> message_type m = 9)"
proof -
  let ?s = "signal_handler 2 (some_ue [])"
  let ?t = "at (ue_finish ?s) M_exit B_exit"
  have i: "threads_inv (at ?s M_guard B_guard)"
    using some_ue_going [of "[]"]
    by (simp add: threads_inv_def buffers_ok_def ue_going_def ue_inv_def percent_between_def battery_inv_def not_off_def
        signal_handler_def) (simp add: some_ue_def)
  have w: "writes_ok (ue_net ?s)" "\<not> ue_running ?s" "ue_socket ?s = 4" by (simp_all add: signal_handler_def)
  have g: "ue_guard ?s = (False, ?s)" using w(2) by (simp add: ue_guard_def)
  have "thread_step (at ?s M_guard B_guard) (at ?s M_guard B_exit)" by (rule battery_thread) (simp add: g)
  moreover have "thread_step (at ?s M_guard B_exit) (at ?s M_join B_exit)" by (rule main_thread) (simp add: g)
  moreover have "thread_step (at ?s M_join B_exit) ?t" by (rule main_thread) simp
  ultimately have st: "(thread_step ^^ 3) (at ?s M_guard B_guard) ?t" by (auto simp: numeral_3_eq_3)
  have "\<not> thread_step ?t t''" for t'' by (auto elim: thread_step.cases)
  with ue_ends_after_signal [OF i _ _ _ st] w st show ?thesis by auto
qed

text \<open>C13. A message can be lost between the threads: if the battery thread finds the battery low just after a message has
  been received and before it is looked at, it overwrites the type of the message.  Whatever the message was (a ping,
  a piece of a file), it is gone, unanswered and without effect on the download; only the notification has been sent,
  and with the contents of that message.\<close>

theorem message_lost_to_battery:
  assumes "ue_going s" "writes_ok (ue_net s)" "wf_message m" "recv_next s = Some (msg_bytes m)"
    and "8 < power_percentage (ue_bat s)" "power_percentage (ue_bat s) \<le> 20" "\<not> charging (ue_bat s)"
    "\<not> sent_notification (ue_bat s)"
  shows "\<exists>t. ue_threads_step\<^sup>*\<^sup>* (at s M_guard B_guard) t \<and> main_at t = M_guard \<and>
    recvs (ue_net (shared t)) = Suc (recvs (ue_net s)) \<and>
    outbox (ue_net (shared t)) = outbox (ue_net s) @ [(ue_socket s, set_type m ue_battery_low)] \<and>
    dl_of (shared t) = dl_of s"
proof -
  have g: "ue_guard s = (True, s)" and wf: "wf_message (ue_message s)"
    using assms(1) by (simp_all add: ue_going_def ue_guard_not_off ue_inv_def)
  let ?r = "ue_recv s"
  have r: "ue_message ?r = m" "recvs (ue_net ?r) = Suc (recvs (ue_net s))" "writes_ok (ue_net ?r)"
    using ue_recv_message [OF wf, of "Some m"] assms(2-4) by (simp_all add: recv_part_def writes_ok_def ue_recv_outbox)
  define c where "c = battery_check ?r"
  have c: "ue_message c = set_type m ue_battery_low" "dl_of c = dl_of s" "recvs (ue_net c) = Suc (recvs (ue_net s))"
    "outbox (ue_net c) = outbox (ue_net s) @ [(ue_socket s, set_type m ue_battery_low)]"
    using assms(5-8) r
    by (simp_all add: c_def battery_check_def check_battery_status_def send_low_battery_notification_def write_msg_ok
        writes_okD ue_recv_keeps ue_recv_outbox low_battery_threshold_def dl_of_def Let_def del: msg_code.simps)
  have sw: "ue_switch c = Inr c" by (simp add: ue_switch_def c(1) msg_label_code del: msg_code.simps)
  have "ue_threads_step\<^sup>*\<^sup>* (at s M_guard B_guard) (at s M_guard B_check)" by (rule battery_steps) (simp add: g)
  also have "ue_threads_step\<^sup>*\<^sup>* \<dots> (at s M_recv B_check)" by (rule main_steps) (simp add: g)
  also have "ue_threads_step\<^sup>*\<^sup>* \<dots> (at ?r M_switch B_check)" by (rule main_steps) simp
  also have "ue_threads_step\<^sup>*\<^sup>* \<dots> (at c M_switch B_level)" by (rule battery_steps) (simp add: c_def)
  also have "ue_threads_step\<^sup>*\<^sup>* \<dots> (at c M_after B_level)" by (rule main_steps) (simp add: sw)
  also have "ue_threads_step\<^sup>*\<^sup>* \<dots> (at (ue_after_switch c) M_guard B_level)" by (rule main_steps) simp
  finally have st: "ue_threads_step\<^sup>*\<^sup>* (at s M_guard B_guard) (at (ue_after_switch c) M_guard B_level)" .
  have "recvs (ue_net (ue_after_switch c)) = recvs (ue_net c)"
    using recv_part_after_switch [of c] by (simp add: recv_part_def)
  with st c show ?thesis
    by (intro exI [of _ "at (ue_after_switch c) M_guard B_level"])
      (simp add: ue_after_switch_outbox dl_of_def ue_after_switch_keeps)
qed

lemma message_lost_to_battery_witness:
  "\<exists>t. ue_threads_step\<^sup>*\<^sup>* (at (some_ue [Some (msg_of_type ping)]) M_guard B_guard) t \<and> recvs (ue_net (shared t)) = 1 \<and>
    outbox (ue_net (shared t)) = [(4, set_type (msg_of_type ping) ue_battery_low)]"
proof -
  let ?s = "some_ue [Some (msg_of_type ping)]"
  have b: "\<not> charging (ue_bat ?s)" "\<not> sent_notification (ue_bat ?s)" "recvs (ue_net ?s) = 0"
    by (simp_all add: some_ue_def quiet_net_def)
  have "writes_ok (ue_net ?s)" "recv_next ?s = Some (msg_bytes (msg_of_type ping))" "8 < power_percentage (ue_bat ?s)"
    "power_percentage (ue_bat ?s) \<le> 20" by simp_all
  from message_lost_to_battery [OF some_ue_going this(1) wf_msg_of_type this(2-4) b(1,2)] b(3) show ?thesis by auto
qed

end
