(* ===== verification/Ue_Calm.thy ===== *)
theory Ue_Calm
  imports Ue_Threads
begin

text \<open>
  Downloads under every schedule of the two threads, call by call, in which the battery is not
  checked between a \<open>recv\<close> and the \<open>switch\<close> that looks at the message: the critical section that a
  mutex taken by both threads would give.  \<open>message_lost_to_battery\<close> shows that this is needed.
\<close>

section \<open>Calm steps\<close>

inductive calm_step :: "ue_threads \<Rightarrow> ue_threads \<Rightarrow> bool" where
  calm_main: "main_step t = Inr (Some t') \<Longrightarrow> calm_step t t'"
| calm_battery: "battery_step t = Some t' \<Longrightarrow> \<not> (main_at t = M_switch \<and> battery_at t = B_check) \<Longrightarrow> calm_step t t'"
| calm_signal: "calm_step (at s p q) (at (signal_handler signum s) p q)"

lemma calm_threads: "calm_step t t' \<Longrightarrow> ue_threads_step t t'"
  by (induction rule: calm_step.induct) (auto intro: ue_threads_step.intros thread_step.intros)

text \<open>The schedules of whole passes are calm.\<close>

lemma main_pass_calm: "ue_main_pass s = Inr (True, s') \<Longrightarrow> calm_step\<^sup>*\<^sup>* (at s M_guard q) (at s' M_guard q)"
  by (rule rtranclp_mono [THEN predicate2D, OF _ main_pass_alone]) (auto intro: calm_main)

lemma battery_pass_calm:
  "battery_thread_pass s = (True, s') \<Longrightarrow> calm_step\<^sup>*\<^sup>* (at s M_guard B_guard) (at s' M_guard B_guard)"
  by (rule rtranclp_mono [THEN predicate2D, OF _ battery_pass_alone]) (auto intro: calm_battery)

lemma ue_run_calm:
  assumes "ue_going s" "incoming s mos" "length (filter (\<lambda>op. op = Main_pass) ops) = length mos" "ue_run ops s = Inr s'"
  shows "calm_step\<^sup>*\<^sup>* (at s M_guard B_guard) (at s' M_guard B_guard)"
  using assms
proof (induction ops arbitrary: s mos)
  case (Cons op ops)
  show ?case
  proof (cases op)
    case Battery_pass
    from battery_pass_going [OF Cons.prems(1)] obtain s1 where
      s1: "battery_thread_pass s = (True, s1)" "ue_going s1" "recv_part (ue_net s1) = recv_part (ue_net s)" by blast
    then have "incoming s1 mos" using Cons.prems(2) by (simp add: incoming_def recv_part_def)
    from Cons.IH [OF s1(2) this] Cons.prems(3,4) Battery_pass s1(1)
    have "calm_step\<^sup>*\<^sup>* (at s1 M_guard B_guard) (at s' M_guard B_guard)" by simp
    with battery_pass_calm [OF s1(1)] show ?thesis by (rule rtranclp_trans)
  next
    case Main_pass
    with Cons.prems(3) obtain mo mos' where mos: "mos = mo # mos'" by (cases mos) auto
    note inc = incoming_Cons [OF Cons.prems(2) [unfolded mos]]
    from Cons.prems(4) Main_pass obtain go s1 where p: "ue_main_pass s = Inr (go, s1)"
      by (auto simp: bind_res_Inr_iff)
    from main_pass_going(2) [OF Cons.prems(1) inc(1,2) p]
    have s1: "go" "ue_going s1" "recv_part (ue_net s1) = (recv_res (ue_net s), Suc (recvs (ue_net s)))" by blast+
    from Cons.IH [OF s1(2) inc(3) [OF s1(3)]] Cons.prems(3,4) Main_pass mos p s1(1)
    have "calm_step\<^sup>*\<^sup>* (at s1 M_guard B_guard) (at s' M_guard B_guard)" by simp
    with main_pass_calm [of s s1 B_guard] p s1(1) show ?thesis by (auto intro: rtranclp_trans)
  qed
qed simp

section \<open>The calls and the download\<close>

lemma dl_of_steps:
  "ue_guard s = (go, s') \<Longrightarrow> dl_of s' = dl_of s" "dl_of (ue_recv s) = dl_of s" "dl_of (ue_after_switch s) = dl_of s"
  "dl_of (ue_finish s) = dl_of s" "dl_of (signal_handler n s) = dl_of s" "dl_of (battery_check s) = dl_of s"
  "dl_of (battery_level s) = dl_of s" "dl_of (battery_reset s) = dl_of s"
  by (auto simp: dl_of_def ue_guard_def ue_recv_keeps ue_after_switch_keeps ue_finish_def signal_handler_def
      battery_check_def battery_level_def battery_reset_def split_beta Let_def split: if_splits)

lemma recv_part_steps:
  "ue_guard s = (go, s') \<Longrightarrow> recv_part (ue_net s') = recv_part (ue_net s)"
  "recv_part (ue_net (ue_finish s)) = recv_part (ue_net s)"
  "recv_part (ue_net (signal_handler n s)) = recv_part (ue_net s)"
  "recv_part (ue_net (battery_check s)) = recv_part (ue_net s)"
  "recv_part (ue_net (battery_level s)) = recv_part (ue_net s)"
  "recv_part (ue_net (battery_reset s)) = recv_part (ue_net s)"
  "recv_part (ue_net (ue_recv s)) = (recv_res (ue_net s), Suc (recvs (ue_net s)))"
proof -
  show "recv_part (ue_net s') = recv_part (ue_net s)" if "ue_guard s = (go, s')"
    using that by (auto simp: ue_guard_def check_for_shutdown_def close_fd_def recv_part_def Let_def split: if_splits)
qed (simp_all add: ue_finish_def send_ue_off_signal_def signal_handler_def battery_check_def battery_level_def
    battery_reset_def ue_recv_def recv_bytes_def split_beta Let_def recv_part_calls recv_part_check, simp add: recv_part_def)

lemma idle_steps:
  "ue_guard s = (go, s') \<Longrightarrow> ue_idle s' = ue_idle s" "ue_idle (signal_handler n s) = ue_idle s"
  "ue_idle s \<Longrightarrow> ue_idle (battery_check s)" "ue_idle (battery_level s) = ue_idle s" "ue_idle (battery_reset s) = ue_idle s"
proof -
  show "ue_idle s' = ue_idle s" if "ue_guard s = (go, s')"
    using ue_guard_keeps [OF that] by (simp add: ue_idle_def)
  show "ue_idle s \<Longrightarrow> ue_idle (battery_check s)"
    by (auto simp: ue_idle_def battery_check_def check_battery_status_def send_low_battery_notification_def
      send_high_battery_notification_def Let_def simp del: msg_code.simps split: prod.splits if_splits)
qed (simp_all add: ue_idle_def signal_handler_def battery_level_def battery_reset_def split_beta Let_def)

lemma main_step_crash:
  assumes "main_step t = Inl e"
  obtains u q where "t = at u M_switch q" "ue_switch u = Inl e"
proof (cases t)
  case (fields s p q)
  with assms that show ?thesis by (cases p; cases "ue_switch s") (auto split: prod.splits)
qed

section \<open>The invariant\<close>

text \<open>
  How many messages have arrived since the state \<open>s\<close>.  The download has taken all of them, except that
  between \<open>recv\<close> and \<open>switch\<close> the last one is still in the buffer; elsewhere in front of the next \<open>recv\<close> the
  buffer holds nothing the \<open>switch\<close> would handle.
\<close>

definition arrived :: "ue \<Rightarrow> ue_threads \<Rightarrow> nat" where
  "arrived s t = recvs (ue_net (shared t)) - recvs (ue_net s)"

definition reception_ok :: "ue \<Rightarrow> ue_threads \<Rightarrow> bool" where
  "reception_ok s t \<longleftrightarrow> buffers_ok (shared t) \<and> recv_res (ue_net (shared t)) = recv_res (ue_net s) \<and>
    recvs (ue_net s) \<le> recvs (ue_net (shared t))"

definition in_step :: "ue \<Rightarrow> s_message option list \<Rightarrow> ue_threads \<Rightarrow> bool" where
  "in_step s mos t \<longleftrightarrow>
    (if main_at t = M_switch
     then 0 < arrived s t \<and> dl_run (take (arrived s t - 1) mos) (dl_of s) = Inr (dl_of (shared t)) \<and>
       (\<forall>st. dl_step (Some (ue_message (shared t))) st = dl_step (mos ! (arrived s t - 1)) st)
     else dl_run (take (arrived s t) mos) (dl_of s) = Inr (dl_of (shared t)) \<and>
       (main_at t \<in> {M_guard, M_recv} \<longrightarrow> ue_idle (shared t)))"

definition download_inv :: "ue \<Rightarrow> s_message option list \<Rightarrow> ue_threads \<Rightarrow> bool" where
  "download_inv s mos t \<longleftrightarrow> incoming s mos \<and> reception_ok s t \<and> (arrived s t \<le> length mos \<longrightarrow> in_step s mos t)"

text \<open>Steps that neither receive nor look at the message.\<close>

lemma download_inv_same:
  assumes "download_inv s mos (at u p q)" "recv_part (ue_net u') = recv_part (ue_net u)" "dl_of u' = dl_of u" "buffers_ok u'"
    and "p = M_switch \<longleftrightarrow> p' = M_switch" "p = M_switch \<Longrightarrow> ue_message u' = ue_message u"
    and "p' \<in> {M_guard, M_recv} \<Longrightarrow> ue_idle u \<or> p \<notin> {M_guard, M_recv} \<Longrightarrow> ue_idle u'"
  shows "download_inv s mos (at u' p' q')"
proof -
  have "arrived s (at u' p' q') = arrived s (at u p q)" using assms(2) by (simp add: arrived_def recv_part_def)
  with assms show ?thesis by (auto simp: download_inv_def reception_ok_def in_step_def recv_part_def)
qed

lemma dl_run_snoc: "i < length mos \<Longrightarrow> dl_run (take (Suc i) mos) st = bind_res (dl_run (take i mos) st) (dl_step (mos ! i))"
  by (simp add: take_Suc_conv_app_nth dl_run_append) (cases "dl_run (take i mos) st"; simp; cases "dl_step (mos ! i) (projr (dl_run (take i mos) st))"; simp)

lemma download_inv_recv:
  assumes "download_inv s mos (at u M_recv q)"
  shows "download_inv s mos (at (ue_recv u) M_switch q)"
proof -
  let ?t = "at u M_recv q" and ?t' = "at (ue_recv u) M_switch q"
  have r: "recv_part (ue_net (ue_recv u)) = (recv_res (ue_net u), Suc (recvs (ue_net u)))" by (rule recv_part_steps)
  have inc: "incoming s mos" and rc: "reception_ok s ?t" using assms by (simp_all add: download_inv_def)
  have rc': "reception_ok s ?t'"
    using rc r buffers_ok_steps(1) by (simp add: reception_ok_def recv_part_def)
  have a: "arrived s ?t' = Suc (arrived s ?t)" using rc r by (simp add: arrived_def reception_ok_def recv_part_def Suc_diff_le)
  have "in_step s mos ?t'" if len: "arrived s ?t' \<le> length mos"
  proof -
    let ?i = "arrived s ?t"
    have st: "dl_run (take ?i mos) (dl_of s) = Inr (dl_of u)" "ue_idle u"
      using assms len a by (simp_all add: download_inv_def in_step_def)
    have n: "recv_next u = map_option msg_bytes (mos ! ?i)" "pred_option wf_message (mos ! ?i)"
      using inc [unfolded incoming_def, rule_format, of ?i] len a rc
      by (simp_all add: recv_next_def reception_ok_def arrived_def)
    have "wf_message (ue_message u)" using rc by (simp add: reception_ok_def buffers_ok_def)
    from ue_recv_message(1) [OF this n] have "dl_step (Some (ue_message (ue_recv u))) st' = dl_step (mos ! ?i) st'" for st'
      using dl_step_idle [OF st(2)] by (simp split: option.splits)
    with st show ?thesis by (simp add: in_step_def a dl_of_steps)
  qed
  with inc rc' show ?thesis by (simp add: download_inv_def)
qed

lemma in_step_switch:
  assumes "in_step s mos (at u M_switch q)" "arrived s (at u M_switch q) \<le> length mos"
  shows "dl_run (take (arrived s (at u M_switch q)) mos) (dl_of s) = bind_res (ue_switch u) (\<lambda>u'. Inr (dl_of u'))"
proof -
  let ?t = "at u M_switch q"
  let ?i = "arrived s ?t - 1"
  have i: "Suc ?i = arrived s ?t" "?i < length mos" "dl_run (take ?i mos) (dl_of s) = Inr (dl_of u)"
    "dl_step (Some (ue_message u)) (dl_of u) = dl_step (mos ! ?i) (dl_of u)"
    using assms by (simp_all add: in_step_def del: dl_step.simps split_paired_All) arith
  have "dl_run (take (arrived s ?t) mos) (dl_of s) = bind_res (dl_run (take ?i mos) (dl_of s)) (dl_step (mos ! ?i))"
    using dl_run_snoc [OF i(2), of "dl_of s"] i(1) by simp
  then show ?thesis using i(3,4) ue_switch_dl [of u] by simp
qed

lemma download_inv_switch:
  assumes "download_inv s mos (at u M_switch q)" "ue_switch u = Inr u'"
  shows "download_inv s mos (at u' M_after q)"
proof -
  have r: "recv_part (ue_net u') = recv_part (ue_net u)" by (rule recv_part_switch [OF assms(2)])
  have a: "arrived s (at u' M_after q) = arrived s (at u M_switch q)" using r by (simp add: arrived_def recv_part_def)
  have "in_step s mos (at u' M_after q)" if "arrived s (at u M_switch q) \<le> length mos"
    using in_step_switch [of s mos u q] assms that by (simp add: download_inv_def in_step_def a)
  with assms r a buffers_ok_switch [OF assms(2)] show ?thesis
    by (simp add: download_inv_def reception_ok_def recv_part_def)
qed

lemma download_inv_main:
  assumes "download_inv s mos t" "main_step t = Inr (Some t')"
  shows "download_inv s mos t'"
proof -
  have b: "buffers_ok (shared t)" using assms(1) by (simp add: download_inv_def reception_ok_def)
  from assms(2) show ?thesis
  proof (cases rule: main_stepE)
    case (guard u q go u')
    with assms(1) b buffers_ok_guard [OF guard(2)] idle_steps(1) [OF guard(2)] show ?thesis
      by (auto intro!: download_inv_same [of s mos u M_guard q] simp: recv_part_steps(1) [OF guard(2)] dl_of_steps(1) [OF guard(2)])
  next
    case (recv u q)
    with assms(1) show ?thesis by (simp add: download_inv_recv)
  next
    case (switch u q u')
    with assms(1) show ?thesis by (simp add: download_inv_switch)
  next
    case (after u q)
    with assms(1) b show ?thesis
      by (auto intro!: download_inv_same [of s mos u M_after q] buffers_ok_steps
          simp: recv_part_after_switch dl_of_steps ue_after_switch_idle)
  next
    case (join u)
    with assms(1) b show ?thesis
      by (auto intro!: download_inv_same [of s mos u M_join B_exit] buffers_ok_steps simp: recv_part_steps dl_of_steps)
  qed
qed

lemma download_inv_battery:
  assumes "download_inv s mos t" "battery_step t = Some t'" "\<not> (main_at t = M_switch \<and> battery_at t = B_check)"
  shows "download_inv s mos t'"
proof -
  have b: "buffers_ok (shared t)" using assms(1) by (simp add: download_inv_def reception_ok_def)
  from assms(2) show ?thesis
  proof (cases rule: battery_stepE)
    case (guard u p go u')
    with assms(1) b buffers_ok_guard [OF guard(2)] idle_steps(1) [OF guard(2)] ue_guard_keeps [OF guard(2)] show ?thesis
      by (auto intro!: download_inv_same [of s mos u p B_guard] simp: recv_part_steps(1) [OF guard(2)] dl_of_steps(1) [OF guard(2)])
  next
    case (check u p)
    with assms(1,3) b show ?thesis
      by (auto intro!: download_inv_same [of s mos u p B_check] buffers_ok_steps idle_steps(3) simp: recv_part_steps dl_of_steps)
  next
    case (level u p)
    have "ue_message (battery_level u) = ue_message u" by (simp add: battery_level_def split_beta Let_def)
    with level assms(1) b show ?thesis
      by (auto intro!: download_inv_same [of s mos u p B_level] buffers_ok_steps simp: recv_part_steps dl_of_steps idle_steps)
  next
    case (ends u p)
    have "ue_message (battery_reset u) = ue_message u" by (simp add: battery_reset_def)
    with ends assms(1) b show ?thesis
      by (auto intro!: download_inv_same [of s mos u p B_ends] buffers_ok_steps simp: recv_part_steps dl_of_steps idle_steps)
  qed
qed

interpretation calm_machine: invariant_machine calm_step "download_inv s mos" for s mos
proof
  fix t t'
  assume inv: "download_inv s mos t" and "calm_step t t'"
  from this(2) show "download_inv s mos t'"
  proof cases
    case calm_main
    with inv show ?thesis by (rule download_inv_main)
  next
    case calm_battery
    with inv show ?thesis by (rule download_inv_battery)
  next
    case (calm_signal u p q n)
    have "ue_message (signal_handler n u) = ue_message u" by (simp add: signal_handler_def)
    moreover have "buffers_ok u" using inv calm_signal by (simp add: download_inv_def reception_ok_def)
    ultimately show ?thesis using inv calm_signal
      by (auto intro!: download_inv_same [of s mos u p q] buffers_ok_steps simp: recv_part_steps dl_of_steps idle_steps)
  qed
qed

lemma download_inv_start:
  assumes "ue_going s" "incoming s mos"
  shows "download_inv s mos (at s M_guard B_guard)"
  using assms
  by (simp add: download_inv_def reception_ok_def in_step_def arrived_def ue_going_def ue_inv_def buffers_ok_def)

section \<open>Downloads\<close>

text \<open>
  The runs in which at most \<open>n\<close> messages have been received, and those in which \<open>n\<close> messages have been received and
  looked at.
\<close>

definition calm_run :: "ue \<Rightarrow> nat \<Rightarrow> ue_threads \<Rightarrow> bool" where
  "calm_run s n t \<longleftrightarrow> calm_step\<^sup>*\<^sup>* (at s M_guard B_guard) t \<and> recvs (ue_net (shared t)) \<le> recvs (ue_net s) + n"

definition calm_end :: "ue \<Rightarrow> nat \<Rightarrow> ue_threads \<Rightarrow> bool" where
  "calm_end s n t \<longleftrightarrow> calm_step\<^sup>*\<^sup>* (at s M_guard B_guard) t \<and> recvs (ue_net (shared t)) = recvs (ue_net s) + n \<and>
    main_at t \<noteq> M_switch"

text \<open>If the download machine takes all messages, there is a run to the end, no run crashes, and every run ends in its result.\<close>

lemma calm_end_exists:
  assumes "ue_going s" "incoming s mos" "dl_run mos (dl_of s) = Inr r"
  shows "\<exists>t. calm_end s (length mos) t"
proof -
  let ?ops = "replicate (length mos) Main_pass"
  have n: "length (filter (\<lambda>op. op = Main_pass) ?ops) = length mos" by simp
  note run = ue_run_dl [OF assms(1,2) n]
  with assms(3) obtain s' where s': "ue_run ?ops s = Inr s'" by (auto simp: bind_res_Inr_iff)
  with run have "recvs (ue_net s') = recvs (ue_net s) + length mos" by simp
  with ue_run_calm [OF assms(1,2) n s'] have "calm_end s (length mos) (at s' M_guard B_guard)" by (simp add: calm_end_def)
  then show ?thesis by blast
qed

lemma calm_run_no_crash:
  assumes "ue_going s" "incoming s mos" "dl_run mos (dl_of s) = Inr r" "calm_run s (length mos) t"
  shows "main_step t \<noteq> Inl e"
proof
  assume "main_step t = Inl e"
  then obtain u q where t: "t = at u M_switch q" "ue_switch u = Inl e" by (rule main_step_crash)
  have len: "arrived s t \<le> length mos" using assms(4) by (auto simp: arrived_def calm_run_def)
  have "download_inv s mos t"
    using calm_machine.reachable_inv [OF _ download_inv_start [OF assms(1,2)]] assms(4) by (simp add: calm_run_def)
  with len have "in_step s mos t" by (simp add: download_inv_def)
  with len have "dl_run (take (arrived s t) mos) (dl_of s) = Inl e" using t in_step_switch [of s mos u q] by simp
  then have "dl_run (take (arrived s t) mos @ drop (arrived s t) mos) (dl_of s) = Inl e"
    by (simp only: dl_run_append bind_res_simps)
  with assms(3) show False by simp
qed

lemma calm_end_download:
  assumes "ue_going s" "incoming s mos" "calm_end s (length mos) t"
  shows "dl_run mos (dl_of s) = Inr (dl_of (shared t))"
proof -
  have "download_inv s mos t"
    using calm_machine.reachable_inv [OF _ download_inv_start [OF assms(1,2)]] assms(3) by (simp add: calm_end_def)
  with assms(3) show ?thesis by (simp add: download_inv_def in_step_def arrived_def calm_end_def)
qed

text \<open>For the messages of a transfer.\<close>

lemma calm_transfer:
  assumes "ue_going s" "incoming s mos"
    and "file_messages mos = st # ms @ [en]" "message_type st = msg_code data_start"
    "\<forall>m \<in> set ms. message_type m = msg_code data" "message_type en = msg_code data_end"
    and "c_string_at (message_value st) = Inr name" "fopen_ok (ue_disk s) (fopens (ue_disk s))"
    and "0 \<le> ue_packets s" "0 \<le> ue_bytes s" "ue_bytes s + 16 * int (length ms) \<le> INT_MAX"
    "ue_packets s + int (length ms) \<le> INT_MAX"
  shows "(\<exists>t. calm_end s (length mos) t) \<and> (\<forall>t e. calm_run s (length mos) t \<longrightarrow> main_step t \<noteq> Inl e) \<and>
    (\<forall>t. calm_end s (length mos) t \<longrightarrow> ue_file (shared t) = ClosedFile \<and> ue_packets (shared t) = 0 \<and>
      contents (ue_disk (shared t)) name = Some (old_contents (ue_disk s) name @ concat (map get_buffer ms)) \<and>
      (\<forall>other. other \<noteq> name \<longrightarrow> contents (ue_disk (shared t)) other = contents (ue_disk s) other))"
proof -
  obtain d n where run: "dl_run mos (dl_of s) = Inr (ClosedFile, d, 0, n)"
    and d: "contents d = (contents (ue_disk s))(name \<mapsto> old_contents (ue_disk s) name @ concat (map get_buffer ms))"
    using dl_run_download [OF assms(4,7,5,6,8-12), of "ue_file s"] dl_run_file_messages [of mos] assms(3)
    by (simp add: dl_of_def)
  have "dl_of (shared t) = (ClosedFile, d, 0, n)" if "calm_end s (length mos) t" for t
    using calm_end_download [OF assms(1,2) that] run by simp
  with calm_end_exists [OF assms(1,2) run] calm_run_no_crash [OF assms(1,2) run] d show ?thesis by (auto simp: dl_of_def)
qed

section \<open>Property\<close>

text \<open>C20. A download: if among the messages that arrive those of a transfer are a start with a terminated name, data messages
  (any number, as long as the \<open>int\<close> counters of packets and of bytes, 16 for each, do not pass \<open>INT_MAX\<close>) and
  an end, and the start's \<open>fopen\<close> succeeds, then whatever else arrives before, between and after them, and however the calls of the two threads and the
  signals are interleaved, as long as the battery is not checked between the receipt of a message and its handling: all
  messages can be received and handled, no handler crashes on the way, and in every state in which they have been, the
  named file has the sixteen bytes of every data message appended in order, no other file has changed, the file is closed
  and the packet count is back at 0.\<close>

theorem calm_download:
  assumes "ue_going s" "incoming s mos"
    and "file_messages mos = st # ms @ [en]" "message_type st = msg_code data_start"
    "\<forall>m \<in> set ms. message_type m = msg_code data" "message_type en = msg_code data_end"
    and "c_string_at (message_value st) = Inr name" "fopen_ok (ue_disk s) (fopens (ue_disk s))"
    and "0 \<le> ue_packets s" "0 \<le> ue_bytes s" "ue_bytes s + 16 * int (length ms) \<le> INT_MAX"
    "ue_packets s + int (length ms) \<le> INT_MAX"
  shows "(\<exists>t. calm_end s (length mos) t) \<and> (\<forall>t e. calm_run s (length mos) t \<longrightarrow> main_step t \<noteq> Inl e) \<and>
    (\<forall>t. calm_end s (length mos) t \<longrightarrow> ue_file (shared t) = ClosedFile \<and> ue_packets (shared t) = 0 \<and>
      contents (ue_disk (shared t)) name = Some (old_contents (ue_disk s) name @ concat (map get_buffer ms)) \<and>
      (\<forall>other. other \<noteq> name \<longrightarrow> contents (ue_disk (shared t)) other = contents (ue_disk s) other))"
  by (rule calm_transfer [OF assms])

lemma calm_download_witness:
  "\<exists>t. calm_step\<^sup>*\<^sup>* (at (some_ue sample_messages) M_guard B_guard) t \<and>
    ue_file (shared t) = ClosedFile \<and> contents (ue_disk (shared t)) ''x'' = Some (replicate 16 7 @ replicate 16 9)"
proof -
  note d = calm_download [OF some_ue_going sample(1) sample(2,4) _ _ sample(3)]
  obtain t where t: "calm_end (some_ue sample_messages) (length sample_messages) t" using d by (auto simp: sample)
  moreover have "ue_file (shared t) = ClosedFile \<and>
      contents (ue_disk (shared t)) ''x'' = Some (replicate 16 7 @ replicate 16 9)"
    using d t by (simp add: sample old_contents_def)
  ultimately show ?thesis by (auto simp: calm_end_def)
qed

end
