(* ===== verification/System.thy ===== *)
theory System
  imports Server_Transfer Ue_Calm
begin

text \<open>
  The two programs together: what one hands to its socket arrives at the other.  The handshakes of
  random access and of the RRC connection, and the transfer of a file from the server's disk to the
  one of the user equipment.
\<close>

section \<open>Messages between the programs\<close>

text \<open>What has been sent to one descriptor between two states of the network.\<close>

definition messages_to :: "int \<Rightarrow> net \<Rightarrow> net \<Rightarrow> s_message list" where
  "messages_to fd w w' = map snd (filter (\<lambda>x. fst x = fd) (sent_since w w'))"

lemma filter_pair: "filter (\<lambda>x. fst x = fd) (map (Pair fd') ms) = (if fd' = fd then map (Pair fd) ms else [])"
  by (induction ms) simp_all

lemma filter_other:
  "fd \<notin> set (map client_socket cs) \<Longrightarrow>
    filter (\<lambda>x. fst x = fd) (concat (map (\<lambda>c. map (Pair (client_socket c)) (ms (client_socket c))) cs)) = []"
  by (induction cs) (auto simp: filter_pair)

lemma filter_one:
  "distinct (map client_socket cs) \<Longrightarrow> c \<in> set cs \<Longrightarrow> client_socket c = fd \<Longrightarrow>
    filter (\<lambda>x. fst x = fd) (concat (map (\<lambda>c. map (Pair (client_socket c)) (ms (client_socket c))) cs)) = map (Pair fd) (ms fd)"
proof (induction cs)
  case Nil
  then show ?case by simp
next
  case (Cons d cs)
  show ?case
  proof (cases "d = c")
    case True
    with Cons.prems have "fd \<notin> set (map client_socket cs)" by auto
    from filter_other [OF this] True Cons.prems(3) show ?thesis by (simp add: filter_pair)
  next
    case False
    with Cons.prems have "c \<in> set cs" by simp
    with Cons.prems have "client_socket d \<noteq> fd" by auto
    with Cons \<open>c \<in> set cs\<close> show ?thesis by (simp add: filter_pair)
  qed
qed

lemma both_sides_same_index: "extractPreambleIndex x = to_int8 (preamble_index_bits x)"
  by (simp add: extractPreambleIndex_def preamble_index_bits_def)

text \<open>The C-RNTI lies in the union over the low byte of the RA-RNTI.\<close>

lemma ra_rnti_set_c_rnti:
  assumes "wf_message m"
  shows "ra_rnti (get_preamble (set_c_rnti i m)) = 256 * (ra_rnti (get_preamble m) div 256) + i mod 256"
proof -
  obtain a b r where v: "message_value m = a # b # r"
    using assms by (auto simp: wf_message_def length_Suc_conv numeral_eq_Suc)
  define z where "z = (if uint b < 128 then uint b else uint b - 256)"
  have s: "signed_take_bit 15 (x + 256 * uint b) = 256 * z + x" if "0 \<le> x" "x < 256" for x
  proof (cases "uint b < 128")
    case True
    then have "-32768 \<le> x + 256 * uint b" "x + 256 * uint b < 32768"
      using that uint_byte_bounds(1) [of b] by linarith+
    with True show ?thesis by (simp add: signed_take_bit_int_eq_self z_def)
  next
    case False
    have "signed_take_bit 15 (x + 256 * uint b) = signed_take_bit 15 (x + 256 * uint b - 65536)"
      by (simp add: signed_take_bit_eq_iff_take_bit_eq take_bit_eq_mod)
    also have "\<dots> = x + 256 * uint b - 65536"
      using that False uint_byte_bounds [of b] by (subst signed_take_bit_int_eq_self) simp_all
    finally show ?thesis using False by (simp add: z_def)
  qed
  have "ra_rnti (get_preamble m) = 256 * z + uint a"
    using s [OF uint_byte_bounds] by (simp add: get_preamble_def load_s_def load_u_def v)
  moreover have "ra_rnti (get_preamble (set_c_rnti i m)) = 256 * z + i mod 256"
    using s [of "i mod 256"]
    by (simp add: get_preamble_def set_c_rnti_def upd_value_def load_s_def load_u_def store_int_def store_def v
        uint_word_of_int)
  ultimately show ?thesis using uint_byte_bounds [of a] by simp
qed

lemma wf_prach_preamble:
  assumes "wf_message m" "send_prach_preamble fd m gen w = (r, m', w')"
  shows "wf_message m'" "message_type m' = msg_code random_access_request"
  using assms by (auto simp: send_prach_preamble_def Let_def split: prod.splits simp del: msg_code.simps)

lemma wf_rrc_request:
  assumes "wf_message m" "send_rrc_connection_request fd m gen w = Inr (r, m', w')"
  shows "wf_message m'" "message_type m' = msg_code rrc_request"
proof -
  obtain u w1 where u: "gen (get_ue_identity m) w = Inr (u, w1)"
    using assms(2) by (cases "gen (get_ue_identity m) w") (auto simp: send_rrc_connection_request_def Let_def)
  obtain r2 w2 where "write_msg fd (set_establishment_cause MO_SIGNALING
      (set_ue_identity u (set_type m rrc_request))) w1 = (r2, w2)" by fastforce
  with assms(2) u have "m' = set_establishment_cause MO_SIGNALING (set_ue_identity u (set_type m rrc_request))"
    by (simp add: send_rrc_connection_request_def Let_def)
  with assms(1) show "wf_message m'" "message_type m' = msg_code rrc_request" by (simp_all del: msg_code.simps)
qed

text \<open>The set-up the server sends, and what both sides do with request and set-up.\<close>

definition setup_message :: "client_t \<Rightarrow> s_message" where
  "setup_message c = set_rrc_response (generate_rrc_config (rnti c)) (set_type zero_message rrc_setup)"

lemma setup_message_simps:
  "get_rrc_response (setup_message c) 3 = signed_take_bit 31 (rnti c)" "get_rrc_response (setup_message c) 0 = 9"
  "get_rrc_response (setup_message c) 2 = 10" "wf_message (setup_message c)"
  "message_type (setup_message c) = msg_code rrc_setup"
  by (simp_all add: setup_message_def get_set_rrc_response rrc_config_words_def generate_rrc_config_def
      signed_take_bit_int_eq_self)

lemma parse_rrc_request:
  assumes "server_inv s" "n < length (events s)" "clients_of s (events s ! n) = Some c" "writes_ok (srv_net s)"
    and "srv_recv_next s = Some (msg_bytes m)" "wf_message m" "message_type m = msg_code rrc_request"
  shows "\<exists>s'. parse_packet n s = Inr s' \<and> clients_of s' = clients_of s \<and>
    outbox (srv_net s') = outbox (srv_net s) @ [(events s ! n, setup_message c)]"
proof -
  let ?s = "s\<lparr>srv_net := snd (recv_bytes (srv_net s))\<rparr>"
  let ?s' = "?s\<lparr>srv_net := snd (write_msg (events s ! n) (setup_message c) (srv_net ?s))\<rparr>"
  have inv: "clients_inv ?s" "clients_of ?s (events s ! n) = Some c" using assms(1,3) by (simp_all add: server_inv_def)
  have "parse_packet n s = Inr ?s'"
    using parse_packet_message [OF assms(2) refl assms(5,6)] assms(7) send_rrc_setup_known [OF inv]
    by (simp add: dispatch_def msg_label_code setup_message_def del: msg_code.simps)
  moreover have "outbox (srv_net ?s') = outbox (srv_net s) @ [(events s ! n, setup_message c)]"
    using assms(4) by (simp add: write_msg_def writes_ok_def recv_bytes_def Let_def)
  moreover have "clients_of ?s' = clients_of s" by simp
  ultimately show ?thesis by blast
qed

lemma receive_setup:
  assumes "wf_message rcv" "recv_res w (recvs w) = Some (msg_bytes (setup_message c))" "writes_ok w"
  shows "\<exists>w2. receive_rrc_setup ufd rcv m2 w = (0, set_mnc 15 (set_mcc 234 (set_type (setup_message c) rrc_complete)), m2, w2) \<and>
    outbox w2 = outbox w @ [(ufd, set_mnc 15 (set_mcc 234 (set_type (setup_message c) rrc_complete)))]"
  using assms setup_message_simps(4,5) [of c]
  by (simp add: receive_rrc_setup_def recv_bytes_def send_rrc_setup_complete_def write_msg_def writes_ok_def Let_def
      del: msg_code.simps)

text \<open>The part of a transfer that goes to one client.\<close>

lemma transfer_to_client:
  assumes "server_inv s" "writes_ok (srv_net s)" "\<not> threads_done s" "exit_status s = None" "sample_ok arg f"
    and "clients_of s fd = Some c" "transfer_data arg s = Inr s'"
  shows "messages_to fd (srv_net s) (srv_net s') = file_transfer arg fd f"
proof -
  from transfer_data_ok [OF assms(1-5)] assms(7) obtain cs where cs: "distinct (map client_socket cs)"
    "set cs = ran (clients_of s)"
    "outbox (srv_net s') = outbox (srv_net s) @
      concat (map (\<lambda>c. map (Pair (client_socket c)) (file_transfer arg (client_socket c) f)) cs)" by auto
  have inv: "clients_inv s" using assms(1) by (simp add: server_inv_def)
  have c: "c \<in> set cs" "client_socket c = fd"
    using clients_of_socket [OF inv assms(6)] assms(6) cs(2) by (auto simp: ran_def)
  show ?thesis
    by (simp add: messages_to_def sent_since_def cs(3) filter_one [OF cs(1) c, where ms = "\<lambda>fd. file_transfer arg fd f"] comp_def)
qed

section \<open>Properties\<close>

text \<open>C4. The random access handshake succeeds: whatever RA-RNTI the user equipment has chosen, the server stores it for that client
  and answers its preamble with a response that the equipment accepts (return value 0).  The equipment itself loses it:
  accepting the response stores the preamble index as C-RNTI in the same union, over the low byte of the RA-RNTI,
  and changes nothing else of its message.\<close>

theorem random_access_handshake:
  assumes "wf_message m" "wf_message rcv" "send_prach_preamble ufd m gen w0 = (0, m1, w1)"
    and "server_inv s" "n < length (events s)" "clients_of s (events s ! n) = Some c" "writes_ok (srv_net s)"
    and "srv_recv_next s = Some (msg_bytes m1)"
  defines "x \<equiv> ra_rnti (get_preamble m1)"
  shows "\<exists>s' r c'. parse_packet n s = Inr s' \<and> outbox (srv_net s') = outbox (srv_net s) @ [(events s ! n, r)] \<and>
    clients_of s' (events s ! n) = Some c' \<and> rnti c' = x \<and>
    (\<forall>w. recv_res w (recvs w) = Some (msg_bytes r) \<longrightarrow>
      (\<exists>m2 w2. receive_prach_response ufd rcv m1 w = (0, r, m2, w2) \<and>
        m2 = set_c_rnti (extractPreambleIndex x) m1 \<and>
        ra_rnti (get_preamble m2) = 256 * (x div 256) + extractPreambleIndex x mod 256))"
proof -
  note wf = wf_prach_preamble [OF assms(1,3)]
  from parse_random_access [OF assms(4-8) wf] obtain s' r where
    s': "parse_packet n s = Inr s'" "outbox (srv_net s') = outbox (srv_net s) @ [(events s ! n, r)]" "wf_message r"
      "message_type r = msg_code random_access_response" "get_rapid r = extractPreambleIndex x"
      "clients_of s' = (clients_of s)(events s ! n \<mapsto> c\<lparr>preamble_index := extractPreambleIndex x,
        last_activity := clock (srv_net s) (readings (srv_net s)),
        first_connection_timestamp := clock (srv_net s) (readings (srv_net s)), rnti := x, battery_state := OK\<rparr>)"
    unfolding x_def by (elim exE conjE)
  have low: "to_int8 (to_int8 (preamble_index_bits x) AND 0b11000000) = extractPreambleIndex x"
    using preamble_index_values [of x] by (auto simp: both_sides_same_index to_int8_small)
  have "receive_prach_response ufd rcv m1 w = (0, r, set_c_rnti (extractPreambleIndex x) m1, snd (recv_bytes w))"
    if "recv_res w (recvs w) = Some (msg_bytes r)" for w
    using that s'(3-5) assms(2) low
    by (simp add: receive_prach_response_def recv_bytes_def both_sides_same_index Let_def x_def [symmetric] del: msg_code.simps)
  with s' ra_rnti_set_c_rnti [OF wf(1)] show ?thesis
    by (intro exI [of _ s'] exI [of _ r]) (simp add: x_def [symmetric])
qed

lemma random_access_handshake_witness:
  "\<exists>s s' r. parse_packet 0 s = Inr s' \<and> outbox (srv_net s') = [(8, r)] \<and>
    (\<exists>m2 w2. receive_prach_response 4 zero_message
      (fst (snd (send_prach_preamble 4 zero_message (\<lambda>p w. (\<lparr>ra_rnti = -1\<rparr>, w)) (quiet_net (\<lambda>_. 0)))))
      ((quiet_net (\<lambda>_. 0))\<lparr>recv_res := (\<lambda>_. Some (msg_bytes r))\<rparr>) = (0, r, m2, w2))"
proof -
  obtain m1 w1 where m1: "send_prach_preamble 4 zero_message (\<lambda>p w. (\<lparr>ra_rnti = -1\<rparr>, w)) (quiet_net (\<lambda>_. 0)) = (0, m1, w1)"
    by (simp add: send_prach_preamble_def write_msg_def quiet_net_def Let_def)
  obtain s where s: "server_up s" "clients_of s = [8 \<mapsto> client8, 15 \<mapsto> client15]"
    "srv_net s = delivering m1 (quiet_net (\<lambda>_. 0))" "events s ! 0 = 8" "length (events s) = 100"
    by (rule event_from_8 [of "delivering m1 (quiet_net (\<lambda>_. 0))"]) (simp, blast)
  have "0 < length (events s)" "clients_of s (events s ! 0) = Some client8" "writes_ok (srv_net s)"
    "srv_recv_next s = Some (msg_bytes m1)"
    by (simp_all add: s(2-5) srv_recv_next_def)
  from random_access_handshake [OF wf_zero_message wf_zero_message m1 server_upD(1) [OF s(1)] this]
  obtain s' r where s': "parse_packet 0 s = Inr s'" "outbox (srv_net s') = outbox (srv_net s) @ [(8, r)]"
    and d: "\<forall>w. recv_res w (recvs w) = Some (msg_bytes r) \<longrightarrow>
      (\<exists>m2 w2. receive_prach_response 4 zero_message m1 w = (0, r, m2, w2) \<and>
        m2 = set_c_rnti (extractPreambleIndex (ra_rnti (get_preamble m1))) m1 \<and>
        ra_rnti (get_preamble m2) = 256 * (ra_rnti (get_preamble m1) div 256) + extractPreambleIndex (ra_rnti (get_preamble m1)) mod 256)"
    unfolding s(4) by (elim exE conjE)
  let ?w = "(quiet_net (\<lambda>_. 0))\<lparr>recv_res := (\<lambda>_. Some (msg_bytes r))\<rparr>"
  have "recv_res ?w (recvs ?w) = Some (msg_bytes r)" by simp
  with d have "\<exists>m2 w2. receive_prach_response 4 zero_message m1 ?w = (0, r, m2, w2)" by blast
  with s'(1,2) m1 show ?thesis by (intro exI [of _ s] exI [of _ s'] exI [of _ r]) (simp add: s(3))
qed

text \<open>The RA-RNTI that the program itself generates is between 1 and 60, so the preamble index on both sides is always
  0 and the check of the response distinguishes no two user equipments.\<close>

theorem generated_preamble_index_zero:
  assumes "rand_ok w" "generate_ra_rnti p w = (p', w')"
  shows "1 \<le> ra_rnti p' \<and> ra_rnti p' \<le> 60 \<and> extractPreambleIndex (ra_rnti p') = 0 \<and> preamble_index_bits (ra_rnti p') = 0"
  using generated_ra_rnti [OF assms] by (simp add: both_sides_same_index to_int8_small)

lemma generated_preamble_index_zero_witness:
  "\<exists>p' w'. generate_ra_rnti \<lparr>ra_rnti = 0\<rparr> (quiet_net (\<lambda>_. 0)) = (p', w') \<and> ra_rnti p' \<le> 60 \<and>
    extractPreambleIndex (ra_rnti p') = 0"
proof -
  obtain p' w' where "generate_ra_rnti \<lparr>ra_rnti = 0\<rparr> (quiet_net (\<lambda>_. 0)) = (p', w')" by fastforce
  with generated_preamble_index_zero [OF _ this] show ?thesis by simp
qed

text \<open>C5. The RRC handshake: the server answers the connection request with a set-up that carries the RA-RNTI stored for
  that client, the user equipment accepts it (return value 0) and sends one completion with country code 234 and
  network code 15; the server changes no client on the way and ignores the completion, codes included.\<close>

theorem rrc_handshake:
  assumes "wf_message m" "wf_message rcv" "send_rrc_connection_request ufd m gen w0 = Inr (0, m1, w1)"
    and "server_inv s" "n < length (events s)" "clients_of s (events s ! n) = Some c" "writes_ok (srv_net s)"
    and "srv_recv_next s = Some (msg_bytes m1)"
  shows "\<exists>s' r. parse_packet n s = Inr s' \<and> clients_of s' = clients_of s \<and>
    outbox (srv_net s') = outbox (srv_net s) @ [(events s ! n, r)] \<and>
    get_rrc_response r 3 = signed_take_bit 31 (rnti c) \<and> get_rrc_response r 0 = 9 \<and> get_rrc_response r 2 = 10 \<and>
    (\<forall>w m2. recv_res w (recvs w) = Some (msg_bytes r) \<longrightarrow> writes_ok w \<longrightarrow>
      (\<exists>fin w2. receive_rrc_setup ufd rcv m2 w = (0, fin, m2, w2) \<and> outbox w2 = outbox w @ [(ufd, fin)] \<and>
        message_type fin = msg_code rrc_complete \<and> get_mcc fin = 234 \<and> get_mnc fin = 15 \<and>
        dispatch (events s ! n) fin s' = Inr s'))"
proof -
  let ?fd = "events s ! n" and ?r = "setup_message c"
  let ?fin = "set_mnc 15 (set_mcc 234 (set_type ?r rrc_complete))"
  from parse_rrc_request [OF assms(4-8) wf_rrc_request [OF assms(1,3)]] obtain s' where
    s': "parse_packet n s = Inr s'" "clients_of s' = clients_of s" "outbox (srv_net s') = outbox (srv_net s) @ [(?fd, ?r)]"
    by blast
  have g: "get_mcc ?fin = 234" "get_mnc ?fin = 15" "message_type ?fin = msg_code rrc_complete"
    by (simp_all add: setup_message_simps get_set_complete to_int16_id del: msg_code.simps)
  have d: "dispatch ?fd ?fin s' = Inr s'"
    unfolding dispatch_def g(3) msg_label_code by simp
  show ?thesis
  proof (rule exI [of _ s'], rule exI [of _ ?r], intro conjI s' setup_message_simps allI impI)
    fix w m2 assume "recv_res w (recvs w) = Some (msg_bytes ?r)" "writes_ok w"
    from receive_setup [OF assms(2) this, of ufd m2] g d
    show "\<exists>fin w2. receive_rrc_setup ufd rcv m2 w = (0, fin, m2, w2) \<and>
      outbox w2 = outbox w @ [(ufd, fin)] \<and> message_type fin = msg_code rrc_complete \<and> get_mcc fin = 234 \<and>
      get_mnc fin = 15 \<and> dispatch ?fd fin s' = Inr s'" by blast
  qed
qed

lemma rrc_handshake_witness:
  "\<exists>s s' r. parse_packet 0 s = Inr s' \<and> clients_of s' = clients_of s \<and> outbox (srv_net s') = [(8, r)] \<and>
    (\<exists>fin w2. receive_rrc_setup 4 zero_message zero_message
      ((quiet_net (\<lambda>_. 0))\<lparr>recv_res := (\<lambda>_. Some (msg_bytes r))\<rparr>) = (0, fin, zero_message, w2) \<and> get_mcc fin = 234)"
proof -
  obtain m1 w1 where m1: "send_rrc_connection_request 4 zero_message (generate_ue_identity 7) (quiet_net (\<lambda>_. 0)) = Inr (0, m1, w1)"
    by (simp add: send_rrc_connection_request_def generate_ue_identity_def c_rand_def write_msg_def quiet_net_def Let_def)
  obtain s where s: "server_up s" "clients_of s = [8 \<mapsto> client8, 15 \<mapsto> client15]"
    "srv_net s = delivering m1 (quiet_net (\<lambda>_. 0))" "events s ! 0 = 8" "length (events s) = 100"
    by (rule event_from_8 [of "delivering m1 (quiet_net (\<lambda>_. 0))"]) (simp, blast)
  have "0 < length (events s)" "clients_of s (events s ! 0) = Some client8" "writes_ok (srv_net s)"
    "srv_recv_next s = Some (msg_bytes m1)"
    by (simp_all add: s(2-5) srv_recv_next_def)
  from rrc_handshake [OF wf_zero_message wf_zero_message m1 server_upD(1) [OF s(1)] this]
  obtain s' r where s': "parse_packet 0 s = Inr s'" "clients_of s' = clients_of s"
    "outbox (srv_net s') = outbox (srv_net s) @ [(8, r)]"
    and d: "\<forall>w m2. recv_res w (recvs w) = Some (msg_bytes r) \<longrightarrow> writes_ok w \<longrightarrow>
      (\<exists>fin w2. receive_rrc_setup 4 zero_message m2 w = (0, fin, m2, w2) \<and> outbox w2 = outbox w @ [(4, fin)] \<and>
        message_type fin = msg_code rrc_complete \<and> get_mcc fin = 234 \<and> get_mnc fin = 15 \<and>
        dispatch 8 fin s' = Inr s')"
    unfolding s(4) by (elim exE conjE)
  let ?w = "(quiet_net (\<lambda>_. 0))\<lparr>recv_res := (\<lambda>_. Some (msg_bytes r))\<rparr>"
  have "recv_res ?w (recvs ?w) = Some (msg_bytes r)" "writes_ok ?w" by (simp_all add: writes_ok_def quiet_net_def)
  with d have "\<exists>fin w2. receive_rrc_setup 4 zero_message zero_message ?w = (0, fin, zero_message, w2) \<and> get_mcc fin = 234"
    by blast
  with s' show ?thesis by (intro exI [of _ s] exI [of _ s'] exI [of _ r]) (simp add: s(3))
qed



end
