(* ===== verification/Address.thy ===== *)
theory Address
  imports CMem
begin

text \<open>
  Internet addresses as the two programs fill them in (\<^verbatim>\<open>init_server_address\<close> of \<^verbatim>\<open>serverLTE/server.c\<close> and the
  middle of \<^verbatim>\<open>clientLTE/init_connection.c\<close>), with the parts of the C library they use.  Ports and internet
  addresses lie in memory with the high byte first.
\<close>

section \<open>The C library\<close>

record sockaddr_in =
  sin_family :: int
  sin_port :: "16 word"
  sin_addr :: "byte list"
  sin_zero :: "byte list"

definition AF_INET :: int where
  "AF_INET = 2"

text \<open>The argument is converted to 16 bits, then the two bytes change places.\<close>

definition htons :: "int \<Rightarrow> 16 word" where
  "htons port = (let w = word_of_int port in push_bit 8 w OR drop_bit 8 w)"

text \<open>\<open>INADDR_ANY\<close>, and what \<open>inet_pton\<close> makes of \<^verbatim>\<open>127.0.0.1\<close>.\<close>

definition inaddr_any :: "byte list" where
  "inaddr_any = [0, 0, 0, 0]"

definition loopback :: "byte list" where
  "loopback = [127, 0, 0, 1]"

section \<open>The two addresses\<close>

definition init_server_address :: "int \<Rightarrow> sockaddr_in" where
  "init_server_address port =
    (let server_address = \<lparr>sin_family = 0, sin_port = 0, sin_addr = [0, 0, 0, 0], sin_zero = replicate 8 0\<rparr> in
     server_address\<lparr>sin_family := AF_INET, sin_addr := inaddr_any, sin_port := htons port\<rparr>)"

text \<open>The client does not clear the structure.\<close>

definition connect_address :: "int \<Rightarrow> sockaddr_in \<Rightarrow> sockaddr_in" where
  "connect_address port_number server =
    server\<lparr>sin_family := AF_INET, sin_port := htons port_number, sin_addr := loopback\<rparr>"

text \<open>The two bytes of the port in memory.\<close>

definition port_bytes :: "sockaddr_in \<Rightarrow> byte list" where
  "port_bytes a = le_bytes 2 (uint (sin_port a))"

lemma le_bytes_two: "le_bytes 2 x = [word_of_int x, word_of_int (x div 256)]"
  by (simp add: numeral_2_eq_2)

lemma port_bytes_htons:
  assumes "sin_port a = htons p"
  shows "port_bytes a = [word_of_int (p div 256), word_of_int p]"
proof -
  have d: "x div 256 = drop_bit 8 x" for x :: int by (simp add: drop_bit_eq_div)
  have "(word_of_int (uint (htons p)) :: byte) = word_of_int (p div 256)"
    unfolding d by (rule bit_word_eqI) (auto simp: htons_def Let_def bit_simps)
  moreover have "(word_of_int (uint (htons p) div 256) :: byte) = word_of_int p"
    unfolding d by (rule bit_word_eqI) (auto simp: htons_def Let_def bit_simps)
  ultimately show ?thesis using assms by (simp add: port_bytes_def le_bytes_two)
qed

text \<open>A socket bound to an address accepts a connection to another: the same family and port, and the address itself or any.\<close>

definition reaches :: "sockaddr_in \<Rightarrow> sockaddr_in \<Rightarrow> bool" where
  "reaches bound a \<longleftrightarrow> sin_family bound = sin_family a \<and> sin_port bound = sin_port a \<and>
    (sin_addr bound = inaddr_any \<or> sin_addr bound = sin_addr a)"

lemma addresses_meet: "reaches (init_server_address p) (connect_address p junk)"
  by (simp add: reaches_def init_server_address_def connect_address_def)

end
