(* ===== verification/Programs.thy ===== *)
theory Programs
  imports Ue_Threads Server Address
begin

text \<open>
  The two \<open>main\<close> functions with their command lines: what becomes of the port that both are given, and how
  the start of the user equipment can end before its threads run.
\<close>

section \<open>The server\<close>

text \<open>\<open>bind_r\<close> says what \<open>bind\<close> returns for an address.  The server has no use for its arguments but the port.\<close>

definition server_program ::
  "string list \<Rightarrow> int \<Rightarrow> (sockaddr_in \<Rightarrow> int) \<Rightarrow> int \<Rightarrow> int \<Rightarrow> int \<Rightarrow> server_t \<Rightarrow> server_t res"
where
  "server_program argv sock bind_r listen_r epoll_r ctl_r s =
    server_main (int (length argv)) sock
      (if length argv < 2 then 0 else bind_r (init_server_address (atoi (argv ! 1)))) listen_r epoll_r ctl_r s"

section \<open>The user equipment\<close>

datatype ue_outcome = Returned int | Exited int | Running ue_threads

text \<open>
  What the globals hold when \<open>main\<close> starts, the static variables of \<open>check_events\<close> among them, and what it sets before
  the initialisation: the local \<open>FILE *\<close> is indeterminate.  \<open>srand\<close> gets the time, but the sequence of \<open>rand\<close> is arbitrary
  anyway.
\<close>

definition ue_loaded :: "ue \<Rightarrow> ue" where
  "ue_loaded s = s\<lparr>ue_running := True, ue_message := zero_message, ue_received := zero_message,
     ue_statics := init_statics, ue_file := Indeterminate, ue_packets := 0, ue_bytes := 0, ue_net := snd (time_now (ue_net s))\<rparr>"

text \<open>
  The results of \<open>pthread_mutex_init\<close> (twice) and \<open>pthread_create\<close> are given, as is what \<open>connect\<close> returns for an
  address; \<open>server\<close> is the uninitialised local.  When all has gone well both threads are in front of their loops.
\<close>

definition ue_program ::
  "string list \<Rightarrow> int \<Rightarrow> int \<Rightarrow> int \<Rightarrow> (sockaddr_in \<Rightarrow> int) \<Rightarrow> int \<Rightarrow> int \<Rightarrow> sockaddr_in \<Rightarrow> ue \<Rightarrow> ue_outcome res"
where
  "ue_program argv mutex0 mutex1 sock conn pow32 create server s =
    (if length argv < 2 then Inr (Returned 0)
     else
       let port_number = atoi (argv ! 1);
           s = ue_loaded s
       in if mutex0 \<noteq> 0 then Inr (Exited 1)
          else if mutex1 \<noteq> 0 then Inr (Exited 1)
          else bind_res (ue_start sock (conn (connect_address port_number server)) pow32 s) (\<lambda>r.
            case r of
              None \<Rightarrow> Inr (Returned 0)
            | Some s \<Rightarrow> Inr (if create \<noteq> 0 then Exited 1 else Running (at s M_guard B_guard))))"

lemma ue_loaded_simps [simp]:
  "ue_running (ue_loaded s)" "ue_message (ue_loaded s) = zero_message" "ue_received (ue_loaded s) = zero_message"
  "ue_cells (ue_loaded s) = ue_cells s" "ue_file (ue_loaded s) = Indeterminate" "ue_packets (ue_loaded s) = 0"
  "ue_bytes (ue_loaded s) = 0" "ue_disk (ue_loaded s) = ue_disk s" "ue_net (ue_loaded s) = snd (time_now (ue_net s))"
  by (simp_all add: ue_loaded_def)

lemma time_now_keeps [simp]:
  "outbox (snd (time_now w)) = outbox w" "rand_ok (snd (time_now w)) = rand_ok w" "writes_ok (snd (time_now w)) = writes_ok w"
  "recvs (snd (time_now w)) = recvs w" "recv_res (snd (time_now w)) = recv_res w" "writes (snd (time_now w)) = writes w"
  "write_res (snd (time_now w)) = write_res w" "rand_res (snd (time_now w)) = rand_res w" "rands (snd (time_now w)) = rands w"
  by (simp_all add: time_now_def rand_ok_def writes_ok_def)

section \<open>What the start needs\<close>

text \<open>The only thing that can go wrong for good in the start-up is the division by the result of \<open>pow\<close>.\<close>

lemma ue_rrc_total: "pow32 \<noteq> 0 \<Longrightarrow> \<exists>r. ue_rrc pow32 s = Inr r"
  by (simp add: ue_rrc_def send_rrc_connection_request_def generate_ue_identity_def Let_def split_beta)

lemma ue_start_total: "pow32 \<noteq> 0 \<Longrightarrow> \<exists>r. ue_start sock conn pow32 s = Inr r"
  using ue_rrc_total by (simp add: ue_start_def ue_rach_def Let_def split_beta)

text \<open>The initialisation leaves the network as it is but for the clock and the random numbers.\<close>

lemma ue_initialize_net:
  "\<exists>b c r. ue_initialize u = u\<lparr>ue_bat := b, ue_cells := c,
    ue_net := (ue_net u)\<lparr>rands := Suc (Suc (rands (ue_net u))), readings := r\<rparr>\<rparr>"
  by (simp add: ue_initialize_def initialize_battery_life_def initialize_cells_def two_cells initialize_cell_def env_defs)
    (intro exI, rule refl)

text \<open>A response the check accepts: the RA-RNTI being at most 60, the index it must have is 0.\<close>

definition response_accepted :: "byte list option \<Rightarrow> bool" where
  "response_accepted r \<longleftrightarrow> (case r of None \<Rightarrow> False | Some bs \<Rightarrow>
    let m = recv_into zero_message (take sizeof_message bs)
    in message_type m = msg_code random_access_response \<and> get_rapid m = 0)"

text \<open>The five system calls whose failure ends the start.\<close>

definition start_fails :: "int \<Rightarrow> int \<Rightarrow> net \<Rightarrow> bool" where
  "start_fails sock conn w \<longleftrightarrow> sock = -1 \<or> conn < 0 \<or> write_res w (writes w) = -1 \<or>
    \<not> response_accepted (recv_res w (recvs w)) \<or> write_res w (Suc (writes w)) = -1"

lemma ue_rrc_none: "pow32 \<noteq> 0 \<Longrightarrow> ue_rrc pow32 s = Inr None \<longleftrightarrow> write_res (ue_net s) (writes (ue_net s)) = -1"
  by (simp add: ue_rrc_def send_rrc_connection_request_def generate_ue_identity_def c_rand_def write_msg_def Let_def split_beta)

lemma ue_rach_none:
  assumes "pow32 \<noteq> 0" "rand_ok (ue_net s)" "wf_message (ue_message s)" "ue_received s = zero_message"
  shows "ue_rach pow32 s = Inr None \<longleftrightarrow> write_res (ue_net s) (writes (ue_net s)) = -1 \<or>
    \<not> response_accepted (recv_res (ue_net s) (recvs (ue_net s))) \<or> write_res (ue_net s) (Suc (writes (ue_net s))) = -1"
proof -
  let ?w = "ue_net s"
  obtain p w1 where g: "generate_ra_rnti (get_preamble (ue_message s)) ?w = (p, w1)" by fastforce
  then have w1: "write_res w1 = write_res ?w" "writes w1 = writes ?w" "recv_res w1 = recv_res ?w" "recvs w1 = recvs ?w"
    by (auto simp: generate_ra_rnti_def c_rand_def Let_def)
  define m where "m = set_type (set_preamble p (ue_message s)) random_access_request"
  have "ra_rnti (get_preamble m) = ra_rnti p"
    using generated_ra_rnti(1,2) [OF assms(2) g] assms(3) by (simp add: m_def get_set_preamble to_int16_id)
  then have i: "preamble_index_bits (ra_rnti (get_preamble m)) = 0" using generated_ra_rnti(3) [OF assms(2) g] by simp
  show ?thesis
  proof (cases "recv_res ?w (recvs ?w)")
    case None
    then show ?thesis
      by (simp add: ue_rach_def send_prach_preamble_def g m_def [symmetric] write_msg_def w1 receive_prach_response_def
          recv_bytes_def response_accepted_def Let_def)
  next
    case (Some bs)
    then show ?thesis
      by (simp add: ue_rach_def send_prach_preamble_def g m_def [symmetric] write_msg_def w1 receive_prach_response_def
          recv_bytes_def response_accepted_def i to_int8_small ue_rrc_none [OF assms(1)] assms(4) Let_def del: msg_code.simps)
  qed
qed

lemma ue_start_none:
  assumes "pow32 \<noteq> 0" "rand_ok (ue_net s)" "wf_message (ue_message s)" "ue_received s = zero_message"
  shows "ue_start sock conn pow32 s = Inr None \<longleftrightarrow> start_fails sock conn (ue_net s)"
proof -
  obtain b c r where i: "ue_initialize s = s\<lparr>ue_bat := b, ue_cells := c,
    ue_net := (ue_net s)\<lparr>rands := Suc (Suc (rands (ue_net s))), readings := r\<rparr>\<rparr>" using ue_initialize_net by blast
  have "rand_ok ((ue_net s)\<lparr>rands := x, readings := r\<rparr>)" for x using assms(2) by (simp add: rand_ok_def)
  then show ?thesis
    using assms(3,4)
    by (simp add: ue_start_def i init_connection_def start_fails_def ue_rach_none [OF assms(1)] close_fd_def Let_def)
qed

text \<open>What a start that reaches the loops has done: it has sent the preamble, the request and perhaps the completion.\<close>

lemma write_taken: "write_msg fd m w = (r, w') \<Longrightarrow> r \<noteq> -1 \<Longrightarrow> outbox w' = outbox w @ [(fd, m)]"
  by (auto simp: write_msg_def Let_def)

definition completion :: "int \<Rightarrow> (int \<times> s_message) list \<Rightarrow> bool" where
  "completion fd rest \<longleftrightarrow> rest = [] \<or> (\<exists>m. rest = [(fd, m)] \<and> message_type m = msg_code rrc_complete)"

lemma receive_rrc_setup_outbox:
  assumes "receive_rrc_setup fd rcv m w = (r, rcv', m', w')"
  shows "\<exists>rest. outbox w' = outbox w @ rest \<and> completion fd rest"
  using assms
  by (auto simp: receive_rrc_setup_def recv_bytes_def send_rrc_setup_complete_def write_msg_def completion_def Let_def
      split: option.splits if_splits)

lemma ue_rrc_sent:
  assumes "ue_rrc pow32 s = Inr (Some s')"
  shows "\<exists>m rest. outbox (ue_net s') = outbox (ue_net s) @ (ue_socket s, m) # rest \<and>
    message_type m = msg_code rrc_request \<and> completion (ue_socket s) rest \<and> ue_message s' = m \<and>
    ue_socket s' = ue_socket s \<and> ue_running s' = ue_running s"
proof -
  let ?fd = "ue_socket s"
  obtain u w1 where g: "generate_ue_identity pow32 (get_ue_identity (set_type (ue_message s) rrc_request)) (ue_net s) = Inr (u, w1)"
    using assms by (cases "pow32 = 0") (auto simp: ue_rrc_def send_rrc_connection_request_def generate_ue_identity_def Let_def split_beta)
  then have w1: "outbox w1 = outbox (ue_net s)" by (auto simp: generate_ue_identity_def c_rand_def Let_def split: if_splits)
  define m where "m = set_establishment_cause MO_SIGNALING (set_ue_identity u (set_type (ue_message s) rrc_request))"
  obtain r w2 where wr: "write_msg ?fd m w1 = (r, w2)" by fastforce
  obtain r2 rcv m2 w3 where v: "receive_rrc_setup ?fd (ue_received s) m w2 = (r2, rcv, m2, w3)" by (metis prod_cases4)
  have q: "send_rrc_connection_request ?fd (ue_message s) (generate_ue_identity pow32) (ue_net s) = Inr (if r = -1 then -1 else 0, m, w2)"
    using g wr by (simp add: send_rrc_connection_request_def m_def Let_def)
  with assms v have "r \<noteq> -1" and s': "s' = s\<lparr>ue_message := m2, ue_net := w3, ue_received := rcv\<rparr>"
    by (auto simp: ue_rrc_def Let_def split: if_splits)
  from write_taken [OF wr this(1)] receive_rrc_setup_outbox [OF v] w1
  obtain rest where "outbox w3 = outbox (ue_net s) @ (?fd, m) # rest" "completion ?fd rest" by auto
  moreover have "m2 = m" using v by (auto simp: receive_rrc_setup_def Let_def split: prod.splits option.splits)
  moreover have "message_type m = msg_code rrc_request" by (simp add: m_def del: msg_code.simps)
  ultimately show ?thesis using s' by (intro exI [of _ m] exI [of _ rest]) simp
qed

lemma ue_rach_sent:
  assumes "ue_rach pow32 s = Inr (Some s')"
  shows "\<exists>m1 m2 rest. outbox (ue_net s') = outbox (ue_net s) @ (ue_socket s, m1) # (ue_socket s, m2) # rest \<and>
    message_type m1 = msg_code random_access_request \<and> message_type m2 = msg_code rrc_request \<and>
    completion (ue_socket s) rest \<and> ue_message s' = m2 \<and> ue_socket s' = ue_socket s \<and> ue_running s' = ue_running s"
proof -
  let ?fd = "ue_socket s"
  obtain p w1 where g: "generate_ra_rnti (get_preamble (ue_message s)) (ue_net s) = (p, w1)" by fastforce
  then have w1: "outbox w1 = outbox (ue_net s)" by (auto simp: generate_ra_rnti_def c_rand_def Let_def)
  define m1 where "m1 = set_type (set_preamble p (ue_message s)) random_access_request"
  obtain r w2 where wr: "write_msg ?fd m1 w1 = (r, w2)" by fastforce
  obtain r2 rcv m w3 where v: "receive_prach_response ?fd (ue_received s) m1 w2 = (r2, rcv, m, w3)" by (metis prod_cases4)
  have w3: "outbox w3 = outbox w2"
    using v by (auto simp: receive_prach_response_def recv_bytes_def Let_def split: option.splits if_splits)
  let ?s = "s\<lparr>ue_received := rcv, ue_message := m, ue_net := w3\<rparr>"
  have "send_prach_preamble ?fd (ue_message s) generate_ra_rnti (ue_net s) = (if r = -1 then -1 else 0, m1, w2)"
    using g wr by (simp add: send_prach_preamble_def m1_def Let_def)
  with assms v have "r \<noteq> -1" "ue_rrc pow32 ?s = Inr (Some s')"
    by (auto simp: ue_rach_def Let_def split: if_splits)
  from ue_rrc_sent [OF this(2)] obtain m2 rest where "outbox (ue_net s') = outbox w3 @ (?fd, m2) # rest"
    "message_type m2 = msg_code rrc_request" "completion ?fd rest" "ue_message s' = m2" "ue_socket s' = ?fd"
    "ue_running s' = ue_running s" by auto
  with write_taken [OF wr \<open>r \<noteq> -1\<close>] w1 w3 show ?thesis
    by (intro exI [of _ m1] exI [of _ m2] exI [of _ rest]) (simp add: m1_def del: msg_code.simps)
qed

lemma ue_start_sent:
  assumes "ue_start sock conn pow32 s = Inr (Some s')"
  shows "sock \<noteq> -1 \<and> 0 \<le> conn \<and> ue_socket s' = sock \<and> ue_running s' = ue_running s \<and> (\<exists>m1 m2 rest.
    outbox (ue_net s') = outbox (ue_net s) @ (sock, m1) # (sock, m2) # rest \<and> message_type m1 = msg_code random_access_request \<and>
    message_type m2 = msg_code rrc_request \<and> completion sock rest \<and> ue_message s' = m2)"
proof -
  have i: "outbox (ue_net (ue_initialize s)) = outbox (ue_net s)" "ue_running (ue_initialize s) = ue_running s"
    by (simp_all add: ue_initialize_def initialize_battery_life_def initialize_cells_def two_cells initialize_cell_def env_defs)
  from assms have c: "sock \<noteq> -1" "0 \<le> conn"
    "ue_rach pow32 ((ue_initialize s)\<lparr>ue_socket := sock\<rparr>) = Inr (Some s')"
    by (auto simp: ue_start_def init_connection_def Let_def not_less split: if_splits)
  from ue_rach_sent [OF c(3)] c(1,2) i show ?thesis by auto
qed

text \<open>So both threads start in a state from which the theorems about the loops go on.\<close>

lemma ue_start_going:
  assumes "length (cells_signals (ue_cells s)) = 2" "rand_ok (ue_net s)" "wf_message (ue_message s)"
    "wf_message (ue_received s)" "ue_start sock conn p s = Inr (Some s')"
  shows "ue_going s' \<longleftrightarrow> ue_running s \<and> message_type (ue_received s') \<noteq> msg_code enb_off"
proof -
  from ue_start_sent [OF assms(5)] have m: "message_type (ue_message s') = msg_code rrc_request" "ue_running s' = ue_running s"
    by auto
  have "ue_idle s'" unfolding ue_idle_def m(1) msg_label_code by simp
  with ue_start_inv [OF assms] m(2) show ?thesis by (auto simp: ue_going_def)
qed

text \<open>What the start leaves alone.\<close>

lemma ue_start_keeps:
  "ue_start sock conn pow32 s = Inr (Some s') \<Longrightarrow> ue_file s' = ue_file s \<and> ue_packets s' = ue_packets s \<and>
    ue_bytes s' = ue_bytes s \<and> ue_disk s' = ue_disk s"
  by (auto simp: ue_start_def ue_initialize_def ue_rach_def ue_rrc_def bind_res_Inr_iff Let_def split_beta split: if_splits)

text \<open>A program whose threads run has got there through the start.\<close>

lemma ue_program_running:
  assumes "ue_program argv mutex0 mutex1 sock conn pow32 create server s = Inr (Running t)"
  obtains u where "t = at u M_guard B_guard"
    "ue_start sock (conn (connect_address (atoi (argv ! 1)) server)) pow32 (ue_loaded s) = Inr (Some u)"
  using assms by (auto simp: ue_program_def bind_res_Inr_iff Let_def split: if_splits option.splits)

section \<open>Property\<close>


text \<open>A network on which a start goes through.\<close>

lemma some_ue_accepted: "\<not> start_fails 4 0 (ue_net starting_ue)"
  by (simp add: start_fails_def response_accepted_def Let_def some_ue_def quiet_net_def)
    (simp add: msg_of_type_def set_type_def zero_message_def get_rapid_def load_s_def load_u_def)


end
