(* ===== verification/Attach.thy ===== *)
theory Attach
  imports System Programs
begin

text \<open>
  The whole attachment of a user equipment: its start-up against the server, message by message.
\<close>

section \<open>The messages of the user equipment\<close>

definition receiving :: "(nat \<Rightarrow> byte list option) \<Rightarrow> ue \<Rightarrow> ue" where
  "receiving f u = u\<lparr>ue_net := (ue_net u)\<lparr>recv_res := f\<rparr>\<rparr>"

definition delivered :: "s_message \<Rightarrow> server_t \<Rightarrow> server_t" where
  "delivered m s = s\<lparr>srv_net := (srv_net s)\<lparr>recv_res := (\<lambda>_. Some (msg_bytes m))\<rparr>\<rparr>"

text \<open>\<open>rand\<close> is called twice for the cells, twice for the RA-RNTI and twice for the identity.\<close>

definition first_rnti :: "ue \<Rightarrow> int" where
  "first_rnti u = (let w = ue_net u in
     1 + rand_res w (rands w + 2) mod 10 + 10 * (rand_res w (rands w + 3) mod 6))"

definition preamble_message :: "ue \<Rightarrow> s_message" where
  "preamble_message u = set_type (set_preamble \<lparr>ra_rnti = first_rnti u\<rparr> (ue_message u)) random_access_request"

definition request_message :: "int \<Rightarrow> ue \<Rightarrow> s_message" where
  "request_message pow32 u = (let w = ue_net u in
     set_establishment_cause MO_SIGNALING (set_ue_identity
       \<lparr>mme_code = to_uint8 (rand_res w (rands w + 4) mod 256),
        mtmsi = to_uint32 (rand_res w (rands w + 5) smod pow32)\<rparr>
       (set_type (set_c_rnti 0 (preamble_message u)) rrc_request)))"

text \<open>One step of the start-up each, on a network that takes the message.\<close>

definition sent_net :: "nat \<Rightarrow> int \<Rightarrow> s_message \<Rightarrow> net \<Rightarrow> net" where
  "sent_net k fd m w = w\<lparr>rands := rands w + k, writes := Suc (writes w), outbox := outbox w @ [(fd, m)]\<rparr>"

lemma sent_net_simps [simp]:
  "recv_res (sent_net k fd m w) = recv_res w" "recvs (sent_net k fd m w) = recvs w"
  "rand_res (sent_net k fd m w) = rand_res w" "rands (sent_net k fd m w) = rands w + k"
  "writes_ok (sent_net k fd m w) = writes_ok w" "outbox (sent_net k fd m w) = outbox w @ [(fd, m)]"
  by (simp_all add: sent_net_def writes_ok_def)

lemma send_preamble:
  assumes "rand_ok w" "writes_ok w"
  defines "x \<equiv> 1 + rand_res w (rands w) mod 10 + 10 * (rand_res w (Suc (rands w)) mod 6)"
  shows "send_prach_preamble fd m generate_ra_rnti w =
    (let m1 = set_type (set_preamble \<lparr>ra_rnti = x\<rparr> m) random_access_request in (0, m1, sent_net 2 fd m1 w))"
proof -
  have r: "0 \<le> rand_res w n" for n using assms(1) by (simp add: rand_ok_def)
  have "0 \<le> rand_res w (rands w) mod 10" "rand_res w (rands w) mod 10 < 10"
    "0 \<le> rand_res w (Suc (rands w)) mod 6" "rand_res w (Suc (rands w)) mod 6 < 6" by simp_all
  then have x: "to_int16 x = x" unfolding x_def by (intro to_int16_id) linarith+
  have g: "generate_ra_rnti (get_preamble m) w = (\<lparr>ra_rnti = x\<rparr>, w\<lparr>rands := Suc (Suc (rands w))\<rparr>)"
    using x by (simp add: generate_ra_rnti_def c_rand_def smod_nonneg r x_def get_preamble_def)
  have wr: "write_res w n \<noteq> -1" for n using assms(2) by (rule writes_okD)
  show ?thesis
    by (simp add: send_prach_preamble_def g write_msg_def wr sent_net_def Let_def)
qed

lemma receive_response:
  assumes "wf_message rcv" "recv_res w (recvs w) = Some (msg_bytes r)" "wf_message r"
    and "message_type r = msg_code random_access_response" "get_rapid r = 0"
    and "preamble_index_bits (ra_rnti (get_preamble m)) = 0"
  shows "receive_prach_response fd rcv m w = (0, r, set_c_rnti 0 m, w\<lparr>recvs := Suc (recvs w)\<rparr>)"
  using assms by (simp add: receive_prach_response_def recv_bytes_def to_int8_small Let_def del: msg_code.simps)

lemma send_request:
  assumes "rand_ok w" "writes_ok w" "pow32 \<noteq> 0"
  defines "i \<equiv> \<lparr>mme_code = to_uint8 (rand_res w (rands w) mod 256), mtmsi = to_uint32 (rand_res w (Suc (rands w)) smod pow32)\<rparr>"
  shows "send_rrc_connection_request fd m (generate_ue_identity pow32) w =
    (let m2 = set_establishment_cause MO_SIGNALING (set_ue_identity i (set_type m rrc_request)) in Inr (0, m2, sent_net 2 fd m2 w))"
proof -
  have r: "0 \<le> rand_res w n" for n using assms(1) by (simp add: rand_ok_def)
  have wr: "write_res w n \<noteq> -1" for n using assms(2) by (rule writes_okD)
  have "generate_ue_identity pow32 u w = Inr (i, w\<lparr>rands := Suc (Suc (rands w))\<rparr>)" for u :: s_stmsi
    using assms(3) by (simp add: generate_ue_identity_def c_rand_def smod_nonneg r i_def)
  then show ?thesis
    by (simp add: send_rrc_connection_request_def write_msg_def wr sent_net_def Let_def)
qed

lemma first_rnti_range: "rand_ok (ue_net u) \<Longrightarrow> 1 \<le> first_rnti u \<and> first_rnti u \<le> 60"
proof -
  let ?a = "rand_res (ue_net u) (rands (ue_net u) + 2)" and ?b = "rand_res (ue_net u) (rands (ue_net u) + 3)"
  have "0 \<le> ?a mod 10" "?a mod 10 < 10" "0 \<le> ?b mod 6" "?b mod 6 < 6" by simp_all
  then show ?thesis unfolding first_rnti_def Let_def by linarith
qed

lemma attach_steps:
  fixes f :: "nat \<Rightarrow> byte list option"
  assumes "rand_ok (ue_net u)" "writes_ok (ue_net u)" "wf_message (ue_message u)" "wf_message (ue_received u)"
    and "sock \<noteq> -1" "0 \<le> conn" "pow32 \<noteq> 0"
    and "f (recvs (ue_net u)) = Some (msg_bytes r1)" "f (Suc (recvs (ue_net u))) = Some (msg_bytes (setup_message c))"
    and "wf_message r1" "message_type r1 = msg_code random_access_response" "get_rapid r1 = 0"
  shows "\<exists>u' m3. ue_start sock conn pow32 (receiving f u) = Inr (Some u') \<and>
    outbox (ue_net u') = outbox (ue_net u) @
      [(sock, preamble_message u), (sock, request_message pow32 u), (sock, m3)] \<and> message_type m3 = msg_code rrc_complete \<and>
    ue_received u' = m3"
proof -
  obtain b cs r where i: "ue_initialize (receiving f u) = (receiving f u)\<lparr>ue_bat := b, ue_cells := cs,
    ue_net := (ue_net (receiving f u))\<lparr>rands := Suc (Suc (rands (ue_net (receiving f u)))), readings := r\<rparr>\<rparr>"
    using ue_initialize_net by blast
  define w0 where "w0 = (ue_net (receiving f u))\<lparr>rands := Suc (Suc (rands (ue_net (receiving f u)))), readings := r\<rparr>"
  have w0: "recv_res w0 = f" "recvs w0 = recvs (ue_net u)" "rand_res w0 = rand_res (ue_net u)"
    "rands w0 = Suc (Suc (rands (ue_net u)))" "outbox w0 = outbox (ue_net u)" "rand_ok w0" "writes_ok w0"
    using assms(1,2) by (simp_all add: w0_def receiving_def rand_ok_def writes_ok_def)
  have x: "preamble_index_bits (first_rnti u) = 0" "to_int16 (first_rnti u) = first_rnti u"
    using first_rnti_range [OF assms(1)] by (simp_all add: preamble_index_small to_int16_id)
  let ?m1 = "preamble_message u" and ?m2 = "request_message pow32 u"
  have s1: "send_prach_preamble sock (ue_message u) generate_ra_rnti w0 = (0, ?m1, sent_net 2 sock ?m1 w0)"
    using send_preamble [OF w0(6,7), of sock "ue_message u"]
    by (simp add: preamble_message_def first_rnti_def w0 Let_def eval_nat_numeral)
  define w1 where "w1 = sent_net 2 sock ?m1 w0"
  have wf1: "wf_message ?m1" "preamble_index_bits (ra_rnti (get_preamble ?m1)) = 0"
    using assms(3) x by (simp_all add: preamble_message_def get_set_preamble)
  define w2 where "w2 = w1\<lparr>recvs := Suc (recvs w1)\<rparr>"
  have s2: "receive_prach_response sock (ue_received u) ?m1 w1 = (0, r1, set_c_rnti 0 ?m1, w2)"
    unfolding w2_def
    by (rule receive_response [OF assms(4) _ assms(10-12) wf1(2)]) (simp add: w1_def w0 assms(8))
  have w2: "rand_ok w2" "writes_ok w2"
    using w0(6,7) sent_net_simps(5) [of 2 sock ?m1 w0] by (simp_all add: w2_def w1_def rand_ok_def writes_ok_def)
  define w3 where "w3 = sent_net 2 sock ?m2 w2"
  have s3: "send_rrc_connection_request sock (set_c_rnti 0 ?m1) (generate_ue_identity pow32) w2 = Inr (0, ?m2, w3)"
    using send_request [OF w2 assms(7), of sock "set_c_rnti 0 ?m1"]
    by (simp add: w3_def w2_def w1_def request_message_def w0 Let_def eval_nat_numeral)
  have "recv_res w3 (recvs w3) = Some (msg_bytes (setup_message c))" "writes_ok w3"
    using w2(2) by (simp_all add: w3_def) (simp add: w2_def w1_def w0 assms(9))
  from receive_setup [OF assms(10) this, of sock ?m2] obtain w4 where
    s4: "receive_rrc_setup sock r1 ?m2 w3 = (0, set_mnc 15 (set_mcc 234 (set_type (setup_message c) rrc_complete)), ?m2, w4)"
      "outbox w4 = outbox w3 @ [(sock, set_mnc 15 (set_mcc 234 (set_type (setup_message c) rrc_complete)))]" by blast
  have u: "ue_message (receiving f u) = ue_message u" "ue_received (receiving f u) = ue_received u"
    by (simp_all add: receiving_def)
  have "\<exists>u'. ue_start sock conn pow32 (receiving f u) = Inr (Some u') \<and> ue_net u' = w4 \<and>
      ue_received u' = set_mnc 15 (set_mcc 234 (set_type (setup_message c) rrc_complete))"
    using assms(5,6)
    by (simp add: ue_start_def i w0_def [symmetric] u init_connection_def ue_rach_def s1 w1_def [symmetric] s2 ue_rrc_def s3
        s4(1) Let_def not_less)
  moreover have "outbox w3 = outbox (ue_net u) @ [(sock, ?m1), (sock, ?m2)]"
    by (simp add: w3_def w2_def w1_def w0)
  ultimately show ?thesis using s4(2) by (fastforce simp del: msg_code.simps simp: set_type_def)
qed

section \<open>The server's side\<close>

lemma delivered_simps [simp]:
  "server_inv (delivered m s) = server_inv s" "clients_of (delivered m s) = clients_of s" "events (delivered m s) = events s"
  "writes_ok (srv_net (delivered m s)) = writes_ok (srv_net s)" "outbox (srv_net (delivered m s)) = outbox (srv_net s)"
  "srv_recv_next (delivered m s) = Some (msg_bytes m)"
  by (simp_all add: delivered_def srv_recv_next_def writes_ok_def)

lemma wf_attach_messages:
  assumes "wf_message (ue_message u)"
  shows "wf_message (preamble_message u)" "message_type (preamble_message u) = msg_code random_access_request"
    "wf_message (request_message p u)" "message_type (request_message p u) = msg_code rrc_request"
  using assms by (simp_all add: preamble_message_def request_message_def Let_def del: msg_code.simps)

text \<open>The program with its command line, on a network where a listening server can be reached.\<close>

lemma attach_program:
  fixes f :: "nat \<Rightarrow> byte list option"
  assumes "length (cells_signals (ue_cells u)) = 2" "rand_ok (ue_net u)" "writes_ok (ue_net u)"
    and "sock \<noteq> -1" "\<forall>a. reaches (init_server_address (atoi port)) a \<longrightarrow> 0 \<le> conn a" "pow32 \<noteq> 0"
    and "f (recvs (ue_net u)) = Some (msg_bytes r1)" "f (Suc (recvs (ue_net u))) = Some (msg_bytes (setup_message c))"
    and "wf_message r1" "message_type r1 = msg_code random_access_response" "get_rapid r1 = 0"
  shows "\<exists>u' m3. ue_program [name, port] 0 0 sock conn pow32 0 server (receiving f u) = Inr (Running (at u' M_guard B_guard)) \<and>
    ue_going u' \<and> message_type m3 = msg_code rrc_complete \<and>
    outbox (ue_net u') = outbox (ue_net u) @
      [(sock, preamble_message (ue_loaded u)), (sock, request_message pow32 (ue_loaded u)), (sock, m3)]"
proof -
  let ?u = "ue_loaded u"
  have conn: "0 \<le> conn (connect_address (atoi port) server)" using assms(5) addresses_meet by blast
  have ru: "ue_loaded (receiving f u) = receiving f ?u"
    by (simp add: receiving_def ue_loaded_def time_now_def)
  from attach_steps [where f = f and c = c and u = ?u, OF _ _ _ _ assms(4) conn assms(6) _ _ assms(9-11)] assms(2,3,7,8)
  obtain u' m3 where u': "ue_start sock (conn (connect_address (atoi port) server)) pow32 (receiving f ?u) = Inr (Some u')"
    "outbox (ue_net u') = outbox (ue_net u) @ [(sock, preamble_message ?u), (sock, request_message pow32 ?u), (sock, m3)]"
    "message_type m3 = msg_code rrc_complete" "ue_received u' = m3"
    by (auto simp del: msg_code.simps)
  have "ue_going u'"
    using ue_start_going [OF _ _ _ _ u'(1)] assms(1,2) u'(3,4)
    by (simp add: receiving_def rand_ok_def)
  with u' ru show ?thesis by (simp add: ue_program_def Let_def del: msg_code.simps)
qed

section \<open>Properties\<close>

text \<open>C6. A user equipment attaches: if both programs are given the same port, it connects to the address the server listens
  on; its start-up sends a preamble, a connection request and a completion; the server's answers to the first two are exactly
  what lets the start-up succeed when they arrive in order; the server ends up with the RNTI, between 1 and 60, that it
  also put into the set-up; and both threads of the equipment then run, in a state in which its loops go on.\<close>

theorem attach_completes:
  assumes "length (cells_signals (ue_cells u)) = 2" "rand_ok (ue_net u)" "writes_ok (ue_net u)"
    and "sock \<noteq> -1" "\<forall>a. reaches (init_server_address (atoi port)) a \<longrightarrow> 0 \<le> conn a" "pow32 \<noteq> 0"
    and "server_inv s" "n < length (events s)" "clients_of s (events s ! n) = Some c" "writes_ok (srv_net s)"
  shows "\<exists>m1 m2 s1 s2 r1 r2 c'.
    parse_packet n (delivered m1 s) = Inr s1 \<and> outbox (srv_net s1) = outbox (srv_net s) @ [(events s ! n, r1)] \<and>
    parse_packet n (delivered m2 s1) = Inr s2 \<and> outbox (srv_net s2) = outbox (srv_net s1) @ [(events s ! n, r2)] \<and>
    clients_of s2 (events s ! n) = Some c' \<and> 1 \<le> rnti c' \<and> rnti c' \<le> 60 \<and> get_rrc_response r2 3 = rnti c' \<and>
    (\<forall>f. f (recvs (ue_net u)) = Some (msg_bytes r1) \<longrightarrow> f (Suc (recvs (ue_net u))) = Some (msg_bytes r2) \<longrightarrow>
      (\<exists>u' m3. ue_program [name, port] 0 0 sock conn pow32 0 server (receiving f u) = Inr (Running (at u' M_guard B_guard)) \<and>
        ue_going u' \<and> message_type m3 = msg_code rrc_complete \<and>
        outbox (ue_net u') = outbox (ue_net u) @ [(sock, m1), (sock, m2), (sock, m3)]))"
proof -
  let ?fd = "events s ! n" and ?m1 = "preamble_message (ue_loaded u)" and ?m2 = "request_message pow32 (ue_loaded u)"
    and ?x = "first_rnti (ue_loaded u)"
  have u: "wf_message (ue_message (ue_loaded u))" "rand_ok (ue_net (ue_loaded u))" using assms(2) by simp_all
  note wf = wf_attach_messages [OF u(1)]
  note x = first_rnti_range [OF u(2)]
  then have rn: "ra_rnti (get_preamble ?m1) = ?x" "extractPreambleIndex ?x = 0"
    by (simp_all add: preamble_message_def get_set_preamble to_int16_id both_sides_same_index preamble_index_small to_int8_small)
  let ?s = "delivered ?m1 s"
  have s: "server_inv ?s" "n < length (events ?s)" "clients_of ?s (events ?s ! n) = Some c" "writes_ok (srv_net ?s)"
    "srv_recv_next ?s = Some (msg_bytes ?m1)" using assms(7-10) by simp_all
  from parse_random_access [OF s wf(1,2)] obtain s1 r1 where
    s1: "parse_packet n ?s = Inr s1" "outbox (srv_net s1) = outbox (srv_net s) @ [(?fd, r1)]" "wf_message r1"
      "message_type r1 = msg_code random_access_response" "get_rapid r1 = 0" "writes_ok (srv_net s1)"
      and cl: "\<exists>c'. clients_of s1 ?fd = Some c' \<and> rnti c' = ?x"
    unfolding rn delivered_simps by (auto simp del: msg_code.simps)
  from cl obtain c' where c': "clients_of s1 ?fd = Some c'" "rnti c' = ?x" by blast
  have "server_inv s1 \<and> events s1 = events s"
    using parse_packet_known [OF s(1,2) refl] s(3,5) s1(1) by fastforce
  then have s2i: "server_inv (delivered ?m2 s1)" "n < length (events (delivered ?m2 s1))" "events s1 = events s"
    "clients_of (delivered ?m2 s1) (events (delivered ?m2 s1) ! n) = Some c'"
    "writes_ok (srv_net (delivered ?m2 s1))" using assms(8) c'(1) s1(6) by simp_all
  from parse_rrc_request [OF s2i(1,2,4,5) _ wf(3,4)] obtain s2 where
    s2: "parse_packet n (delivered ?m2 s1) = Inr s2" "clients_of s2 = clients_of s1"
      "outbox (srv_net s2) = outbox (srv_net s1) @ [(?fd, setup_message c')]" using s2i(3) by auto
  have g: "get_rrc_response (setup_message c') 3 = rnti c'"
    using x c'(2) by (simp add: setup_message_simps signed_take_bit_int_eq_self)
  have f: "\<exists>u' m3. ue_program [name, port] 0 0 sock conn pow32 0 server (receiving f u) = Inr (Running (at u' M_guard B_guard)) \<and>
      ue_going u' \<and> message_type m3 = msg_code rrc_complete \<and>
      outbox (ue_net u') = outbox (ue_net u) @ [(sock, ?m1), (sock, ?m2), (sock, m3)]"
    if "f (recvs (ue_net u)) = Some (msg_bytes r1)" "f (Suc (recvs (ue_net u))) = Some (msg_bytes (setup_message c'))" for f
    by (rule attach_program [where f = f, OF assms(1-6) that s1(3-5)])
  show ?thesis
    by (rule exI [of _ ?m1], rule exI [of _ ?m2], rule exI [of _ s1], rule exI [of _ s2], rule exI [of _ r1],
        rule exI [of _ "setup_message c'"], rule exI [of _ c'], intro conjI s1 s2 g allI impI)
      (use c' s2(2) x f in \<open>auto simp del: msg_code.simps\<close>)
qed

lemma attach_completes_witness:
  "\<exists>s m1 m2 s1 s2 r1 r2 u'. clients_of s = [8 \<mapsto> client8, 15 \<mapsto> client15] \<and>
    parse_packet 0 (delivered m1 s) = Inr s1 \<and> outbox (srv_net s1) = [(8, r1)] \<and>
    parse_packet 0 (delivered m2 s1) = Inr s2 \<and> outbox (srv_net s2) = [(8, r1), (8, r2)] \<and>
    ue_program [''client'', ''8080''] 0 0 4 (\<lambda>a. if reaches (init_server_address (atoi ''8080'')) a then 0 else -1) 7 0
      (init_server_address 0) (receiving (\<lambda>n. Some (msg_bytes (if n = 0 then r1 else r2))) (some_ue [])) =
      Inr (Running (at u' M_guard B_guard)) \<and> ue_going u'"
proof -
  let ?u = "some_ue []" and ?conn = "\<lambda>a. if reaches (init_server_address (atoi ''8080'')) a then 0 else -1 :: int"
  note u = some_ue_start_conditions(1,2) [of "[]"] some_ue_simps(6)
  have r0: "recvs (ue_net ?u) = 0" by (simp add: some_ue_def quiet_net_def)
  obtain s where s: "server_up s" "clients_of s = [8 \<mapsto> client8, 15 \<mapsto> client15]" "srv_net s = quiet_net (\<lambda>_. 0)"
    "events s ! 0 = 8" "length (events s) = 100"
    by (rule event_from_8 [of "quiet_net (\<lambda>_. 0)"]) (simp, blast)
  have h: "0 < length (events s)" "clients_of s (events s ! 0) = Some client8" "writes_ok (srv_net s)"
    by (simp_all add: s)
  have p: "(4 :: int) \<noteq> -1" "\<forall>a. reaches (init_server_address (atoi ''8080'')) a \<longrightarrow> 0 \<le> ?conn a" "(7 :: int) \<noteq> 0" by simp_all
  from attach_completes [where name = "''client''" and server = "init_server_address 0", OF u p server_upD(1) [OF s(1)] h]
  obtain m1 m2 s1 s2 r1 r2 c' where o: "parse_packet 0 (delivered m1 s) = Inr s1"
    "outbox (srv_net s1) = outbox (srv_net s) @ [(events s ! 0, r1)]" "parse_packet 0 (delivered m2 s1) = Inr s2"
    "outbox (srv_net s2) = outbox (srv_net s1) @ [(events s ! 0, r2)]"
    "clients_of s2 (events s ! 0) = Some c'" "1 \<le> rnti c'" "rnti c' \<le> 60" "get_rrc_response r2 3 = rnti c'"
    and f: "\<forall>f. f (recvs (ue_net ?u)) = Some (msg_bytes r1) \<longrightarrow> f (Suc (recvs (ue_net ?u))) = Some (msg_bytes r2) \<longrightarrow>
      (\<exists>u' m3. ue_program [''client'', ''8080''] 0 0 4 ?conn 7 0 (init_server_address 0) (receiving f ?u) =
          Inr (Running (at u' M_guard B_guard)) \<and> ue_going u' \<and> message_type m3 = msg_code rrc_complete \<and>
        outbox (ue_net u') = outbox (ue_net ?u) @ [(4, m1), (4, m2), (4, m3)])" by (elim exE conjE) simp_all
  from spec [OF f, of "\<lambda>n. Some (msg_bytes (if n = 0 then r1 else r2))"] obtain u' where
    "ue_program [''client'', ''8080''] 0 0 4 ?conn 7 0 (init_server_address 0)
      (receiving (\<lambda>n. Some (msg_bytes (if n = 0 then r1 else r2))) ?u) = Inr (Running (at u' M_guard B_guard))" "ue_going u'"
    by (auto simp: r0)
  moreover have "outbox (srv_net s1) = [(8, r1)]" "outbox (srv_net s2) = [(8, r1), (8, r2)]"
    using o(2,4) s by simp_all
  ultimately show ?thesis using s(2) o(1,3) by blast
qed

end
