(* ===== verification/Dialogue.thy ===== *)
theory Dialogue
  imports Attach Server_Kick
begin

text \<open>
  The dialogues between the two programs once the equipment is attached: a ping and its pong, the
  notifications of the battery, and a measurement request and its report.  Each message that one program
  sends is handed to the other one, pass by pass.
\<close>

section \<open>The server receives the messages of one client\<close>

text \<open>One pass of the main thread for every message: epoll reports the descriptor, then the message is read.\<close>

fun serve :: "int \<Rightarrow> s_message list \<Rightarrow> server_t \<Rightarrow> server_t res" where
  "serve fd [] s = Inr s"
| "serve fd (m # ms) s = bind_res (receive_packets_pass (Some [fd]) (delivered m s)) (serve fd ms)"

lemma serve_append: "serve fd (ms @ ms') s = bind_res (serve fd ms s) (serve fd ms')"
proof (induction ms arbitrary: s)
  case (Cons m ms)
  have "serve fd (ms @ ms') = (\<lambda>x. bind_res (serve fd ms x) (serve fd ms'))" by (rule ext) (rule Cons.IH)
  then show ?case by simp
qed simp

text \<open>The state in which the \<open>switch\<close> then looks at the message.\<close>

definition hearing :: "int \<Rightarrow> s_message \<Rightarrow> server_t \<Rightarrow> server_t" where
  "hearing fd m s = (with_events [fd] (delivered m s))\<lparr>srv_net := snd (recv_bytes (srv_net (delivered m s)))\<rparr>"

lemma delivered_net:
  "clock (srv_net (delivered m s)) = clock (srv_net s)" "readings (srv_net (delivered m s)) = readings (srv_net s)"
  "clients_inv (delivered m s) = clients_inv s" "exit_status (delivered m s) = exit_status s"
  "server_socket (delivered m s) = server_socket s"
  by (simp_all add: delivered_def)

lemma hearing_simps:
  "clients_of (hearing fd m s) = clients_of s" "clients_inv (hearing fd m s) = clients_inv s"
  "exit_status (hearing fd m s) = exit_status s"
  "clock (srv_net (hearing fd m s)) = clock (srv_net s)" "readings (srv_net (hearing fd m s)) = readings (srv_net s)"
  "outbox (srv_net (hearing fd m s)) = outbox (srv_net s)" "writes_ok (srv_net (hearing fd m s)) = writes_ok (srv_net s)"
  by (simp_all add: hearing_def recv_bytes_net delivered_net)

lemma server_up_hearing: "server_up s \<Longrightarrow> server_up (hearing fd m s)"
proof -
  assume "server_up s"
  then have "server_up (delivered m s)" by (simp add: server_up_def delivered_net)
  from with_events_up(1) [OF this, of "[fd]"] show ?thesis by (simp add: hearing_def server_up_def)
qed

lemma receive_one:
  assumes "server_up s" "clients_of s fd = Some c" "wf_message m"
  shows "receive_packets_pass (Some [fd]) (delivered m s) = dispatch fd m (hearing fd m s)"
proof -
  let ?s = "with_events [fd] (delivered m s)"
  have up: "server_up (delivered m s)" using assms(1) by (simp add: server_up_def delivered_net)
  have n: "0 < length (events ?s)" "events ?s ! 0 = fd" "srv_recv_next ?s = Some (msg_bytes m)" "exit_status ?s = None"
    using with_events_up [OF up, of "[fd]"] up by (simp_all add: server_up_def srv_recv_next_def delivered_def)
  have ne: "fd \<noteq> server_socket ?s" using server_upD(1) [OF assms(1)] assms(2) by (auto simp: server_inv_def delivered_net)
  have u: "[0..<length [fd]] = [0]" by simp
  have "receive_packets_pass (Some [fd]) (delivered m s) = handle_events [0] ?s"
    by (simp only: receive_packets_pass_def handle_connection_def with_events_def option.case u)
  also have "\<dots> = parse_packet 0 ?s"
    using n ne by (cases "parse_packet 0 ?s") (auto simp: event_socket_def)
  also have "\<dots> = dispatch fd m (hearing fd m s)"
    using parse_packet_message [OF n(1-3) assms(3)] by (simp add: hearing_def)
  finally show ?thesis .
qed

text \<open>What a pass does that handles one message by changing the client that has sent it, and answers nothing.\<close>

definition changed :: "int \<Rightarrow> (client_t \<Rightarrow> client_t) \<Rightarrow> server_t \<Rightarrow> server_t \<Rightarrow> bool" where
  "changed fd f s s' \<longleftrightarrow> server_up s' \<and> clients_of s' = (clients_of s)(fd := map_option f (clients_of s fd)) \<and>
    outbox (srv_net s') = outbox (srv_net s) \<and> clock (srv_net s') = clock (srv_net s)"

lemma changedI:
  assumes "server_up s" "updates_client fd f (hearing fd m s) s'"
    "outbox (srv_net s') = outbox (srv_net s)" "clock (srv_net s') = clock (srv_net s)"
  shows "changed fd f s s'"
proof -
  have up: "server_inv (hearing fd m s)" "exit_status (hearing fd m s) = None"
    using server_up_hearing [OF assms(1)] by (simp_all add: server_up_def)
  have "server_up s'"
    using updates_client_inv [OF up(1) assms(2)] only_net_heapD(7) assms(2) up(2)
    by (auto simp: server_up_def updates_client_def)
  with assms(2-4) show ?thesis by (simp add: changed_def updates_client_def hearing_simps)
qed

lemma handler_nets:
  "handle_pong fd s = Inr s' \<Longrightarrow> outbox (srv_net s') = outbox (srv_net s) \<and> clock (srv_net s') = clock (srv_net s)"
  "handle_low_battery_request fd s = Inr s' \<Longrightarrow> srv_net s' = srv_net s"
  "handle_high_battery_request fd s = Inr s' \<Longrightarrow> srv_net s' = srv_net s"
  by (auto simp: handle_pong_def handle_low_battery_request_def handle_high_battery_request_def srv_time_def time_now_def
      upd_client_def bind_res_Inr_iff)

lemma serve_one:
  assumes "server_up s" "clients_of s fd = Some c" "wf_message m"
  shows "message_type m = msg_code pong \<Longrightarrow> \<exists>s'. serve fd [m] s = Inr s' \<and>
      changed fd (\<lambda>c. c\<lparr>last_activity := clock (srv_net s) (readings (srv_net s))\<rparr>) s s'"
    and "message_type m = msg_code ue_battery_low \<Longrightarrow> \<exists>s'. serve fd [m] s = Inr s' \<and> changed fd (\<lambda>c. c\<lparr>battery_state := LOW\<rparr>) s s'"
    and "message_type m = msg_code ue_battery_high \<Longrightarrow> \<exists>s'. serve fd [m] s = Inr s' \<and> changed fd (\<lambda>c. c\<lparr>battery_state := OK\<rparr>) s s'"
    and "message_type m = msg_code measurement_report \<Longrightarrow> \<exists>s'. serve fd [m] s = Inr s' \<and> changed fd id s s'"
proof -
  let ?s = "hearing fd m s"
  have d: "serve fd [m] s = dispatch fd m ?s" if "message_type m = msg_code t" for t
    using receive_one [OF assms] by (cases "dispatch fd m ?s") simp_all
  have inv: "clients_inv ?s" "clients_of ?s fd = Some c"
    using server_upD(2) [OF assms(1)] assms(2) by (simp_all add: hearing_simps)
  note hs = hearing_simps(4-6)
  show "\<exists>s'. serve fd [m] s = Inr s' \<and> changed fd (\<lambda>c. c\<lparr>last_activity := clock (srv_net s) (readings (srv_net s))\<rparr>) s s'"
    if t: "message_type m = msg_code pong"
    using handle_pong_known [OF inv] handler_nets(1) d [OF t] t
    by (fastforce intro!: changedI [OF assms(1)] simp: dispatch_def msg_label_code hs simp del: msg_code.simps)
  show "\<exists>s'. serve fd [m] s = Inr s' \<and> changed fd (\<lambda>c. c\<lparr>battery_state := LOW\<rparr>) s s'"
    if t: "message_type m = msg_code ue_battery_low"
    using handle_battery_known(1) [OF inv] handler_nets(2) d [OF t] t
    by (fastforce intro!: changedI [OF assms(1)] simp: dispatch_def msg_label_code hs simp del: msg_code.simps)
  show "\<exists>s'. serve fd [m] s = Inr s' \<and> changed fd (\<lambda>c. c\<lparr>battery_state := OK\<rparr>) s s'"
    if t: "message_type m = msg_code ue_battery_high"
    using handle_battery_known(2) [OF inv] handler_nets(3) d [OF t] t
    by (fastforce intro!: changedI [OF assms(1)] simp: dispatch_def msg_label_code hs simp del: msg_code.simps)
  show "\<exists>s'. serve fd [m] s = Inr s' \<and> changed fd id s s'" if t: "message_type m = msg_code measurement_report"
    using server_up_hearing [OF assms(1)] d [OF t] t
    by (auto simp: dispatch_def msg_label_code changed_def hearing_simps option.map_id fun_upd_idem simp del: msg_code.simps)
qed

text \<open>Whatever happens on the network, as long as the clock goes right.\<close>

lemma server_up_net:
  assumes "server_up s" "clock_ok w"
  shows "server_up (s\<lparr>srv_net := w\<rparr>)"
proof -
  have "times_ok (s\<lparr>srv_net := w\<rparr>)" using assms by (simp add: server_up_def server_inv_def times_ok_def)
  with assms(1) show ?thesis by (simp add: server_up_def server_inv_def)
qed

section \<open>What the two passes send to one client\<close>

lemma client_listD:
  assumes "distinct (map client_socket cs)" "c \<in> set cs" "client_socket c = fd"
  shows "filter (\<lambda>x. fst x = fd) (map (\<lambda>c. (client_socket c, g)) cs) = [(fd, g)]"
  using filter_one [OF assms, of "\<lambda>_. [g]"] by (simp add: o_def)

lemma ping_trace_other:
  "fd \<notin> set (map client_socket cs) \<Longrightarrow> filter (\<lambda>x. fst x = fd) (ping_trace clk r cs) = []"
  by (induction cs arbitrary: r) auto

lemma ping_trace_one:
  assumes "distinct (map client_socket cs)" "c \<in> set cs" "client_socket c = fd"
  shows "(\<forall>k. ping_due c (clk k)) \<Longrightarrow> filter (\<lambda>x. fst x = fd) (ping_trace clk r cs) = [(fd, set_type zero_message ping)]"
    and "(\<forall>k. \<not> ping_due c (clk k)) \<Longrightarrow> filter (\<lambda>x. fst x = fd) (ping_trace clk r cs) = []"
  using assms
proof (induction cs arbitrary: r)
  case (Cons d cs)
  {
    case 1
    with Cons.IH(1) [of "Suc r"] ping_trace_other [of fd cs clk "Suc r"] show ?case by (cases "d = c") auto
  next
    case 2
    with Cons.IH(2) [of "Suc r"] ping_trace_other [of fd cs clk "Suc r"] show ?case by (cases "d = c") auto
  }
qed simp_all

lemma messages_to_append: "outbox w' = outbox w @ l \<Longrightarrow> messages_to fd w w' = map snd (filter (\<lambda>x. fst x = fd) l)"
  by (simp add: messages_to_def sent_since_def)

text \<open>A pinging pass, for one client that is not silent for too long.\<close>

lemma ping_pass_client:
  assumes "server_up s" "writes_ok (srv_net s)" "clients_of s fd = Some c"
    and "\<forall>k. clock (srv_net s) k - last_activity c \<le> PING_TIMEOUT"
  shows "\<exists>s'. ping_and_timeout_pass s = Inr s' \<and> server_up s' \<and> clients_of s' fd = Some c \<and>
    ((\<forall>k. ping_due c (clock (srv_net s) k)) \<longrightarrow> messages_to fd (srv_net s) (srv_net s') = [set_type zero_message ping]) \<and>
    ((\<forall>k. \<not> ping_due c (clock (srv_net s) k)) \<longrightarrow> messages_to fd (srv_net s) (srv_net s') = [])"
proof -
  from ping_pass_pings [OF server_upD(1) [OF assms(1)] assms(2)] obtain cs s' where
    s': "ping_and_timeout_pass s = Inr s'" "distinct (map client_socket cs)" "set cs = ran (clients_of s)"
      "outbox (srv_net s') = outbox (srv_net s) @ ping_trace (clock (srv_net s)) (readings (srv_net s)) cs"
      and kept: "\<forall>fd. clients_of s' fd = clients_of s fd \<or> clients_of s' fd = None \<and> (\<exists>n c. clients_of s fd = Some c \<and>
        readings (srv_net s) \<le> n \<and> PING_TIMEOUT < clock (srv_net s) n - last_activity c)"
    by (elim exE conjE)
  have "c \<in> set cs" using s'(3) assms(3) by (auto intro: ranI)
  moreover have "client_socket c = fd" using clients_of_socket [OF server_upD(2) [OF assms(1)] assms(3)] by simp
  ultimately have "(\<forall>k. ping_due c (clock (srv_net s) k)) \<Longrightarrow> messages_to fd (srv_net s) (srv_net s') = [set_type zero_message ping]"
    "(\<forall>k. \<not> ping_due c (clock (srv_net s) k)) \<Longrightarrow> messages_to fd (srv_net s) (srv_net s') = []"
    using ping_trace_one [OF s'(2)] by (simp_all add: messages_to_append [OF s'(4)])
  moreover have "clients_of s' fd = Some c"
    using spec [OF kept, of fd] assms(3,4) by (auto simp: not_less [symmetric])
  moreover have "server_up s'" using pings_ok [OF assms(1)] s'(1) by auto
  ultimately show ?thesis using s'(1) by blast
qed

lemma measurement_pass_client:
  assumes "server_up s" "writes_ok (srv_net s)" "clients_of s fd = Some c"
  shows "\<exists>s'. measurement_pass s = Inr s' \<and> server_up s' \<and> clients_of s' = clients_of s \<and>
    messages_to fd (srv_net s) (srv_net s') = [set_type zero_message measurement_control_request]"
proof -
  from measurement_pass_ok [OF server_upD(2) [OF assms(1)]] obtain cs where
    cs: "client_list s cs" "measurement_pass s = Inr (s\<lparr>srv_net := fold (send_net measurement_control_request) cs (srv_net s)\<rparr>)"
    by blast
  have "distinct (map client_socket cs)" "c \<in> set cs" "client_socket c = fd"
    using cs(1) assms(3) by (auto simp: client_list_def)
  note f = client_listD [OF this, of "set_type zero_message measurement_control_request"]
  have "outbox (fold (send_net measurement_control_request) cs (srv_net s)) =
      outbox (srv_net s) @ map (\<lambda>c. (client_socket c, set_type zero_message measurement_control_request)) cs"
    using fold_send [OF assms(2)] by blast
  with cs(2) measurements_ok [OF assms(1)] show ?thesis by (simp add: messages_to_append f)
qed

section \<open>The messages of the battery\<close>

text \<open>What a listener takes the battery to be after these messages: low if the last was a low one.\<close>

definition heard :: "s_message list \<Rightarrow> bool \<Rightarrow> bool" where
  "heard ms l = foldl (\<lambda>l m. message_type m = msg_code ue_battery_low) l ms"

lemma heard_simps [simp]:
  "heard [] l = l" "heard (m # ms) l = heard ms (message_type m = msg_code ue_battery_low)"
  "heard (ms @ ms') l = heard ms' (heard ms l)"
  by (simp_all add: heard_def)

definition notice :: "s_message \<Rightarrow> bool" where
  "notice m \<longleftrightarrow> wf_message m \<and> message_type m \<in> {msg_code ue_battery_low, msg_code ue_battery_high}"

text \<open>
  A run of the battery sends notices to the one descriptor, and a listener who took the battery for \<open>l\<close> before takes it for
  \<open>l'\<close> then.
\<close>

definition tells :: "int \<Rightarrow> bool \<Rightarrow> bool \<Rightarrow> net \<Rightarrow> net \<Rightarrow> bool" where
  "tells fd l l' w w' \<longleftrightarrow> writes_ok w' \<and>
    (\<exists>ms. outbox w' = outbox w @ map (Pair fd) ms \<and> (\<forall>m \<in> set ms. notice m) \<and> heard ms l = l')"

lemma tells_refl: "writes_ok w' \<Longrightarrow> outbox w' = outbox w \<Longrightarrow> tells fd l l w w'"
  unfolding tells_def by (intro conjI exI [of _ "[]"]) simp_all

lemma tells_trans: "tells fd l l1 w w1 \<Longrightarrow> tells fd l1 l2 w1 w2 \<Longrightarrow> tells fd l l2 w w2"
proof -
  assume "tells fd l l1 w w1" "tells fd l1 l2 w1 w2"
  then obtain ms ms' where "outbox w1 = outbox w @ map (Pair fd) ms" "\<forall>m \<in> set ms. notice m" "heard ms l = l1"
    "outbox w2 = outbox w1 @ map (Pair fd) ms'" "\<forall>m \<in> set ms'. notice m" "heard ms' l1 = l2" "writes_ok w2"
    by (auto simp: tells_def)
  then show ?thesis unfolding tells_def by (intro conjI exI [of _ "ms @ ms'"]) auto
qed

text \<open>
  What keeps the listener in step: in a phase whose notice has been sent the flag is right, and the flag is never set far
  above the threshold.
\<close>

definition view_ok :: "ue_battery \<Rightarrow> bool" where
  "view_ok b \<longleftrightarrow> battery_inv b \<and> (sent_notification b \<longrightarrow> (power_is_low b \<longleftrightarrow> \<not> charging b)) \<and>
    (power_is_low b \<longrightarrow> power_percentage b \<le> (if charging b then 31 else 20))"

lemma check_battery_status_tells:
  assumes "wf_message m" "writes_ok w" "view_ok b" "check_battery_status fd step m b w = (m', b', w')" "step \<le> 12"
  shows "tells fd (power_is_low b) (power_is_low b') w w'" "view_ok b'" "wf_message m'"
    "charging b' \<Longrightarrow> 20 \<le> power_percentage b \<Longrightarrow> power_percentage b < 20 + step \<Longrightarrow> \<not> power_is_low b'"
proof -
  let ?low = "\<not> charging b \<and> power_percentage b \<le> 20 \<and> 20 - step < power_percentage b"
  let ?high = "charging b \<and> 20 \<le> power_percentage b \<and> power_percentage b < 20 + step"
  have ok: "write_res w n \<noteq> -1" for n using assms(2) by (rule writes_okD)
  have sent: "tells fd l l' w w'" if "notice m1" "outbox w' = outbox w @ [(fd, m1)]" "writes_ok w'"
    "l' = (message_type m1 = msg_code ue_battery_low)" for m1 l l'
    unfolding tells_def using that by (intro conjI exI [of _ "[m1]"]) simp_all
  have n: "notice (set_type m ue_battery_low)" "notice (set_type m ue_battery_high)"
    using assms(1) by (simp_all add: notice_def del: msg_code.simps)
  show "tells fd (power_is_low b) (power_is_low b') w w'" "view_ok b'" "wf_message m'"
    "charging b' \<Longrightarrow> 20 \<le> power_percentage b \<Longrightarrow> power_percentage b < 20 + step \<Longrightarrow> \<not> power_is_low b'"
    using assms ok n sent [OF n(1)] sent [OF n(2)] tells_refl [of w w fd "power_is_low b"]
    by (auto simp: check_battery_status_def send_low_battery_notification_def send_high_battery_notification_def
        low_battery_threshold_def write_msg_ok [OF assms(2)] view_ok_def battery_inv_def Let_def
        split: if_splits)
qed

lemma update_battery_tells:
  assumes "wf_message m" "writes_ok w" "view_ok b" "update_battery fd m b w = (r, m', b', w')"
  shows "tells fd (power_is_low b) (power_is_low b') w w'" "view_ok b'" "wf_message m'"
proof -
  obtain m1 b1 w1 where c: "check_battery_status fd 12 m b w = (m1, b1, w1)" by (metis prod_cases3)
  note k = check_battery_status_tells [OF assms(1-3) c]
  have p: "power_percentage b = power_percentage b1" using check_battery_status_keeps(1) [OF c] by simp
  have i: "to_int8 (power_percentage b1 - 12) = power_percentage b1 - 12" "to_int8 (power_percentage b1 + 12) = power_percentage b1 + 12"
    using k(2) by (auto simp: view_ok_def battery_inv_def intro!: to_int8_id)
  have "m' = m1 \<and> outbox w' = outbox w1 \<and> writes_ok w' = writes_ok w1 \<and> power_is_low b' = power_is_low b1"
    using assms(4) by (auto simp: update_battery_def c time_now_def battery_ends_def writes_ok_def Let_def split: if_splits)
  moreover from this k(1) have "tells fd (power_is_low b1) (power_is_low b') w1 w'" using tells_refl by (auto simp: tells_def)
  ultimately show "tells fd (power_is_low b) (power_is_low b') w w'" "wf_message m'"
    using k(1,3) tells_trans by blast+
  have "power_percentage b1 \<le> 19" if "charging b1" "power_is_low b1"
  proof (rule ccontr)
    assume "\<not> power_percentage b1 \<le> 19"
    with that k(2,4) show False by (auto simp: view_ok_def p)
  qed
  then show "view_ok b'"
    using assms(4) k(2) i
    by (auto simp: update_battery_def c time_now_def battery_ends_def view_ok_def battery_inv_def p Let_def split: if_splits)
qed

lemma decrease_after_ping_tells:
  assumes "wf_message m" "writes_ok w" "view_ok b" "decrease_after_ping fd m b w = (m', b', w')"
  shows "tells fd (power_is_low b) (power_is_low b') w w'" "view_ok b'" "wf_message m'"
proof -
  obtain m1 b1 w1 where c: "check_battery_status fd 2 m b w = (m1, b1, w1)" by (metis prod_cases3)
  note k = check_battery_status_tells [OF assms(1-3) c]
  have i: "2 \<le> power_percentage b1 \<Longrightarrow> to_int8 (power_percentage b1 - 2) = power_percentage b1 - 2"
    using k(2) by (auto simp: view_ok_def battery_inv_def intro!: to_int8_id)
  have e: "m' = m1" "w' = w1" "power_is_low b' = power_is_low b1"
    using assms(4) by (auto simp: decrease_after_ping_def c Let_def split: if_splits)
  with k show "tells fd (power_is_low b) (power_is_low b') w w'" "wf_message m'" by simp_all
  show "view_ok b'"
    using assms(4) k(2) i by (auto simp: decrease_after_ping_def c view_ok_def battery_inv_def Let_def split: if_splits)
qed

lemma run_battery_tells:
  assumes "wf_message m" "writes_ok w" "view_ok b" "run_battery fd ops (m, b, w) = (m', b', w')"
  shows "tells fd (power_is_low b) (power_is_low b') w w' \<and> view_ok b'"
  using assms
proof (induction ops arbitrary: m b w)
  case Nil
  then show ?case by (auto intro: tells_refl)
next
  case (Cons op ops)
  have "\<exists>m1 b1 w1. run_battery fd ops (m1, b1, w1) = (m', b', w') \<and> tells fd (power_is_low b) (power_is_low b1) w w1 \<and>
    view_ok b1 \<and> wf_message m1"
  proof (cases op)
    case Update
    obtain r m1 b1 w1 where u: "update_battery fd m b w = (r, m1, b1, w1)" by (metis prod_cases4)
    with Cons.prems(4) Update update_battery_tells [OF Cons.prems(1-3) u] show ?thesis by auto
  next
    case Pinged
    obtain m1 b1 w1 where u: "decrease_after_ping fd m b w = (m1, b1, w1)" by (metis prod_cases3)
    with Cons.prems(4) Pinged decrease_after_ping_tells [OF Cons.prems(1-3) u] show ?thesis by auto
  qed
  then obtain m1 b1 w1 where s1: "run_battery fd ops (m1, b1, w1) = (m', b', w')"
    "tells fd (power_is_low b) (power_is_low b1) w w1" "view_ok b1" "wf_message m1" by blast
  from s1(2) have "writes_ok w1" by (simp add: tells_def)
  from Cons.IH [OF s1(4) this s1(3,1)] tells_trans [OF s1(2)] show ?case by blast
qed

text \<open>The server that hears them: its state of the battery is the last one announced.\<close>

abbreviation state_of :: "bool \<Rightarrow> battery_state_t" where
  "state_of l \<equiv> if l then LOW else OK"

lemma serve_notices:
  assumes "server_up s" "clients_of s fd = Some c" "battery_state c = state_of l" "\<forall>m \<in> set ms. notice m"
  shows "\<exists>s'. serve fd ms s = Inr s' \<and> server_up s' \<and> outbox (srv_net s') = outbox (srv_net s) \<and>
    clients_of s' = (clients_of s)(fd \<mapsto> c\<lparr>battery_state := state_of (heard ms l)\<rparr>)"
  using assms
proof (induction ms arbitrary: s c l)
  case Nil
  have "c\<lparr>battery_state := state_of l\<rparr> = c" using Nil.prems(3) by (cases l) simp_all
  then show ?case using Nil.prems by (simp add: fun_upd_idem)
next
  case (Cons m ms)
  let ?l = "message_type m = msg_code ue_battery_low"
  have m: "wf_message m" "message_type m = msg_code (if ?l then ue_battery_low else ue_battery_high)"
    using Cons.prems(4) by (auto simp: notice_def simp del: msg_code.simps)
  have "\<exists>s1. serve fd [m] s = Inr s1 \<and> changed fd (\<lambda>c. c\<lparr>battery_state := state_of ?l\<rparr>) s s1"
    using serve_one(2,3) [OF Cons.prems(1,2) m(1)] m(2) by (cases ?l) (simp_all del: msg_code.simps serve.simps)
  then obtain s1 where s1: "serve fd [m] s = Inr s1" "changed fd (\<lambda>c. c\<lparr>battery_state := state_of ?l\<rparr>) s s1" by blast
  let ?c = "c\<lparr>battery_state := state_of ?l\<rparr>"
  have c1: "server_up s1" "clients_of s1 = (clients_of s)(fd \<mapsto> ?c)" "outbox (srv_net s1) = outbox (srv_net s)"
    using s1(2) Cons.prems(2) by (simp_all add: changed_def)
  have "clients_of s1 fd = Some ?c" "battery_state ?c = state_of ?l" "\<forall>m \<in> set ms. notice m" using c1(2) Cons.prems(4) by simp_all
  from Cons.IH [OF c1(1) this] obtain s' where s': "serve fd ms s1 = Inr s'" "server_up s'"
    "outbox (srv_net s') = outbox (srv_net s1)"
    "clients_of s' = (clients_of s1)(fd \<mapsto> ?c\<lparr>battery_state := state_of (heard ms ?l)\<rparr>)" by blast
  have "serve fd (m # ms) s = Inr s'" using serve_append [of fd "[m]" ms s] s1(1) s'(1) by (simp del: serve.simps)
  with s' c1 show ?case by (auto simp: fun_eq_iff simp del: serve.simps)
qed

lemma bat_cycle_level:
  assumes "bat_cycle n (bat_abs b)"
  shows "even n \<longleftrightarrow> charging b = sent_notification b"
    and "power_percentage b < 16 \<Longrightarrow> odd n" and "24 < power_percentage b \<Longrightarrow> even n"
  using assms by (auto simp: bat_cycle_def bat_abs_def)

text \<open>The equipment with one message waiting for it.\<close>

lemma receiving_keeps:
  "ue_going (receiving f u) = ue_going u" "writes_ok (ue_net (receiving f u)) = writes_ok (ue_net u)"
  "outbox (ue_net (receiving f u)) = outbox (ue_net u)" "ue_socket (receiving f u) = ue_socket u"
  "ue_cells (receiving f u) = ue_cells u" "recv_next (receiving f u) = f (recvs (ue_net u))"
  by (simp_all add: receiving_def ue_going_def ue_inv_def ue_idle_def writes_ok_def recv_next_def)

section \<open>Properties\<close>

text \<open>C7. A ping keeps a client that answers: if the last activity of a client is long enough ago, the pinging thread
  sends it exactly one ping; the user equipment answers it in the pass that receives it, with a pong before anything else;
  the server that receives the pong takes the time as the last activity; and whatever has happened on the network since, the next pass of
  the pinging thread keeps the client as long as no more than 4000 seconds have gone by, and does not ping it
  again before the next ping is due.\<close>

theorem ping_round_trip:
  assumes "server_up s" "writes_ok (srv_net s)" "clients_of s fd = Some c"
    and "\<forall>k. ping_due c (clock (srv_net s) k) \<and> clock (srv_net s) k - last_activity c \<le> PING_TIMEOUT"
    and "ue_going u" "writes_ok (ue_net u)"
  shows "\<exists>s1 q u' p rest s2 c2. ping_and_timeout_pass s = Inr s1 \<and>
    messages_to fd (srv_net s) (srv_net s1) = [q] \<and> message_type q = msg_code ping \<and>
    ue_main_pass (receiving (\<lambda>_. Some (msg_bytes q)) u) = Inr (True, u') \<and>
    outbox (ue_net u') = outbox (ue_net u) @ (ue_socket u, p) # rest \<and> message_type p = msg_code pong \<and>
    serve fd [p] s1 = Inr s2 \<and> clients_of s2 fd = Some c2 \<and>
    c2 = c\<lparr>last_activity := clock (srv_net s1) (readings (srv_net s1))\<rparr> \<and>
    (\<forall>w. writes_ok w \<and> clock_ok w \<and> (\<forall>k. clock w k - last_activity c2 \<le> PING_TIMEOUT) \<longrightarrow>
      (\<exists>s3. ping_and_timeout_pass (s2\<lparr>srv_net := w\<rparr>) = Inr s3 \<and> clients_of s3 fd = Some c2 \<and>
        ((\<forall>k. \<not> ping_due c2 (clock w k)) \<longrightarrow> messages_to fd w (srv_net s3) = [])))"
proof -
  let ?q = "set_type zero_message ping" and ?p = "set_type (set_type zero_message ping) pong"
  from ping_pass_client [OF assms(1-3)] assms(4) obtain s1 where
    s1: "ping_and_timeout_pass s = Inr s1" "server_up s1" "clients_of s1 fd = Some c"
      "messages_to fd (srv_net s) (srv_net s1) = [?q]" by blast
  have q: "wf_message ?q" "message_type ?q = msg_code ping" "wf_message ?p" "message_type ?p = msg_code pong" by simp_all
  have "recv_next (receiving (\<lambda>_. Some (msg_bytes ?q)) u) = Some (msg_bytes ?q)" by (simp add: receiving_keeps)
  from ue_pass_pong [OF _ _ q(1,2) this] assms(5,6) obtain u' rest where
    u': "ue_main_pass (receiving (\<lambda>_. Some (msg_bytes ?q)) u) = Inr (True, u')"
      "outbox (ue_net u') = outbox (ue_net u) @ (ue_socket u, ?p) # rest" unfolding receiving_keeps by blast
  let ?c = "c\<lparr>last_activity := clock (srv_net s1) (readings (srv_net s1))\<rparr>"
  from serve_one(1) [OF s1(2,3) q(3,4)] s1(3) obtain s2 where
    s2: "serve fd [?p] s1 = Inr s2" "server_up s2" "clients_of s2 fd = Some ?c" by (auto simp: changed_def simp del: serve.simps)
  have "\<exists>s3. ping_and_timeout_pass (s2\<lparr>srv_net := w\<rparr>) = Inr s3 \<and> clients_of s3 fd = Some ?c \<and>
      ((\<forall>k. \<not> ping_due ?c (clock w k)) \<longrightarrow> messages_to fd w (srv_net s3) = [])"
    if "writes_ok w \<and> clock_ok w \<and> (\<forall>k. clock w k - last_activity ?c \<le> PING_TIMEOUT)" for w
    using ping_pass_client [of "s2\<lparr>srv_net := w\<rparr>" fd ?c] server_up_net [OF s2(2), of w] s2(3) that by auto
  with s1(1,4) u' s2(1,3) q show ?thesis by blast
qed

lemma ping_round_trip_witness:
  "\<exists>s s1 q u' p rest s2. clients_of s = [8 \<mapsto> client8, 15 \<mapsto> client15] \<and> srv_net s = quiet_net (\<lambda>_. 7) \<and>
    ping_and_timeout_pass s = Inr s1 \<and> messages_to 8 (srv_net s) (srv_net s1) = [q] \<and>
    ue_main_pass (receiving (\<lambda>_. Some (msg_bytes q)) (some_ue [])) = Inr (True, u') \<and> outbox (ue_net u') = (4, p) # rest \<and>
    serve 8 [p] s1 = Inr s2"
proof -
  obtain s where s: "server_up s" "clients_of s = [8 \<mapsto> client8, 15 \<mapsto> client15]" "srv_net s = quiet_net (\<lambda>_. 7)"
    using two_client_server_exists [OF quiet_clock [THEN iffD2, OF some_times(2)]] by metis
  have "writes_ok (srv_net s)" "clients_of s 8 = Some client8"
    "\<forall>k. ping_due client8 (clock (srv_net s) k) \<and> clock (srv_net s) k - last_activity client8 \<le> PING_TIMEOUT"
    by (simp_all add: s(2,3) ping_due_def PING_TIME_NORMAL_def PING_TIMEOUT_def)
  from ping_round_trip [OF s(1) this some_ue_going some_ue_simps(6)] s(2,3) show ?thesis
    unfolding some_ue_simps append_Nil by blast
qed

text \<open>C8. The server's view of a battery is the equipment's own: take any number of battery updates and of pings
  that cost battery, in any order, from the equipment's start on; if the notifications it then sends reach the server one after
  the other, the state the server keeps for that client is low exactly if the equipment's own flag says so, it is the last
  one announced, and it is never low above 31 percent; nothing else of any client changes and nothing is answered.  If
  there were no pings among them, it is also low whenever the level is below 16 percent, and good whenever it is above 24.  (With pings
  a low battery can go unannounced, and then both the flag and the server miss it: see \<open>battery_low_missed\<close>.)\<close>

theorem battery_state_follows:
  assumes "server_up s" "clients_of s fd = Some c" "battery_state c = OK"
    and "writes_ok w" "wf_message m" "initialize_battery_life b0 w = (b, w1)"
    and "run_battery ufd ops (m, b, w1) = (m', b', w')"
  shows "\<exists>s'. serve fd (messages_to ufd w w') s = Inr s' \<and> outbox (srv_net s') = outbox (srv_net s) \<and>
    clients_of s' = (clients_of s)(fd \<mapsto> c\<lparr>battery_state := if power_is_low b' then LOW else OK\<rparr>) \<and>
    power_is_low b' = heard (messages_to ufd w w') False \<and>
    (31 < power_percentage b' \<longrightarrow> \<not> power_is_low b') \<and>
    (Pinged \<notin> set ops \<longrightarrow>
      (power_percentage b' < 16 \<longrightarrow> power_is_low b') \<and> (24 < power_percentage b' \<longrightarrow> \<not> power_is_low b'))"
proof -
  have b: "view_ok b" "battery_inv b" "bat_cycle 0 (bat_abs b)" "writes_ok w1" "types_sent w1 = types_sent w @ alternating 0"
    "outbox w1 = outbox w" "power_is_low b = False"
    using assms(4,6)
    by (auto simp: initialize_battery_life_def env_defs view_ok_def battery_inv_def bat_cycle_def bat_abs_def alternating_def)
  from run_battery_tells [OF assms(5) b(4,1) assms(7)] b(6,7) obtain ms where
    ms: "outbox w' = outbox w @ map (Pair ufd) ms" "\<forall>m \<in> set ms. notice m" "heard ms False = power_is_low b'"
    and v: "view_ok b'" by (auto simp: tells_def)
  have to: "messages_to ufd w w' = ms" by (simp add: messages_to_append [OF ms(1)] filter_pair o_def)
  have up: "power_is_low b' = odd n" if "map message_type ms = alternating n" for n
  proof (cases n)
    case 0
    with that ms(3) show ?thesis by (simp add: alternating_def)
  next
    case (Suc k)
    with that obtain ms0 m where "ms = ms0 @ [m]" "message_type m = msg_code (if even k then ue_battery_low else ue_battery_high)"
      by (cases ms rule: rev_cases) (auto simp: alternating_Suc simp del: msg_code.simps)
    with Suc ms(3) show ?thesis by (cases "even k") auto
  qed
  have only: "ops = replicate (length ops) Update" if "Pinged \<notin> set ops"
    using that by (induction ops) (auto, metis bat_op.exhaust)
  have "(power_percentage b' < 16 \<longrightarrow> power_is_low b') \<and> (24 < power_percentage b' \<longrightarrow> \<not> power_is_low b')" if p: "Pinged \<notin> set ops"
  proof -
    have "run_battery ufd (replicate (length ops) Update) (m, b, w1) = (m', b', w')" using assms(7) only [OF p] by simp
    from run_updates_cycle [OF b(4,2,3,5) this] obtain n where
      n: "bat_cycle n (bat_abs b')" "types_sent w' = types_sent w @ alternating n" by blast
    have "map message_type ms = alternating n" using n(2) ms(1) by (simp add: types_sent_def o_def)
    from up [OF this] bat_cycle_level [OF n(1)] show ?thesis by blast
  qed
  moreover have "31 < power_percentage b' \<longrightarrow> \<not> power_is_low b'" using v by (auto simp: view_ok_def split: if_splits)
  moreover have "battery_state c = state_of False" using assms(3) by simp
  note serve_notices [OF assms(1,2) this ms(2)]
  ultimately show ?thesis unfolding to ms(3) by blast
qed

lemma battery_state_follows_witness:
  "\<exists>s b w1 m' b' w' s'. clients_of s = [8 \<mapsto> client8, 15 \<mapsto> client15] \<and>
    initialize_battery_life some_battery (quiet_net (\<lambda>_. 0)) = (b, w1) \<and>
    run_battery 4 [Update, Pinged, Update] (zero_message, b, w1) = (m', b', w') \<and>
    serve 8 (messages_to 4 (quiet_net (\<lambda>_. 0)) w') s = Inr s' \<and>
    clients_of s' 8 = Some (client8\<lparr>battery_state := if power_is_low b' then LOW else OK\<rparr>)"
proof -
  obtain s where s: "server_up s" "clients_of s = [8 \<mapsto> client8, 15 \<mapsto> client15]" "srv_net s = quiet_net (\<lambda>_. 0)"
    using two_client_server_exists [OF quiet_clock [THEN iffD2, OF some_times(1)]] by metis
  obtain b w1 where i: "initialize_battery_life some_battery (quiet_net (\<lambda>_. 0)) = (b, w1)" by (metis surj_pair)
  obtain m' b' w' where r: "run_battery 4 [Update, Pinged, Update] (zero_message, b, w1) = (m', b', w')"
    by (metis prod_cases3)
  have "clients_of s 8 = Some client8" "battery_state client8 = OK" "writes_ok (quiet_net (\<lambda>_. 0))" "wf_message zero_message"
    by (simp_all add: s(2))
  from battery_state_follows [OF s(1) this i r] obtain s' where
    "serve 8 (messages_to 4 (quiet_net (\<lambda>_. 0)) w') s = Inr s'"
    "clients_of s' 8 = Some (client8\<lparr>battery_state := if power_is_low b' then LOW else OK\<rparr>)"
    by (metis fun_upd_same)
  with s(2) i r show ?thesis by blast
qed

text \<open>C9. Measurements go round for nothing: a measurement pass sends each client exactly one request, the user equipment answers it
  in the pass that receives it with one report that carries the event of its cells, and the server, to which the
  report then comes, drops it: no client changes and nothing is sent.\<close>

theorem measurement_round_trip:
  assumes "server_up s" "writes_ok (srv_net s)" "clients_of s fd = Some c" "ue_going u" "writes_ok (ue_net u)"
  shows "\<exists>s1 q u' r s2. measurement_pass s = Inr s1 \<and>
    messages_to fd (srv_net s) (srv_net s1) = [q] \<and> message_type q = msg_code measurement_control_request \<and>
    ue_main_pass (receiving (\<lambda>_. Some (msg_bytes q)) u) = Inr (True, u') \<and>
    outbox (ue_net u') = outbox (ue_net u) @ [(ue_socket u, r)] \<and> message_type r = msg_code measurement_report \<and>
    get_events r = event_code (current_event (ue_cells u)) \<and>
    serve fd [r] s1 = Inr s2 \<and> clients_of s2 = clients_of s \<and> outbox (srv_net s2) = outbox (srv_net s1)"
proof -
  let ?q = "set_type zero_message measurement_control_request"
  from measurement_pass_client [OF assms(1-3)] obtain s1 where
    s1: "measurement_pass s = Inr s1" "server_up s1" "clients_of s1 = clients_of s"
      "messages_to fd (srv_net s) (srv_net s1) = [?q]" by blast
  have q: "wf_message ?q" "message_type ?q = msg_code measurement_control_request" by simp_all
  have "recv_next (receiving (\<lambda>_. Some (msg_bytes ?q)) u) = Some (msg_bytes ?q)" by (simp add: receiving_keeps)
  from ue_pass_report [OF _ _ q this] assms(4,5) obtain u' r where
    u': "ue_main_pass (receiving (\<lambda>_. Some (msg_bytes ?q)) u) = Inr (True, u')"
      "outbox (ue_net u') = outbox (ue_net u) @ [(ue_socket u, r)]" "wf_message r"
      "message_type r = msg_code measurement_report" "get_events r = event_code (current_event (ue_cells u))"
    unfolding receiving_keeps by blast
  have c1: "clients_of s1 fd = Some c" using s1(3) assms(3) by simp
  from serve_one(4) [OF s1(2) c1 u'(3,4)] s1(3) obtain s2 where
    "serve fd [r] s1 = Inr s2" "clients_of s2 = clients_of s" "outbox (srv_net s2) = outbox (srv_net s1)"
    by (auto simp: changed_def option.map_id simp del: serve.simps)
  with s1(1,4) u' q show ?thesis by blast
qed

lemma measurement_round_trip_witness:
  "\<exists>s s1 q u' r s2. clients_of s = [8 \<mapsto> client8, 15 \<mapsto> client15] \<and> measurement_pass s = Inr s1 \<and>
    messages_to 8 (srv_net s) (srv_net s1) = [q] \<and>
    ue_main_pass (receiving (\<lambda>_. Some (msg_bytes q)) (some_ue [])) = Inr (True, u') \<and> outbox (ue_net u') = [(4, r)] \<and>
    get_events r = 4 \<and> serve 8 [r] s1 = Inr s2 \<and> clients_of s2 = clients_of s"
proof -
  obtain s where s: "server_up s" "clients_of s = [8 \<mapsto> client8, 15 \<mapsto> client15]" "srv_net s = quiet_net (\<lambda>_. 0)"
    using two_client_server_exists [OF quiet_clock [THEN iffD2, OF some_times(1)]] by metis
  have "writes_ok (srv_net s)" "clients_of s 8 = Some client8" by (simp_all add: s(2,3))
  from measurement_round_trip [OF s(1) this some_ue_going some_ue_simps(6)] s(2) show ?thesis
    unfolding some_ue_simps append_Nil event_code.simps by blast
qed

end
