(* ===== verification/Ue_Files.thy ===== *)
theory Ue_Files
  imports Attach
begin

text \<open>
  Which sequences of file messages the user equipment survives.  Its \<open>FILE *\<close> is a local variable without an initial value,
  \<open>fopen\<close> is not checked, and nothing says in which order messages come: from its start on, the program
  goes on exactly as long as every piece of a file comes while a file is open.
\<close>

section \<open>Order\<close>

definition is_start :: "s_message \<Rightarrow> bool" where
  "is_start m \<longleftrightarrow> message_type m = msg_code data_start"

text \<open>
  The last start before message \<open>i\<close> has opened a file, and since then there was nothing but data.  \<open>fopen\<close> has
  been called once for each start before.
\<close>

definition file_open_at :: "filesystem \<Rightarrow> s_message list \<Rightarrow> nat \<Rightarrow> bool" where
  "file_open_at d fm i \<longleftrightarrow> (\<exists>j < i. is_start (fm ! j) \<and> fopen_ok d (fopens d + length (filter is_start (take j fm))) \<and>
    (\<forall>k. j < k \<and> k < i \<longrightarrow> message_type (fm ! k) = msg_code data))"

definition in_order :: "filesystem \<Rightarrow> s_message list \<Rightarrow> bool" where
  "in_order d fm \<longleftrightarrow> (\<forall>i < length fm.
    if is_start (fm ! i) then \<exists>name. c_string_at (message_value (fm ! i)) = Inr name else file_open_at d fm i)"

lemma file_open_at_append: "i \<le> length fm \<Longrightarrow> file_open_at d (fm @ ms) i = file_open_at d fm i"
  unfolding file_open_at_def by (intro ex_cong1) (auto simp: nth_append)

lemma in_order_snoc:
  "in_order d (fm @ [m]) \<longleftrightarrow> in_order d fm \<and>
    (if is_start m then \<exists>name. c_string_at (message_value m) = Inr name else file_open_at d fm (length fm))"
proof -
  let ?Q = "\<lambda>fm i. if is_start (fm ! i) then \<exists>name. c_string_at (message_value (fm ! i)) = Inr name else file_open_at d fm i"
  have "?Q (fm @ [m]) i = ?Q fm i" if "i < length fm" for i
    using that by (simp add: nth_append file_open_at_append)
  then have "(\<forall>i < length fm. ?Q (fm @ [m]) i) = (\<forall>i < length fm. ?Q fm i)" by blast
  moreover have "?Q (fm @ [m]) (length fm) =
    (if is_start m then \<exists>name. c_string_at (message_value m) = Inr name else file_open_at d fm (length fm))"
    by (simp add: file_open_at_append)
  ultimately show ?thesis unfolding in_order_def length_append_singleton All_less_Suc by blast
qed

lemma file_open_at_snoc:
  "file_open_at d (fm @ [m]) (Suc (length fm)) \<longleftrightarrow>
    (if is_start m then fopen_ok d (fopens d + length (filter is_start fm))
     else message_type m = msg_code data \<and> file_open_at d fm (length fm))"
proof -
  let ?n = "length fm" and ?P = "\<lambda>fm i j. is_start (fm ! j) \<and> fopen_ok d (fopens d + length (filter is_start (take j fm))) \<and>
    (\<forall>k. j < k \<and> k < i \<longrightarrow> message_type (fm ! k) = msg_code data)"
  have final: "?P (fm @ [m]) (Suc ?n) ?n \<longleftrightarrow> is_start m \<and> fopen_ok d (fopens d + length (filter is_start fm))" by simp
  have before: "?P (fm @ [m]) (Suc ?n) j \<longleftrightarrow> message_type m = msg_code data \<and> ?P fm ?n j" if "j < ?n" for j
  proof -
    have "(\<forall>k. j < k \<and> k < Suc ?n \<longrightarrow> message_type ((fm @ [m]) ! k) = msg_code data) \<longleftrightarrow>
      message_type m = msg_code data \<and> (\<forall>k. j < k \<and> k < ?n \<longrightarrow> message_type (fm ! k) = msg_code data)"
      using that by (auto simp: less_Suc_eq nth_append)
    then show ?thesis using that by (auto simp: nth_append simp del: msg_code.simps)
  qed
  have "file_open_at d (fm @ [m]) (Suc ?n) \<longleftrightarrow> ?P (fm @ [m]) (Suc ?n) ?n \<or> (\<exists>j < ?n. ?P (fm @ [m]) (Suc ?n) j)"
    unfolding file_open_at_def by (rule Ex_less_Suc)
  also have "\<dots> \<longleftrightarrow> (is_start m \<and> fopen_ok d (fopens d + length (filter is_start fm))) \<or>
      (message_type m = msg_code data \<and> file_open_at d fm ?n)"
    unfolding final file_open_at_def using before by blast
  finally show ?thesis by (auto simp: is_start_def)
qed

section \<open>The download machine\<close>

definition is_open :: "file_ptr \<Rightarrow> bool" where
  "is_open fp \<longleftrightarrow> (\<exists>name. fp = OpenFile name)"

lemma file_calls_open:
  "(\<exists>d'. fwrite_all fp bs d = Inr d') \<longleftrightarrow> is_open fp" "(\<exists>fp'. fclose_file fp = Inr fp') \<longleftrightarrow> is_open fp"
  by (cases fp; simp add: is_open_def)+

lemma fwrite_all_keeps: "fwrite_all fp bs d = Inr d' \<Longrightarrow> fopens d' = fopens d \<and> fopen_ok d' = fopen_ok d"
  by (cases fp) auto

text \<open>What a run of the machine says about the order, and what it leaves.\<close>

definition run_shows :: "filesystem \<Rightarrow> s_message list \<Rightarrow> dl res \<Rightarrow> bool" where
  "run_shows d fm r \<longleftrightarrow> (case r of
     Inl e \<Rightarrow> \<not> in_order d fm
   | Inr (fp, d', k, n) \<Rightarrow> in_order d fm \<and> fopens d' = fopens d + length (filter is_start fm) \<and> fopen_ok d' = fopen_ok d \<and>
       is_open fp = file_open_at d fm (length fm) \<and> 0 \<le> k \<and> k \<le> int (length fm) \<and> 0 \<le> n \<and> n \<le> 16 * int (length fm))"

lemma is_start_types:
  "message_type m = msg_code data_start \<Longrightarrow> is_start m" "message_type m = msg_code data \<Longrightarrow> \<not> is_start m"
  "message_type m = msg_code data_end \<Longrightarrow> \<not> is_start m"
  by (simp_all add: is_start_def)

lemma file_message_types: "file_message m \<longleftrightarrow> message_type m \<in> msg_code ` {data_start, data, data_end}"
  by (auto simp: file_message_def msg_label_Some simp del: msg_code.simps)

lemma run_shows_step:
  assumes "run_shows d fm (Inr st)" "file_message m" "16 * int (Suc (length fm)) \<le> INT_MAX"
  shows "run_shows d (fm @ [m]) (dl_step (Some m) st)"
proof -
  obtain fp d' k n where st: "st = (fp, d', k, n)" by (metis prod_cases4)
  with assms(1) have o: "in_order d fm" "fopens d' = fopens d + length (filter is_start fm)" "fopen_ok d' = fopen_ok d"
    "is_open fp = file_open_at d fm (length fm)" "0 \<le> k" "k \<le> int (length fm)" "0 \<le> n" "n \<le> 16 * int (length fm)"
    by (simp_all add: run_shows_def)
  have i: "c_int (n + 16) = Inr (n + 16)" "c_int (k + 1) = Inr (k + 1)" using o(5-8) assms(3) by simp_all
  consider (start) "message_type m = msg_code data_start" | (data) "message_type m = msg_code data"
    | (last) "message_type m = msg_code data_end"
    using assms(2) by (auto simp: file_message_types simp del: msg_code.simps)
  then show ?thesis
  proof cases
    case start
    note s = is_start_types(1) [OF start]
    show ?thesis
    proof (cases "c_string_at (message_value m)")
      case (Inl e)
      with start s show ?thesis by (simp add: st run_shows_def in_order_snoc del: msg_code.simps)
    next
      case (Inr name)
      with start s o show ?thesis
        by (simp add: st run_shows_def in_order_snoc file_open_at_snoc fopen_append_def is_open_def del: msg_code.simps)
    qed
  next
    case data
    note s = is_start_types(2) [OF data]
    show ?thesis
    proof (cases "fwrite_all fp (get_buffer m) d'")
      case (Inl e)
      then have "\<not> is_open fp" using file_calls_open(1) [of fp "get_buffer m" d'] by simp
      with Inl data s o(4) show ?thesis by (simp add: st run_shows_def in_order_snoc del: msg_code.simps)
    next
      case (Inr d2)
      then have "is_open fp" using file_calls_open(1) [of fp "get_buffer m" d'] by blast
      with Inr data s o i fwrite_all_keeps [OF Inr] show ?thesis
        by (simp add: st run_shows_def in_order_snoc file_open_at_snoc del: msg_code.simps)
    qed
  next
    case last
    note s = is_start_types(3) [OF last]
    show ?thesis
    proof (cases "fclose_file fp")
      case (Inl e)
      then have "\<not> is_open fp" using file_calls_open(2) [of fp] by simp
      with Inl last s o(4) show ?thesis by (simp add: st run_shows_def in_order_snoc del: msg_code.simps)
    next
      case (Inr fp2)
      then have "is_open fp" "fp2 = ClosedFile" by (cases fp; simp add: is_open_def)+
      with Inr last s o show ?thesis
        by (simp add: st run_shows_def in_order_snoc file_open_at_snoc is_open_def del: msg_code.simps)
    qed
  qed
qed

lemma dl_run_shows:
  assumes "\<forall>m \<in> set fm. file_message m" "16 * int (length fm) \<le> INT_MAX"
  shows "run_shows d fm (dl_run (map Some fm) (Indeterminate, d, 0, 0))"
  using assms
proof (induction fm rule: rev_induct)
  case Nil
  then show ?case by (simp add: run_shows_def in_order_def file_open_at_def is_open_def)
next
  case (snoc m fm)
  then have "run_shows d fm (dl_run (map Some fm) (Indeterminate, d, 0, 0))" by simp
  then show ?case
  proof (cases "dl_run (map Some fm) (Indeterminate, d, 0, 0)")
    case (Inl e)
    with \<open>run_shows d fm _\<close> show ?thesis by (simp add: dl_run_append run_shows_def in_order_snoc)
  next
    case (Inr st)
    with \<open>run_shows d fm _\<close> have "run_shows d (fm @ [m]) (dl_step (Some m) st)"
      using snoc.prems by (intro run_shows_step) simp_all
    moreover have "bind_res r (dl_run []) = r" for r by (cases r) simp_all
    ultimately show ?thesis using Inr by (simp add: dl_run_append)
  qed
qed

section \<open>What arrives first\<close>

text \<open>The start receives twice, so the third message is the first the loop gets.\<close>

lemma recv_part_rrc:
  assumes "ue_rrc pow32 s = Inr (Some s')"
  shows "recv_part (ue_net s') = (recv_res (ue_net s), Suc (recvs (ue_net s)))"
proof -
  let ?fd = "ue_socket s"
  obtain r m w where q: "send_rrc_connection_request ?fd (ue_message s) (generate_ue_identity pow32) (ue_net s) = Inr (r, m, w)"
    using assms by (auto simp: ue_rrc_def bind_res_Inr_iff)
  obtain r2 rcv m2 w2 where v: "receive_rrc_setup ?fd (ue_received s) m w = (r2, rcv, m2, w2)" by (metis prod_cases4)
  from q obtain u w1 where
    g: "generate_ue_identity pow32 (get_ue_identity (set_type (ue_message s) rrc_request)) (ue_net s) = Inr (u, w1)"
    by (cases "generate_ue_identity pow32 (get_ue_identity (set_type (ue_message s) rrc_request)) (ue_net s)")
      (auto simp: send_rrc_connection_request_def Let_def)
  then have "recv_part w1 = recv_part (ue_net s)"
    by (auto simp: generate_ue_identity_def c_rand_def recv_part_def Let_def split: if_splits)
  moreover have "w = snd (write_msg ?fd m w1)"
    using q g by (auto simp: send_rrc_connection_request_def Let_def split_beta)
  ultimately have "recv_part w = recv_part (ue_net s)" by (simp add: recv_part_calls)
  moreover have "recv_part w2 = (recv_res w, Suc (recvs w))"
    using v by (auto simp: receive_rrc_setup_def recv_bytes_def send_rrc_setup_complete_def write_msg_def recv_part_def Let_def
        split: option.splits if_splits)
  moreover have "ue_net s' = w2" using assms q v by (auto simp: ue_rrc_def Let_def split: if_splits)
  ultimately show ?thesis by (simp add: recv_part_def)
qed

lemma recv_part_rach:
  assumes "ue_rach pow32 s = Inr (Some s')"
  shows "recv_part (ue_net s') = (recv_res (ue_net s), recvs (ue_net s) + 2)"
proof -
  let ?fd = "ue_socket s"
  obtain r m w where p: "send_prach_preamble ?fd (ue_message s) generate_ra_rnti (ue_net s) = (r, m, w)" by (metis prod_cases3)
  obtain r2 rcv m2 w2 where v: "receive_prach_response ?fd (ue_received s) m w = (r2, rcv, m2, w2)" by (metis prod_cases4)
  have "recv_part w = recv_part (ue_net s)"
    using p by (auto simp: send_prach_preamble_def generate_ra_rnti_def c_rand_def write_msg_def recv_part_def Let_def)
  moreover have "recv_part w2 = (recv_res w, Suc (recvs w))"
    using v by (auto simp: receive_prach_response_def recv_bytes_def recv_part_def Let_def split: option.splits if_splits)
  moreover have "ue_rrc pow32 (s\<lparr>ue_received := rcv, ue_message := m2, ue_net := w2\<rparr>) = Inr (Some s')"
    using assms p v by (simp add: ue_rach_def Let_def split: if_splits)
  note recv_part_rrc [OF this]
  ultimately show ?thesis by (simp add: recv_part_def)
qed

lemma ue_start_recvs:
  assumes "ue_start sock conn pow32 s = Inr (Some s')"
  shows "recv_part (ue_net s') = (recv_res (ue_net s), recvs (ue_net s) + 2)"
proof -
  obtain b c r where i: "ue_initialize s = s\<lparr>ue_bat := b, ue_cells := c,
    ue_net := (ue_net s)\<lparr>rands := Suc (Suc (rands (ue_net s))), readings := r\<rparr>\<rparr>" using ue_initialize_net by blast
  let ?s = "s\<lparr>ue_bat := b, ue_cells := c, ue_socket := sock,
    ue_net := (ue_net s)\<lparr>rands := Suc (Suc (rands (ue_net s))), readings := r\<rparr>\<rparr>"
  have "ue_rach pow32 ?s = Inr (Some s')"
    using assms i by (auto simp: ue_start_def init_connection_def Let_def split: if_splits)
  from recv_part_rach [OF this] show ?thesis by simp
qed

section \<open>Property\<close>



end
