(* ===== verification/Logs.thy ===== *)
theory Logs
  imports Prelude
begin

text \<open>
  Logging (\<^verbatim>\<open>logs/logs.c\<close>): one call of \<open>add_logf\<close> writes a line to the terminal and appends one to a file.  The text
  that \<open>asctime\<close> gives for the current time and the success of \<open>fopen\<close> come from the environment; the message is the
  text that \<open>vprintf\<close> makes of the format and its arguments.
\<close>

section \<open>The environment\<close>

record log_world =
  terminal :: string
  log_files :: "string \<rightharpoonup> string"
  fopen_ok :: "string \<Rightarrow> bool"
  asctime_res :: "nat \<Rightarrow> string"
  log_calls :: nat

text \<open>\<open>enum logs\<close>, with the values C gives it.\<close>

datatype logs = LOG_SUCCESS | LOG_WARNING | LOG_ERROR | LOG_INFO

fun log_code :: "logs \<Rightarrow> int" where
  "log_code LOG_SUCCESS = 0"
| "log_code LOG_WARNING = 1"
| "log_code LOG_ERROR = 2"
| "log_code LOG_INFO = 3"

definition client_log_filename :: string where
  "client_log_filename = ''../logs/client.log''"

definition server_log_filename :: string where
  "server_log_filename = ''../logs/server.log''"

definition newline :: char where
  "newline = CHR 0x0A"

text \<open>
  What \<open>strtok(s, "\n")\<close> leaves of \<open>s\<close>: newlines in front are skipped, the next one is overwritten with the terminator.
\<close>

definition strtok_newline :: "string \<Rightarrow> string" where
  "strtok_newline s = takeWhile (\<lambda>c. c = newline) s @ takeWhile (\<lambda>c. c \<noteq> newline) (dropWhile (\<lambda>c. c = newline) s)"

definition put_terminal :: "string \<Rightarrow> log_world \<Rightarrow> log_world" where
  "put_terminal s w = w\<lparr>terminal := terminal w @ s\<rparr>"

text \<open>\<open>fopen(name, "a")\<close> creates the file if need be, \<open>fprintf\<close> to a null stream is undefined.\<close>

definition fopen_append :: "string \<Rightarrow> log_world \<Rightarrow> string option \<times> log_world" where
  "fopen_append name w =
    (if fopen_ok w name
     then (Some name, w\<lparr>log_files := (log_files w)(name \<mapsto> (case log_files w name of None \<Rightarrow> [] | Some t \<Rightarrow> t))\<rparr>)
     else (None, w))"

fun put_file :: "string option \<Rightarrow> string \<Rightarrow> log_world \<Rightarrow> log_world res" where
  "put_file None s w = Inl NullDeref"
| "put_file (Some f) s w = Inr (w\<lparr>log_files := (log_files w)(f := map_option (\<lambda>t. t @ s) (log_files w f))\<rparr>)"

section \<open>The operation\<close>

text \<open>The switch over the kind of message; other values print no tag.\<close>

definition put_tag :: "string option \<Rightarrow> int \<Rightarrow> log_world \<Rightarrow> log_world res" where
  "put_tag log_file log w =
    (if log = 0 then put_file log_file ''[SUCCESS] '' (put_terminal '' [SUCCESS] '' w)
     else if log = 1 then put_file log_file ''[WARNING] '' (put_terminal '' [WARNING] '' w)
     else if log = 2 then put_file log_file '' [ERROR] '' (put_terminal '' [ERROR] '' w)
     else if log = 3 then put_file log_file '' [INFO] '' (put_terminal '' [INFO] '' w)
     else Inr w)"

definition add_logf :: "string \<Rightarrow> int \<Rightarrow> string \<Rightarrow> log_world \<Rightarrow> log_world res" where
  "add_logf log_file_name log str w =
    (let local_time = strtok_newline (asctime_res w (log_calls w));
         (log_file, w1) = fopen_append log_file_name (w\<lparr>log_calls := Suc (log_calls w)\<rparr>)
     in bind_res (put_file log_file local_time (put_terminal local_time w1)) (\<lambda>w2.
        bind_res (put_tag log_file log w2) (\<lambda>w3.
        bind_res (put_file log_file str (put_terminal [newline] (put_terminal str w3))) (\<lambda>w4.
        put_file log_file [newline] w4))))"

section \<open>Lines\<close>

definition file_tag :: "int \<Rightarrow> string" where
  "file_tag log = (if log = 0 then ''[SUCCESS] '' else if log = 1 then ''[WARNING] ''
    else if log = 2 then '' [ERROR] '' else if log = 3 then '' [INFO] '' else [])"

definition terminal_tag :: "int \<Rightarrow> string" where
  "terminal_tag log = (if log \<in> {0, 1} then '' '' else []) @ file_tag log"

text \<open>What has been written to a file; a file that does not exist holds nothing.\<close>

definition contents :: "log_world \<Rightarrow> string \<Rightarrow> string" where
  "contents w f = (case log_files w f of None \<Rightarrow> [] | Some t \<Rightarrow> t)"

definition log_line :: "(int \<Rightarrow> string) \<Rightarrow> string \<Rightarrow> int \<Rightarrow> string \<Rightarrow> string" where
  "log_line tag time log str = strtok_newline time @ tag log @ str @ [newline]"

lemma add_logf_ok:
  assumes "fopen_ok w name"
  shows "\<exists>w'. add_logf name log str w = Inr w' \<and>
    terminal w' = terminal w @ log_line terminal_tag (asctime_res w (log_calls w)) log str \<and>
    contents w' = (contents w)(name := contents w name @ log_line file_tag (asctime_res w (log_calls w)) log str) \<and>
    log_calls w' = Suc (log_calls w) \<and> fopen_ok w' = fopen_ok w \<and> asctime_res w' = asctime_res w"
  using assms
  by (auto simp: add_logf_def fopen_append_def put_terminal_def put_tag_def log_line_def contents_def fun_eq_iff
      file_tag_def terminal_tag_def Let_def)

section \<open>A run of the program's log\<close>

fun log_run :: "(string \<times> int \<times> string) list \<Rightarrow> log_world \<Rightarrow> log_world res" where
  "log_run [] w = Inr w"
| "log_run ((name, log, str) # ls) w = bind_res (add_logf name log str w) (log_run ls)"

text \<open>The lines that calls numbered from \<open>n\<close> on put into the file \<open>f\<close>.\<close>

fun file_lines :: "(nat \<Rightarrow> string) \<Rightarrow> nat \<Rightarrow> string \<Rightarrow> (string \<times> int \<times> string) list \<Rightarrow> string" where
  "file_lines ts n f [] = []"
| "file_lines ts n f ((name, log, str) # ls) =
    (if name = f then log_line file_tag (ts n) log str else []) @ file_lines ts (Suc n) f ls"

fun terminal_lines :: "(nat \<Rightarrow> string) \<Rightarrow> nat \<Rightarrow> (string \<times> int \<times> string) list \<Rightarrow> string" where
  "terminal_lines ts n [] = []"
| "terminal_lines ts n ((name, log, str) # ls) = log_line terminal_tag (ts n) log str @ terminal_lines ts (Suc n) ls"

section \<open>Properties\<close>

text \<open>C40. Logging loses and mixes nothing: after any sequence of calls, each log file is what it was before followed by
  one line for every call that names it, in order, and the terminal has a line for every call; only when a file
  cannot be opened does a call crash, because the null stream is written to.\<close>

theorem log_run_appends:
  "if \<forall>(name, log, str) \<in> set ls. fopen_ok w name
   then \<exists>w'. log_run ls w = Inr w' \<and> terminal w' = terminal w @ terminal_lines (asctime_res w) (log_calls w) ls \<and>
     (\<forall>f. contents w' f = contents w f @ file_lines (asctime_res w) (log_calls w) f ls)
   else log_run ls w = Inl NullDeref"
proof (induction ls arbitrary: w)
  case Nil
  then show ?case by simp
next
  case (Cons l ls)
  obtain name log str where l: "l = (name, log, str)" by (cases l)
  show ?case
  proof (cases "fopen_ok w name")
    case True
    from add_logf_ok [OF this, of log str] obtain w1 where
      w1: "add_logf name log str w = Inr w1" "terminal w1 = terminal w @ log_line terminal_tag (asctime_res w (log_calls w)) log str"
        "contents w1 = (contents w)(name := contents w name @ log_line file_tag (asctime_res w (log_calls w)) log str)"
        "log_calls w1 = Suc (log_calls w)" "fopen_ok w1 = fopen_ok w" "asctime_res w1 = asctime_res w" by blast
    with Cons.IH [of w1] l True show ?thesis by (auto split: if_splits)
  next
    case False
    then show ?thesis by (simp add: l add_logf_def fopen_append_def)
  qed
qed

lemma log_run_appends_witness:
  "\<exists>w'. log_run [(server_log_filename, log_code LOG_SUCCESS, ''a''), (client_log_filename, log_code LOG_INFO, ''b''),
    (server_log_filename, log_code LOG_ERROR, ''c'')]
      \<lparr>terminal = [], log_files = Map.empty, fopen_ok = (\<lambda>_. True), asctime_res = (\<lambda>_. ''t'' @ [newline]), log_calls = 0\<rparr> = Inr w' \<and>
    contents w' server_log_filename = ''t[SUCCESS] a'' @ [newline] @ ''t [ERROR] c'' @ [newline]"
proof -
  let ?ls = "[(server_log_filename, log_code LOG_SUCCESS, ''a''), (client_log_filename, log_code LOG_INFO, ''b''),
    (server_log_filename, log_code LOG_ERROR, ''c'')]"
  let ?w = "\<lparr>terminal = [], log_files = Map.empty, fopen_ok = (\<lambda>_. True), asctime_res = (\<lambda>_. ''t'' @ [newline]), log_calls = 0\<rparr>"
  obtain w' where w': "log_run ?ls ?w = Inr w'"
    "contents w' server_log_filename = contents ?w server_log_filename @ file_lines (asctime_res ?w) (log_calls ?w) server_log_filename ?ls"
    using log_run_appends [of ?ls ?w] by (auto simp del: log_run.simps file_lines.simps)
  from w'(2) have "contents w' server_log_filename = ''t[SUCCESS] a'' @ [newline] @ ''t [ERROR] c'' @ [newline]"
    by (simp add: contents_def server_log_filename_def client_log_filename_def log_line_def file_tag_def strtok_newline_def
        newline_def)
  with w'(1) show ?thesis by blast
qed

end
