(* ===== verification/Spec2Isabelle.thy ===== *)
theory Spec2Isabelle
  imports Server_Races Server_End Dialogue Ue_Files Logs
begin

text \<open>
  A verification development for the LTE simulator: a server that plays the eNodeB
  (\<^verbatim>\<open>src/serverLTE\<close>), a client that plays a user equipment (\<^verbatim>\<open>src/clientLTE\<close>), the messages between them
  (\<^verbatim>\<open>src/message.h\<close>) and the hash table in which the server keeps its clients (\<^verbatim>\<open>src/lib\<close>).

  \<^bold>\<open>How the programs work.\<close>  The user equipment connects, does a random access (preamble, response) and an
  RRC connection (request, set-up, completion), and then runs two threads: the main loop, which polls
  the socket and answers pings and measurement requests and downloads files, and the battery thread.
  The server's main thread waits with epoll, accepts connections and handles packets; three more
  threads ping the clients and remove silent ones, ask for measurements, and transfer a file.  All of
  them go through the hash table from the decimal text of a socket to the client's structure.

  \<^bold>\<open>Conventions.\<close>  A C function is a function on the part of the state it touches.  Whatever can fail
  at run time (null or dangling pointer, access out of bounds, overflow of \<open>int\<close>, division by zero,
  a loop that does not return) is an \<open>Inl\<close> of the type \<open>error\<close> of \<open>Prelude\<close>; \<open>Inr\<close> is a normal result.
  Narrow integer fields are \<open>int\<close> with the conversion of every assignment written out
  (\<open>to_int8\<close>, \<open>to_int16\<close>, \<open>to_uint32\<close>, ...); the hash function is on 64-bit words.  Results of system calls,
  the clock, \<open>rand\<close>, uninitialised memory and other behaviour C leaves open are arbitrary sequences or
  values in the state (\<open>Env\<close>, \<open>server_t\<close>); theorems that need something of them say so.  The server subtracts the time
  of a client's last activity from the current one; an accepted client's is uninitialised memory at first, so the difference is a 64-bit one
  that can overflow (\<open>c_time_t\<close>), and the server's invariant has the bound of \<open>2 ^ 62\<close> on both times (\<open>times_ok\<close>) under
  which it does not.  For the same reason the battery state of a client is an integer, of which \<open>OK\<close> and \<open>LOW\<close> are two values.

  \<^bold>\<open>The theories, bottom up.\<close>

  \<^item> \<open>Prelude\<close>: results with errors, C integer conversions, generic lemmas.
  \<^item> \<open>CMem\<close>: integers in bytes, loads and stores at an offset.
  \<^item> \<open>Murmur3\<close> (\<^verbatim>\<open>lib/MurmurHash3.c\<close>): the hash; it equals a reference on the padded key, reads only
    the key, and is injective on keys of up to eight bytes.
  \<^item> \<open>Hashmap\<close> (\<^verbatim>\<open>lib/hashmap.c\<close>): slots, chained entries in an arena of live and freed nodes, every
    operation as the pointer program it is.  Walks along a chain have the number of nodes of
    the arena (plus two) as fuel, which a chain without cycles cannot use up; \<open>hashmap_put\<close> has 33 attempts,
    one more than a 32-bit size can be doubled.  The proofs show that the fuel never runs out
    on a table that satisfies the invariant (for \<open>hashmap_put\<close>: that two calls are enough).
  \<^item> \<open>Hashmap_Rep\<close>, \<open>Hashmap_Double\<close>, \<open>Hashmap_Map\<close>, \<open>Hashmap_Ops\<close>, \<open>Hashmap_Del\<close>, \<open>Hashmap_Iter\<close>, \<open>Hashmap_Sweep\<close>:
    the representation predicate (\<open>hm_rep\<close>), that every operation keeps it, what it does to the
    represented map, and what an iteration visits, also when its callback deletes entries.
    \<open>String_Map\<close> is the interface as locales; \<open>Hashmap_Props\<close> interprets it and holds the properties.
  \<^item> \<open>Message\<close>: the 48 bytes of a message, member by member; \<open>Env\<close>: the operating system.
  \<^item> \<open>Random_Access\<close>, \<open>Rrc\<close>, \<open>User_Equipment\<close>, \<open>Handle_Messages\<close> (with \<^verbatim>\<open>shutdown.c\<close> and
    \<^verbatim>\<open>init_connection.c\<close>), \<open>Ue_Main\<close>: the files of the client, in that order.
  \<^item> \<open>Battery_Props\<close>, \<open>Signal_Props\<close>: the battery (range, refinement of an abstract battery,
    notifications) and the signals and events of the cells.
  \<^item> \<open>Invariant\<close>: transition systems with an invariant, as a locale; \<open>Ue_Props\<close> interprets it on the
    interleaving of the client's threads and its signal handler.  \<open>Ue_Download\<close> projects runs to the
    download, \<open>Ue_Theorems\<close> holds the properties of the client.  \<open>Ue_Threads\<close> interleaves the two threads call by call
    (every pass is a run of its steps): the invariant at that granularity, that the client ends after a signal, and a
    message that is lost between the threads.  \<open>Ue_Calm\<close>: if only the battery is not checked between a \<open>recv\<close> and its
    \<open>switch\<close>, no message is lost and downloads are complete under every schedule of the calls and signals.
  \<^item> \<open>Decimal\<close>: \<open>sprintf\<close> with \<open>%d\<close> and \<open>atoi\<close>.  \<open>Client_Object\<close>, \<open>Client_Handler\<close>, \<open>Packet_Handler\<close>, \<open>Server\<close>:
    the files of the server; \<open>parse_packet\<close> stands in \<open>Server\<close>, because it may call \<open>error\<close>.
  \<^item> \<open>Server_Inv\<close>: the abstract state, a map from sockets to clients (\<open>clients_of\<close>), and the invariant
    (\<open>server_inv\<close>) under which pointers, table and epoll set implement it.  \<open>Server_Steps\<close>: what single
    operations do to it; \<open>Server_Passes\<close>: the passes over all clients.
  \<^item> \<open>Server_Theorems\<close>: the server's threads as a transition system (interpretation of \<open>Invariant\<close>) and a
    concrete server for examples.  \<open>Server_Packets\<close> (reachable states, accepting, single packets), \<open>Server_Kick\<close> (pings and
    the inactivity sweep), \<open>Server_End\<close> (interrupt, errors), \<open>Server_Transfer\<close> (file transfer): its properties.
    \<open>Server_End\<close> covers both cases of the joined pinging thread: out of its loop, or sleeping before its last pass.
    \<open>Server_Types\<close>: what the server sends in all its life (\<open>downlink\<close>: eight types, each with its contents) and to whom.
    \<open>Server_Races\<close>: a pass of the pinging thread between the lookup and the use of a client.
  \<^item> \<open>Address\<close> (\<^verbatim>\<open>init_server_address\<close> in \<^verbatim>\<open>serverLTE/server.c\<close> and the address in \<^verbatim>\<open>clientLTE/init_connection.c\<close>): the socket
    addresses the two programs fill in, and that they meet.  \<open>Programs\<close>: the \<open>main\<close> functions with their command lines
    (\<open>server_program\<close>, \<open>ue_program\<close>), and which outcome each failing call of the client's start has.
  \<^item> \<open>System\<close>: both programs together: the two handshakes, and a file that arrives under those schedules.  \<open>Attach\<close>: the whole start-up
    of a user equipment, from its command line to its running threads, against the server.  \<open>Dialogue\<close>: what they say to each
    other from then on, message by message (\<open>serve\<close>): pings and pongs, the notifications of the battery and the server's record of
    it, measurement requests and the reports the server drops.  \<open>Ue_Files\<close>: which sequences of file messages a started client
    survives, its file pointer having no initial value.
  \<^item> \<open>Logs\<close> (\<^verbatim>\<open>logs/logs.c\<close>): what a sequence of log calls leaves on the terminal and in the files.

  \<^bold>\<open>Steps.\<close>  In the server a pass of a thread's loop is one step, so its theorems about interleavings are about passes;
  the source takes no lock around the table, and of the races this allows inside a pass only that of \<open>Server_Races\<close>
  is modelled.  In the client the calls of a pass are steps (\<open>Ue_Threads\<close>, \<open>Ue_Calm\<close>), and its theorems about single passes
  (\<open>Ue_Theorems\<close>) are about schedules in which a pass is not interrupted.  A client is identified
  with the descriptor the kernel gave it; the environment gives a descriptor only if it is not in use
  (\<open>accept_ok\<close>) and below ten million, which fits the key buffer.

  \<^bold>\<open>Not modelled.\<close>  The calls of the logging function in the other components, which use no result of it (they return
  as long as the log file can be opened), and other terminal output; sleeping; the timing of downloads
  (\<open>what_time_is_it\<close>, a \<open>double\<close> that only a log line shows); creation of the server's threads, and the joining of threads,
  except that the clean-up waits for the pinging thread, which may do one last pass (\<open>late_pass\<close>), and that the client's main thread
  waits for its battery thread; failing \<open>malloc\<close> and \<open>calloc\<close>; a port number that \<open>atoi\<close> cannot represent; partial
  sends, and the signal \<open>SIGPIPE\<close>, which ends a program that sends to a connection its peer has reset
  (a failing send returns -1 here).
\<close>

end
